(* ===== verification/Prelude.thy ===== *)
theory Prelude
  imports Main "HOL-Library.Word"
begin

text \<open>
  Shared vocabulary of the development: the widths of the Rust integers, the collections of
  rewrite rules the component theories fill, and the generic facts on lists, residues and words
  that several components use.  The target is a 64-bit platform, so \<^verbatim>\<open>usize\<close> and
  \<^verbatim>\<open>u64\<close> are both 64 bits wide; arithmetic on them wraps, as it does in a release build.
\<close>

type_synonym u8 = "8 word"
type_synonym u16 = "16 word"
type_synonym u32 = "32 word"
type_synonym u64 = "64 word"
type_synonym usize = "64 word"

named_theorems proto_simps
  \<open>what a valid lock name is, to evaluate the test on a concrete one\<close>
named_theorems lock_simps
  \<open>reading and updating one client of the event-loop server\<close>
named_theorems wal_simps
  \<open>sequences of system calls, and calls whose answer is known\<close>
named_theorems gfs_simps
  \<open>reading and updating the store of one chunk server\<close>

section \<open>Reachable states and invariants\<close>

text \<open>The states a step relation reaches from its initial states, and the interface under which
  an invariant of the steps is one of every reachable state.\<close>

inductive reach :: "('s \<Rightarrow> bool) \<Rightarrow> ('s \<Rightarrow> 's \<Rightarrow> bool) \<Rightarrow> 's \<Rightarrow> bool" for init step where
  reach_start: "init s \<Longrightarrow> reach init step s"
| reach_step: "reach init step s \<Longrightarrow> step s t \<Longrightarrow> reach init step t"

locale invariant_system =
  fixes init :: "'s \<Rightarrow> bool"
    and step :: "'s \<Rightarrow> 's \<Rightarrow> bool"
    and inv :: "'s \<Rightarrow> bool"
  assumes init_inv: "init s \<Longrightarrow> inv s"
    and step_inv: "inv s \<Longrightarrow> step s t \<Longrightarrow> inv t"
begin

lemma reach_inv: "reach init step s \<Longrightarrow> inv s"
  by (induction rule: reach.induct) (auto intro: init_inv step_inv)

lemma steps_inv: "step\<^sup>*\<^sup>* s t \<Longrightarrow> inv s \<Longrightarrow> inv t"
  by (induction rule: rtranclp_induct) (auto intro: step_inv)

end

section \<open>Residues and windows\<close>

lemma mod_window_inj:
  fixes i j c :: nat
  assumes "i mod c = j mod c" "lo \<le> i" "lo \<le> j" "i < lo + c" "j < lo + c"
  shows "i = j"
proof -
  have "i = j" if "i \<le> j" "i mod c = j mod c" "j < i + c" for i j :: nat
  proof -
    from that(1,2) have "c dvd j - i" by (metis mod_eq_dvd_iff_nat)
    moreover from that(1,3) have "j - i < c" by linarith
    ultimately show ?thesis using that(1) by (auto dest: dvd_imp_le)
  qed
  from this [of i j] this [of j i] assms show ?thesis
    by (cases "i \<le> j") auto
qed

section \<open>Words counting events\<close>

lemma of_nat_diff_word:
  "n \<le> m \<Longrightarrow> (of_nat m :: 'a::len word) - of_nat n = of_nat (m - n)"
  by (simp add: of_nat_diff)

lemma unat_of_nat_small:
  "n < 2 ^ LENGTH('a) \<Longrightarrow> unat (of_nat n :: 'a::len word) = n"
  by (simp add: unat_of_nat take_bit_nat_eq_self)

lemma unat_lt_64 [simp]: "unat (w :: 64 word) < 2 ^ 64"
proof -
  have "unat w < 2 ^ LENGTH(64)" by (rule unsigned_less)
  then show ?thesis by simp
qed

section \<open>Lists\<close>

lemma take_Suc_snoc: "n < length xs \<Longrightarrow> take (Suc n) xs = take n xs @ [xs ! n]"
  by (simp add: take_Suc_conv_app_nth)

lemma list_all_filter: "list_all P xs \<Longrightarrow> list_all P (filter Q xs)"
  by (auto simp: list_all_iff)

end
