(* ===== verification/Spsc.thy ===== *)
theory Spsc
  imports Prelude
begin

text \<open>
  The lock-free single-producer single-consumer channel of \<^verbatim>\<open>spsc/src/lib.rs\<close>.

  The ring buffer is the source's struct: slots, capacity, the two wrapping 64-bit counters and
  the two liveness flags.  A slot is \<open>Some v\<close> while it owns an initialised value and \<open>None\<close>
  while it does not (never written, or moved out by \<^verbatim>\<open>assume_init_read\<close>).

  \<^verbatim>\<open>send\<close> and \<^verbatim>\<open>recv\<close> are split at their atomic accesses: each program counter of a
  thread is a point between two accesses, each label one access.  Memory is not assumed to be
  sequentially consistent: an \<^verbatim>\<open>Acquire\<close> load may return any value not older than the last
  one this thread has seen (\<open>seen_tail\<close>, \<open>seen_head\<close>, and the two seen flags), which is what
  release/acquire coherence allows; reading a cleared liveness flag synchronises with the
  \<^verbatim>\<open>Release\<close> store in the other end's \<^verbatim>\<open>Drop\<close> and so brings its final counter into
  view.  The history fields \<open>sent\<close>, \<open>rejected\<close>, \<open>received\<close> and \<open>closed\<close> record what the calls
  returned: \<^verbatim>\<open>Ok(())\<close>, \<^verbatim>\<open>Err(SendError(v))\<close>, \<^verbatim>\<open>Ok(v)\<close>, \<^verbatim>\<open>Err(RecvError)\<close>.
\<close>

section \<open>The ring buffer\<close>

record 'a ring_buffer =
  slots :: "'a option list"
  cap :: usize
  head :: usize
  tail :: usize
  producer_alive :: bool
  consumer_alive :: bool

definition ring_new :: "usize \<Rightarrow> 'a ring_buffer" where
  "ring_new c = \<lparr> slots = replicate (unat c) None, cap = c, head = 0, tail = 0,
                  producer_alive = True, consumer_alive = True \<rparr>"

definition slot_index :: "'a ring_buffer \<Rightarrow> usize \<Rightarrow> nat" where
  "slot_index rb idx = unat (idx mod cap rb)"

definition ring_write :: "'a ring_buffer \<Rightarrow> usize \<Rightarrow> 'a \<Rightarrow> 'a ring_buffer" where
  "ring_write rb idx v = rb\<lparr>slots := (slots rb)[slot_index rb idx := Some v]\<rparr>"

text \<open>Reading moves the value out: the slot no longer owns one.  The first component is \<open>None\<close>
  when the slot was not initialised, which would be undefined behaviour in the source.\<close>

definition ring_read :: "'a ring_buffer \<Rightarrow> usize \<Rightarrow> 'a option \<times> 'a ring_buffer" where
  "ring_read rb idx =
     (slots rb ! slot_index rb idx, rb\<lparr>slots := (slots rb)[slot_index rb idx := None]\<rparr>)"

section \<open>The two ends\<close>

datatype 'a producer_pc =
    P_Idle
  | P_Loop usize 'a
  | P_Alive usize 'a
  | P_Space usize 'a
  | P_Wrote usize 'a
  | P_Dropped

datatype 'a consumer_pc =
    C_Idle
  | C_Loop usize
  | C_Empty usize
  | C_Dead usize
  | C_Ready usize
  | C_Read usize 'a
  | C_Undefined
  | C_Dropped

record 'a chan =
  buf :: "'a ring_buffer"
  ppc :: "'a producer_pc"
  cpc :: "'a consumer_pc"
  seen_tail :: usize
  seen_consumer_alive :: bool
  seen_head :: usize
  seen_producer_alive :: bool
  sent :: "'a list"
  rejected :: "'a list"
  received :: "'a list"
  closed :: nat

definition channel :: "usize \<Rightarrow> 'a chan" where
  "channel capacity =
     \<lparr> buf = ring_new (if capacity = 0 then 1 else capacity),
       ppc = P_Idle, cpc = C_Idle,
       seen_tail = 0, seen_consumer_alive = True,
       seen_head = 0, seen_producer_alive = True,
       sent = [], rejected = [], received = [], closed = 0 \<rparr>"

text \<open>What an acquire load may return: a counter value between the last seen one and the current
  one (both counters only grow), a flag that was not yet seen cleared or is cleared now.\<close>

definition fresh_counter :: "usize \<Rightarrow> usize \<Rightarrow> usize \<Rightarrow> bool" where
  "fresh_counter seen cur v \<longleftrightarrow> v - seen \<le> cur - seen"

definition fresh_flag :: "bool \<Rightarrow> bool \<Rightarrow> bool \<Rightarrow> bool" where
  "fresh_flag seen cur v \<longleftrightarrow> (if v then seen else \<not> cur)"

datatype 'a label =
    Send 'a
  | Load_Consumer_Alive bool
  | Load_Tail usize
  | Write_Slot
  | Store_Head
  | Drop_Producer
  | Recv
  | Load_Head usize
  | Load_Producer_Alive bool
  | Reload_Head usize
  | Read_Slot
  | Store_Tail
  | Drop_Consumer

fun producer_step :: "'a label \<Rightarrow> 'a chan \<Rightarrow> 'a chan option" where
  "producer_step (Send v) s =
     (case ppc s of P_Idle \<Rightarrow> Some (s\<lparr>ppc := P_Loop (head (buf s)) v\<rparr>) | _ \<Rightarrow> None)"
| "producer_step (Load_Consumer_Alive b) s =
     (case ppc s of
        P_Loop h v \<Rightarrow>
          (if fresh_flag (seen_consumer_alive s) (consumer_alive (buf s)) b
           then Some (if b then s\<lparr>ppc := P_Alive h v\<rparr>
                      else s\<lparr>ppc := P_Idle, seen_consumer_alive := False,
                             seen_tail := tail (buf s), rejected := rejected s @ [v]\<rparr>)
           else None)
      | _ \<Rightarrow> None)"
| "producer_step (Load_Tail t) s =
     (case ppc s of
        P_Alive h v \<Rightarrow>
          (if fresh_counter (seen_tail s) (tail (buf s)) t
           then Some (s\<lparr>seen_tail := t,
                        ppc := (if h - t < cap (buf s) then P_Space h v else P_Loop h v)\<rparr>)
           else None)
      | _ \<Rightarrow> None)"
| "producer_step Write_Slot s =
     (case ppc s of
        P_Space h v \<Rightarrow> Some (s\<lparr>buf := ring_write (buf s) h v, ppc := P_Wrote h v\<rparr>)
      | _ \<Rightarrow> None)"
| "producer_step Store_Head s =
     (case ppc s of
        P_Wrote h v \<Rightarrow> Some (s\<lparr>buf := (buf s)\<lparr>head := h + 1\<rparr>, ppc := P_Idle, sent := sent s @ [v]\<rparr>)
      | _ \<Rightarrow> None)"
| "producer_step Drop_Producer s =
     (case ppc s of
        P_Idle \<Rightarrow> Some (s\<lparr>buf := (buf s)\<lparr>producer_alive := False\<rparr>, ppc := P_Dropped\<rparr>)
      | _ \<Rightarrow> None)"
| "producer_step _ s = None"

fun consumer_step :: "'a label \<Rightarrow> 'a chan \<Rightarrow> 'a chan option" where
  "consumer_step Recv s =
     (case cpc s of C_Idle \<Rightarrow> Some (s\<lparr>cpc := C_Loop (tail (buf s))\<rparr>) | _ \<Rightarrow> None)"
| "consumer_step (Load_Head h) s =
     (case cpc s of
        C_Loop t \<Rightarrow>
          (if fresh_counter (seen_head s) (head (buf s)) h
           then Some (s\<lparr>seen_head := h, cpc := (if h \<noteq> t then C_Ready t else C_Empty t)\<rparr>)
           else None)
      | _ \<Rightarrow> None)"
| "consumer_step (Load_Producer_Alive b) s =
     (case cpc s of
        C_Empty t \<Rightarrow>
          (if fresh_flag (seen_producer_alive s) (producer_alive (buf s)) b
           then Some (if b then s\<lparr>cpc := C_Loop t\<rparr>
                      else s\<lparr>cpc := C_Dead t, seen_producer_alive := False,
                             seen_head := head (buf s)\<rparr>)
           else None)
      | _ \<Rightarrow> None)"
| "consumer_step (Reload_Head h) s =
     (case cpc s of
        C_Dead t \<Rightarrow>
          (if fresh_counter (seen_head s) (head (buf s)) h
           then Some (if h \<noteq> t then s\<lparr>seen_head := h, cpc := C_Ready t\<rparr>
                      else s\<lparr>seen_head := h, cpc := C_Idle, closed := Suc (closed s)\<rparr>)
           else None)
      | _ \<Rightarrow> None)"
| "consumer_step Read_Slot s =
     (case cpc s of
        C_Ready t \<Rightarrow>
          (case ring_read (buf s) t of
             (Some v, rb) \<Rightarrow> Some (s\<lparr>buf := rb, cpc := C_Read t v\<rparr>)
           | (None, rb) \<Rightarrow> Some (s\<lparr>cpc := C_Undefined\<rparr>))
      | _ \<Rightarrow> None)"
| "consumer_step Store_Tail s =
     (case cpc s of
        C_Read t v \<Rightarrow> Some (s\<lparr>buf := (buf s)\<lparr>tail := t + 1\<rparr>, cpc := C_Idle,
                              received := received s @ [v]\<rparr>)
      | _ \<Rightarrow> None)"
| "consumer_step Drop_Consumer s =
     (case cpc s of
        C_Idle \<Rightarrow> Some (s\<lparr>buf := (buf s)\<lparr>consumer_alive := False\<rparr>, cpc := C_Dropped\<rparr>)
      | _ \<Rightarrow> None)"
| "consumer_step _ s = None"

text \<open>Both threads run freely: the scheduler and the values of the loads are the labels.\<close>

inductive chan_step :: "'a chan \<Rightarrow> 'a chan \<Rightarrow> bool" where
  producer: "producer_step l s = Some t \<Longrightarrow> chan_step s t"
| consumer: "consumer_step l s = Some t \<Longrightarrow> chan_step s t"

abbreviation chan_reach :: "usize \<Rightarrow> 'a chan \<Rightarrow> bool" where
  "chan_reach c \<equiv> reach (\<lambda>s. s = channel c) chan_step"

fun run_labels :: "'a label list \<Rightarrow> 'a chan \<Rightarrow> 'a chan option" where
  "run_labels [] s = Some s"
| "run_labels (l # ls) s =
     (case producer_step l s of
        Some t \<Rightarrow> run_labels ls t
      | None \<Rightarrow> (case consumer_step l s of Some t \<Rightarrow> run_labels ls t | None \<Rightarrow> None))"

section \<open>The invariant\<close>

text \<open>\<open>written\<close> and \<open>taken\<close> count a value from the moment its slot changes hands, one access before
  the counter says so.\<close>

definition written :: "'a chan \<Rightarrow> 'a list" where
  "written s = sent s @ (case ppc s of P_Wrote h v \<Rightarrow> [v] | _ \<Rightarrow> [])"

definition taken :: "'a chan \<Rightarrow> 'a list" where
  "taken s = received s @ (case cpc s of C_Read t v \<Rightarrow> [v] | _ \<Rightarrow> [])"

text \<open>Slot \<open>k mod n\<close> owns the value number \<open>k\<close> for exactly the numbers in \<open>[lo, hi)\<close>.\<close>

definition window :: "nat \<Rightarrow> nat \<Rightarrow> 'a list \<Rightarrow> 'a option list \<Rightarrow> bool" where
  "window lo hi ws sl \<longleftrightarrow>
     (\<forall>k. lo \<le> k \<and> k < hi \<longrightarrow> sl ! (k mod length sl) = Some (ws ! k)) \<and>
     (\<forall>j < length sl. sl ! j \<noteq> None \<longrightarrow> (\<exists>k. lo \<le> k \<and> k < hi \<and> j = k mod length sl))"

text \<open>The counters wrap at \<open>2 ^ 64\<close>; the residue of a wrapped counter is that of the count itself
  when the capacity divides \<open>2 ^ 64\<close>, or when nothing has wrapped yet.\<close>

definition wrap_free :: "usize \<Rightarrow> nat \<Rightarrow> bool" where
  "wrap_free c n \<longleftrightarrow> unat c dvd 2 ^ 64 \<or> n < 2 ^ 64"

lemma index_of_nat:
  "wrap_free c n \<Longrightarrow> unat ((of_nat n :: usize) mod c) = n mod unat c"
  by (auto simp: wrap_free_def unat_mod_distrib unat_of_nat take_bit_nat_def mod_mod_cancel)

lemma wrap_free_mono: "wrap_free c n \<Longrightarrow> m \<le> n \<Longrightarrow> wrap_free c m"
  by (auto simp: wrap_free_def)

lemma window_empty: "window 0 0 [] (replicate n None)"
  by (auto simp: window_def)

lemma window_free_slot:
  assumes "window lo hi ws sl" "hi < lo + length sl" "lo \<le> hi"
  shows "sl ! (hi mod length sl) = None"
proof (rule ccontr)
  assume "sl ! (hi mod length sl) \<noteq> None"
  moreover have "hi mod length sl < length sl" using assms(2,3) by (intro mod_less_divisor) linarith
  ultimately obtain k where k: "lo \<le> k" "k < hi" "hi mod length sl = k mod length sl"
    using assms(1) unfolding window_def by blast
  have "hi = k" by (rule mod_window_inj [OF k(3), of lo]) (use k assms in auto)
  with k(2) show False by simp
qed

lemma window_push:
  assumes w: "window lo hi ws sl" and room: "hi < lo + length sl" "lo \<le> hi" and hi: "hi = length ws"
  shows "window lo (Suc hi) (ws @ [v]) (sl[hi mod length sl := Some v])"
proof -
  let ?n = "length sl"
  have pos: "hi mod ?n < ?n" using room by (intro mod_less_divisor) linarith
  have "sl[hi mod ?n := Some v] ! (k mod ?n) = Some ((ws @ [v]) ! k)"
    if "lo \<le> k" "k < Suc hi" for k
  proof (cases "k = hi")
    case True then show ?thesis using pos hi by simp
  next
    case False
    with that have "k < hi" by simp
    moreover have "k mod ?n \<noteq> hi mod ?n"
      using mod_window_inj [of k ?n hi lo] that False room by auto
    ultimately show ?thesis using w that(1) hi
      by (simp add: window_def nth_append)
  qed
  moreover have "\<exists>k. lo \<le> k \<and> k < Suc hi \<and> j = k mod ?n"
    if "j < ?n" "sl[hi mod ?n := Some v] ! j \<noteq> None" for j
  proof (cases "j = hi mod ?n")
    case True then show ?thesis using room(2) by auto
  next
    case False
    with that w show ?thesis unfolding window_def by (force simp: less_Suc_eq)
  qed
  ultimately show ?thesis unfolding window_def by simp
qed

lemma window_pop:
  assumes w: "window lo hi ws sl" and lt: "lo < hi" "hi \<le> lo + length sl"
  shows "window (Suc lo) hi ws (sl[lo mod length sl := None])"
    and "sl ! (lo mod length sl) = Some (ws ! lo)"
proof -
  let ?n = "length sl"
  show "sl ! (lo mod ?n) = Some (ws ! lo)" using w lt(1) by (simp add: window_def)
  have "sl[lo mod ?n := None] ! (k mod ?n) = Some (ws ! k)" if "Suc lo \<le> k" "k < hi" for k
  proof -
    have "k mod ?n \<noteq> lo mod ?n"
    proof
      assume "k mod ?n = lo mod ?n"
      then have "k = lo" by (rule mod_window_inj [of _ _ _ lo]) (use that lt in auto)
      with that(1) show False by simp
    qed
    then show ?thesis using w that by (simp add: window_def)
  qed
  moreover have "\<exists>k. Suc lo \<le> k \<and> k < hi \<and> j = k mod ?n"
    if "j < ?n" "sl[lo mod ?n := None] ! j \<noteq> None" for j
  proof -
    from that have ne: "j \<noteq> lo mod ?n" by (cases "j = lo mod ?n") auto
    with that have "sl ! j \<noteq> None" by simp
    with w that(1) obtain k where k: "lo \<le> k" "k < hi" "j = k mod ?n"
      unfolding window_def by blast
    with ne have "k \<noteq> lo" by auto
    with k show ?thesis by (intro exI [of _ k]) auto
  qed
  ultimately show "window (Suc lo) hi ws (sl[lo mod ?n := None])" unfolding window_def by simp
qed

text \<open>What holds at each program counter: the copy of the own counter a thread works with is the
  current one, and the counter of the other end it has seen (\<open>m\<close>) lies in the past.  \<open>S\<close> and \<open>R\<close>
  count completed sends and receives, \<open>T\<close> the values taken out of their slots, \<open>c\<close> is the capacity.\<close>

fun producer_pc_ok :: "nat \<Rightarrow> nat \<Rightarrow> nat \<Rightarrow> usize \<Rightarrow> 'a producer_pc \<Rightarrow> bool" where
  "producer_pc_ok m S c hp (P_Space h v) \<longleftrightarrow> h = hp \<and> S < m + c"
| "producer_pc_ok m S c hp (P_Wrote h v) \<longleftrightarrow> h = hp \<and> S < m + c"
| "producer_pc_ok m S c hp (P_Loop h v) \<longleftrightarrow> h = hp \<and> S \<le> m + c"
| "producer_pc_ok m S c hp (P_Alive h v) \<longleftrightarrow> h = hp \<and> S \<le> m + c"
| "producer_pc_ok m S c hp P_Idle \<longleftrightarrow> S \<le> m + c"
| "producer_pc_ok m S c hp P_Dropped \<longleftrightarrow> S \<le> m + c"

fun consumer_pc_ok :: "nat \<Rightarrow> nat \<Rightarrow> nat \<Rightarrow> usize \<Rightarrow> bool \<Rightarrow> 'a consumer_pc \<Rightarrow> bool" where
  "consumer_pc_ok m R S tp alive (C_Ready t) \<longleftrightarrow> t = tp \<and> R < m"
| "consumer_pc_ok m R S tp alive (C_Dead t) \<longleftrightarrow> t = tp \<and> m = S \<and> \<not> alive"
| "consumer_pc_ok m R S tp alive (C_Loop t) \<longleftrightarrow> t = tp"
| "consumer_pc_ok m R S tp alive (C_Empty t) \<longleftrightarrow> t = tp"
| "consumer_pc_ok m R S tp alive (C_Read t v) \<longleftrightarrow> t = tp"
| "consumer_pc_ok m R S tp alive C_Undefined \<longleftrightarrow> False"
| "consumer_pc_ok m R S tp alive C_Idle \<longleftrightarrow> True"
| "consumer_pc_ok m R S tp alive C_Dropped \<longleftrightarrow> True"

definition producer_view :: "usize \<Rightarrow> nat \<Rightarrow> nat \<Rightarrow> nat \<Rightarrow> usize \<Rightarrow> 'a producer_pc \<Rightarrow> bool" where
  "producer_view seen R S c hp pc \<longleftrightarrow> (\<exists>m. seen = of_nat m \<and> m \<le> R \<and> producer_pc_ok m S c hp pc)"

definition consumer_view ::
    "usize \<Rightarrow> nat \<Rightarrow> nat \<Rightarrow> nat \<Rightarrow> usize \<Rightarrow> bool \<Rightarrow> 'a consumer_pc \<Rightarrow> bool" where
  "consumer_view seen T R S tp alive pc \<longleftrightarrow>
     (\<exists>m. seen = of_nat m \<and> T \<le> m \<and> m \<le> S \<and> consumer_pc_ok m R S tp alive pc)"

definition producer_ok :: "'a chan \<Rightarrow> bool" where
  "producer_ok s \<longleftrightarrow>
     producer_view (seen_tail s) (length (received s)) (length (sent s)) (unat (cap (buf s)))
       (head (buf s)) (ppc s) \<and>
     (producer_alive (buf s) \<longleftrightarrow> ppc s \<noteq> P_Dropped) \<and>
     (\<not> seen_consumer_alive s \<longrightarrow> \<not> consumer_alive (buf s)) \<and>
     (rejected s \<noteq> [] \<longrightarrow> \<not> consumer_alive (buf s))"

definition consumer_ok :: "'a chan \<Rightarrow> bool" where
  "consumer_ok s \<longleftrightarrow>
     consumer_view (seen_head s) (length (taken s)) (length (received s)) (length (sent s))
       (tail (buf s)) (producer_alive (buf s)) (cpc s) \<and>
     (consumer_alive (buf s) \<longleftrightarrow> cpc s \<noteq> C_Dropped) \<and>
     (\<not> seen_producer_alive s \<longrightarrow> \<not> producer_alive (buf s)) \<and>
     (0 < closed s \<longrightarrow> \<not> producer_alive (buf s) \<and> length (received s) = length (sent s))"

definition ring_ok :: "'a chan \<Rightarrow> bool" where
  "ring_ok s \<longleftrightarrow>
     cap (buf s) \<noteq> 0 \<and> length (slots (buf s)) = unat (cap (buf s)) \<and>
     head (buf s) = of_nat (length (sent s)) \<and> tail (buf s) = of_nat (length (received s)) \<and>
     length (taken s) \<le> length (sent s) \<and>
     take (length (taken s)) (written s) = taken s \<and>
     window (length (taken s)) (length (written s)) (written s) (slots (buf s))"

definition chan_core :: "'a chan \<Rightarrow> bool" where
  "chan_core s \<longleftrightarrow> ring_ok s \<and> producer_ok s \<and> consumer_ok s"

definition chan_inv :: "'a chan \<Rightarrow> bool" where
  "chan_inv s \<longleftrightarrow> (wrap_free (cap (buf s)) (length (written s)) \<longrightarrow> chan_core s)"

lemmas core_defs = chan_core_def ring_ok_def producer_ok_def consumer_ok_def

lemma unat_diff_near:
  assumes "m \<le> n" "n - m < 2 ^ 64"
  shows "unat ((of_nat n :: usize) - of_nat m) = n - m"
  unfolding of_nat_diff_word [OF assms(1)]
  by (rule unat_of_nat_small) (use assms(2) in simp)

lemma fresh_counter_of_nat:
  assumes "fresh_counter (of_nat m) (of_nat n) v" "m \<le> n" "n - m < 2 ^ 64"
  obtains k where "m \<le> k" "k \<le> n" "v = of_nat k"
proof -
  let ?d = "unat (v - of_nat m)"
  have "?d \<le> unat ((of_nat n :: usize) - of_nat m)"
    using assms(1) unfolding fresh_counter_def word_le_nat_alt .
  then have "?d \<le> n - m" unfolding unat_diff_near [OF assms(2,3)] .
  moreover have "v = of_nat (m + ?d)" by simp
  ultimately show thesis using assms(2) that [of "m + ?d"] by linarith
qed

lemma of_nat_eq_near:
  assumes "m \<le> n" "n - m < 2 ^ 64"
  shows "(of_nat m :: usize) = of_nat n \<longleftrightarrow> m = n"
proof
  assume "(of_nat m :: usize) = of_nat n"
  then have "unat ((of_nat n :: usize) - of_nat m) = 0" by (metis eq_iff_diff_eq_0 unat_0)
  then show "m = n" unfolding unat_diff_near [OF assms] using assms(1) by linarith
qed simp

lemma of_nat_diff_less:
  assumes "m \<le> n" "n - m < 2 ^ 64"
  shows "(of_nat n :: usize) - of_nat m < c \<longleftrightarrow> n < m + unat c"
  unfolding word_less_nat_alt unat_diff_near [OF assms] using assms(1) by linarith

text \<open>Moving one thread leaves the other's view intact.\<close>

lemma producer_view_simps [simp]:
  "producer_view seen R S c hp (P_Wrote h (v :: 'a)) \<longleftrightarrow> producer_view seen R S c hp (P_Space h (v :: 'a))"
  "producer_view seen R S c hp (P_Alive h (v :: 'a)) \<longleftrightarrow> h = hp \<and> producer_view seen R S c hp (P_Idle :: 'a producer_pc)"
  "producer_view seen R S c hp (P_Loop h (v :: 'a)) \<longleftrightarrow> h = hp \<and> producer_view seen R S c hp (P_Idle :: 'a producer_pc)"
  "producer_view seen R S c hp (P_Dropped :: 'a producer_pc) \<longleftrightarrow> producer_view seen R S c hp (P_Idle :: 'a producer_pc)"
  by (auto simp: producer_view_def)

lemma producer_view_mono:
  "producer_view seen R S c hp pc \<Longrightarrow> R \<le> R' \<Longrightarrow> producer_view seen R' S c hp pc"
  by (auto simp: producer_view_def)

lemma producer_viewI:
  "m \<le> R \<Longrightarrow> producer_pc_ok m S c hp pc \<Longrightarrow> producer_view (of_nat m) R S c hp pc"
  by (auto simp: producer_view_def)

lemma consumer_viewI:
  "T \<le> m \<Longrightarrow> m \<le> S \<Longrightarrow> consumer_pc_ok m R S tp alive pc \<Longrightarrow>
     consumer_view (of_nat m) T R S tp alive pc"
  by (auto simp: consumer_view_def)

lemma consumer_view_pc:
  assumes "consumer_view seen T R S tp alive pc"
    and "\<And>m. T \<le> m \<Longrightarrow> consumer_pc_ok m R S tp alive pc \<Longrightarrow> consumer_pc_ok m R' S tp' alive pc' \<and> T' \<le> m"
  shows "consumer_view seen T' R' S tp' alive pc'"
  using assms by (fastforce simp: consumer_view_def)

lemma consumer_view_Suc:
  assumes "consumer_view seen T R S tp True pc"
  shows "consumer_view seen T R (Suc S) tp True pc"
  using assms unfolding consumer_view_def by (cases pc) fastforce+

lemma consumer_view_drop:
  assumes "consumer_view seen T R S tp True pc"
  shows "consumer_view seen T R S tp False pc"
  using assms unfolding consumer_view_def by (cases pc) fastforce+

lemma producer_pc_ok_le: "producer_pc_ok m S c hp pc \<Longrightarrow> S \<le> m + c"
  by (cases pc) auto

lemma core_views:
  assumes "chan_core s"
  obtains m k where "seen_tail s = of_nat m" "m \<le> length (received s)"
      "producer_pc_ok m (length (sent s)) (unat (cap (buf s))) (head (buf s)) (ppc s)"
      "length (sent s) \<le> m + unat (cap (buf s))" "length (sent s) - m < 2 ^ 64"
    and "seen_head s = of_nat k" "length (taken s) \<le> k" "k \<le> length (sent s)"
      "consumer_pc_ok k (length (received s)) (length (sent s)) (tail (buf s)) (producer_alive (buf s)) (cpc s)"
proof -
  from assms have pv: "producer_view (seen_tail s) (length (received s)) (length (sent s))
        (unat (cap (buf s))) (head (buf s)) (ppc s)"
    and cv: "consumer_view (seen_head s) (length (taken s)) (length (received s)) (length (sent s))
        (tail (buf s)) (producer_alive (buf s)) (cpc s)"
    unfolding core_defs by blast+
  from pv obtain m where
    m: "seen_tail s = of_nat m" "m \<le> length (received s)"
      "producer_pc_ok m (length (sent s)) (unat (cap (buf s))) (head (buf s)) (ppc s)"
    unfolding producer_view_def by blast
  from cv obtain k where
    k: "seen_head s = of_nat k" "length (taken s) \<le> k" "k \<le> length (sent s)"
      "consumer_pc_ok k (length (received s)) (length (sent s)) (tail (buf s)) (producer_alive (buf s)) (cpc s)"
    unfolding consumer_view_def by blast
  from m(3) have b: "length (sent s) \<le> m + unat (cap (buf s))" by (rule producer_pc_ok_le)
  moreover have "unat (cap (buf s)) < 2 ^ 64" by (rule unat_lt_64)
  ultimately have "length (sent s) - m < 2 ^ 64" by linarith
  from that [OF m(1,2,3) b this k] show thesis .
qed

lemma core_bounds:
  assumes "chan_core s"
  shows "length (sent s) \<le> length (received s) + unat (cap (buf s))"
    and "length (received s) \<le> length (taken s)" and "length (taken s) \<le> length (sent s)"
    and "length (sent s) \<le> length (written s)"
    and "length (written s) \<le> length (received s) + unat (cap (buf s))"
    and "length (sent s) - length (received s) < 2 ^ 64"
proof -
  obtain m k where m: "m \<le> length (received s)" "length (sent s) \<le> m + unat (cap (buf s))"
      "producer_pc_ok m (length (sent s)) (unat (cap (buf s))) (head (buf s)) (ppc s)"
      "length (sent s) - m < 2 ^ 64"
    using assms by (rule core_views)
  then show "length (sent s) \<le> length (received s) + unat (cap (buf s))"
    and "length (sent s) - length (received s) < 2 ^ 64" by linarith+
  show "length (received s) \<le> length (taken s)" by (simp add: taken_def)
  show "length (taken s) \<le> length (sent s)" using assms by (simp add: core_defs)
  show "length (sent s) \<le> length (written s)" by (simp add: written_def)
  show "length (written s) \<le> length (received s) + unat (cap (buf s))"
    using m by (cases "ppc s") (auto simp: written_def)
qed

lemma core_channel: "chan_core (channel c)"
proof -
  have "(if c = 0 then 1 else c) \<noteq> 0" by simp
  then show ?thesis
    by (auto simp: core_defs channel_def ring_new_def written_def taken_def window_empty
        producer_view_def consumer_view_def)
qed

lemma core_Send:
  fixes s :: "'a chan"
  assumes "chan_core s" and "producer_step (Send v) s = Some t"
  shows "chan_core t"
proof -
  from assms(2) have pc: "ppc s = P_Idle" and t: "t = s\<lparr>ppc := P_Loop (head (buf s)) v\<rparr>"
    by (auto split: producer_pc.splits)
  from assms(1) pc have "producer_view (seen_tail s) (length (received s)) (length (sent s))
      (unat (cap (buf s))) (head (buf s)) (P_Loop (head (buf s)) v)"
    by (auto simp: core_defs producer_view_def)
  with assms(1) pc t show ?thesis by (auto simp: core_defs written_def taken_def)
qed

lemma core_Load_Consumer_Alive:
  fixes s :: "'a chan"
  assumes "chan_core s" and "producer_step (Load_Consumer_Alive b) s = Some t"
  shows "chan_core t"
proof -
  from assms(2) obtain h v where pc: "ppc s = P_Loop h v"
      and fr: "fresh_flag (seen_consumer_alive s) (consumer_alive (buf s)) b"
      and t: "t = (if b then s\<lparr>ppc := P_Alive h v\<rparr>
                   else s\<lparr>ppc := P_Idle, seen_consumer_alive := False,
                          seen_tail := tail (buf s), rejected := rejected s @ [v]\<rparr>)"
    by (auto split: producer_pc.splits if_splits)
  note b = core_bounds(1) [OF assms(1)]
  have tp: "tail (buf s) = of_nat (length (received s))" using assms(1) by (simp add: core_defs)
  have v: "producer_view (tail (buf s)) (length (received s)) (length (sent s)) (unat (cap (buf s)))
       (head (buf s)) (P_Idle :: 'a producer_pc)"
    unfolding tp by (rule producer_viewI) (use b in auto)
  show ?thesis
  proof (cases b)
    case True
    with assms(1) pc t show ?thesis
      by (auto simp: core_defs written_def taken_def)
  next
    case False
    with fr have "\<not> consumer_alive (buf s)" by (simp add: fresh_flag_def)
    with False assms(1) pc t v show ?thesis by (auto simp: core_defs written_def taken_def)
  qed
qed

lemma core_Load_Tail:
  fixes s :: "'a chan"
  assumes "chan_core s" and "producer_step (Load_Tail u) s = Some t"
  shows "chan_core t"
proof -
  from assms(2) obtain h v where pc: "ppc s = P_Alive h v"
      and fr: "fresh_counter (seen_tail s) (tail (buf s)) u"
      and t: "t = s\<lparr>seen_tail := u, ppc := (if h - u < cap (buf s) then P_Space h v else P_Loop h v)\<rparr>"
    by (auto split: producer_pc.splits if_splits)
  obtain m where
      m: "seen_tail s = of_nat m" "m \<le> length (received s)" "length (sent s) \<le> m + unat (cap (buf s))"
         "length (sent s) - m < 2 ^ 64" using assms(1) by (rule core_views)
  have le: "length (received s) \<le> length (sent s)"
    using core_bounds(2,3) [OF assms(1)] by linarith
  have eqs: "tail (buf s) = of_nat (length (received s))" "head (buf s) = of_nat (length (sent s))"
    and h: "h = head (buf s)"
    using assms(1) pc by (auto simp: core_defs producer_view_def)
  from fr [unfolded m(1) eqs(1)] m(2) obtain k where k: "m \<le> k" "k \<le> length (received s)" "u = of_nat k"
    by (rule fresh_counter_of_nat) (use m le in linarith)
  have "h - u < cap (buf s) \<longleftrightarrow> length (sent s) < k + unat (cap (buf s))"
    unfolding h eqs(2) k(3) by (rule of_nat_diff_less) (use k m le in linarith)+
  then have "producer_view u (length (received s)) (length (sent s)) (unat (cap (buf s)))
       (head (buf s)) (ppc t)"
    unfolding k(3) t using k m h by (intro producer_viewI) auto
  moreover have "written t = written s" "taken t = taken s"
    using pc t by (simp_all add: written_def taken_def)
  moreover have "ppc t \<noteq> P_Dropped" using t by simp
  ultimately show ?thesis using assms(1) pc unfolding t by (auto simp: core_defs)
qed

lemma core_Write_Slot:
  fixes s :: "'a chan"
  assumes "chan_core s" and "producer_step Write_Slot s = Some t"
    and "wrap_free (cap (buf s)) (length (sent s))"
  shows "chan_core t"
proof -
  from assms(2) obtain h v where pc: "ppc s = P_Space h v"
      and t: "t = s\<lparr>buf := ring_write (buf s) h v, ppc := P_Wrote h v\<rparr>"
    by (auto split: producer_pc.splits)
  have ws: "written s = sent s" "written t = sent s @ [v]" "taken t = taken s"
    using pc t by (simp_all add: written_def taken_def)
  have cap: "length (slots (buf s)) = unat (cap (buf s))"
    and h: "h = of_nat (length (sent s))"
    and room: "length (sent s) < length (received s) + unat (cap (buf s))"
    using assms(1) pc by (auto simp: core_defs producer_view_def)
  have idx: "slot_index (buf s) h = length (sent s) mod length (slots (buf s))"
    unfolding slot_index_def h cap by (rule index_of_nat [OF assms(3)])
  have "window (length (taken s)) (Suc (length (sent s))) (sent s @ [v])
          ((slots (buf s))[length (sent s) mod length (slots (buf s)) := Some v])"
  proof (rule window_push)
    show "window (length (taken s)) (length (sent s)) (sent s) (slots (buf s))"
      using assms(1) ws by (simp add: core_defs)
  qed (use room core_bounds [OF assms(1)] cap in auto)
  moreover have "take (length (taken s)) (sent s @ [v]) = taken s"
    using assms(1) ws core_bounds(3) [OF assms(1)] by (simp add: core_defs)
  moreover have "producer_view (seen_tail s) (length (received s)) (length (sent s))
      (unat (cap (buf s))) (head (buf s)) (P_Wrote h v)"
    using assms(1) pc by (auto simp: core_defs)
  ultimately show ?thesis
    using assms(1) pc ws unfolding t
    by (auto simp: core_defs ring_write_def idx)
qed

lemma core_Store_Head:
  fixes s :: "'a chan"
  assumes "chan_core s" and "producer_step Store_Head s = Some t"
  shows "chan_core t"
proof -
  from assms(2) obtain h v where pc: "ppc s = P_Wrote h v"
      and t: "t = s\<lparr>buf := (buf s)\<lparr>head := h + 1\<rparr>, ppc := P_Idle, sent := sent s @ [v]\<rparr>"
    by (auto split: producer_pc.splits)
  have ws: "written t = written s" "taken t = taken s" "written s = sent s @ [v]"
    using pc t by (simp_all add: written_def taken_def)
  have alive: "producer_alive (buf s)" and h: "h = of_nat (length (sent s))"
    using assms(1) pc by (auto simp: core_defs producer_view_def)
  have "producer_view (seen_tail s) (length (received s)) (Suc (length (sent s)))
      (unat (cap (buf s))) (h + 1) (P_Idle :: 'a producer_pc)"
    using assms(1) pc by (auto simp: core_defs producer_view_def)
  moreover have "consumer_view (seen_head s) (length (taken s)) (length (received s))
      (Suc (length (sent s))) (tail (buf s)) True (cpc s)"
    using assms(1) alive by (intro consumer_view_Suc) (auto simp: core_defs)
  ultimately show ?thesis using assms(1) pc ws alive h unfolding t
    by (auto simp: core_defs)
qed

lemma core_Drop_Producer:
  fixes s :: "'a chan"
  assumes "chan_core s" and "producer_step Drop_Producer s = Some t"
  shows "chan_core t"
proof -
  from assms(2) have pc: "ppc s = P_Idle"
      and t: "t = s\<lparr>buf := (buf s)\<lparr>producer_alive := False\<rparr>, ppc := P_Dropped\<rparr>"
    by (auto split: producer_pc.splits)
  have ws: "written t = written s" "taken t = taken s"
    using pc t by (simp_all add: written_def taken_def)
  have "consumer_view (seen_head s) (length (taken s)) (length (received s))
      (length (sent s)) (tail (buf s)) False (cpc s)"
    using assms(1) pc by (intro consumer_view_drop) (auto simp: core_defs)
  moreover have "producer_view (seen_tail s) (length (received s)) (length (sent s))
      (unat (cap (buf s))) (head (buf s)) (P_Dropped :: 'a producer_pc)"
    using assms(1) pc by (auto simp: core_defs)
  ultimately show ?thesis using assms(1) pc ws unfolding t by (auto simp: core_defs)
qed

lemma consumer_view_simps [simp]:
  "consumer_view seen T R S tp alive (C_Empty t :: 'a consumer_pc) \<longleftrightarrow> t = tp \<and> consumer_view seen T R S tp alive (C_Idle :: 'a consumer_pc)"
  "consumer_view seen T R S tp alive (C_Loop t :: 'a consumer_pc) \<longleftrightarrow> t = tp \<and> consumer_view seen T R S tp alive (C_Idle :: 'a consumer_pc)"
  "consumer_view seen T R S tp alive (C_Read t (v :: 'a)) \<longleftrightarrow> t = tp \<and> consumer_view seen T R S tp alive (C_Idle :: 'a consumer_pc)"
  "consumer_view seen T R S tp alive (C_Dropped :: 'a consumer_pc) \<longleftrightarrow> consumer_view seen T R S tp alive (C_Idle :: 'a consumer_pc)"
  "\<not> consumer_view seen T R S tp alive C_Undefined"
  by (auto simp: consumer_view_def)

lemma core_Recv:
  fixes s :: "'a chan"
  assumes "chan_core s" and "consumer_step Recv s = Some t"
  shows "chan_core t"
proof -
  from assms(2) have pc: "cpc s = C_Idle" and t: "t = s\<lparr>cpc := C_Loop (tail (buf s))\<rparr>"
    by (auto split: consumer_pc.splits)
  have tk: "taken t = taken s" "written t = written s"
    using pc t by (simp_all add: taken_def written_def)
  from assms(1) pc show ?thesis unfolding core_defs tk by (elim conjE) (simp add: t)
qed

lemma core_Load_Head:
  fixes s :: "'a chan"
  assumes "chan_core s" and "consumer_step (Load_Head h) s = Some t"
  shows "chan_core t"
proof -
  from assms(2) obtain u where pc: "cpc s = C_Loop u"
      and fr: "fresh_counter (seen_head s) (head (buf s)) h"
      and t: "t = s\<lparr>seen_head := h, cpc := (if h \<noteq> u then C_Ready u else C_Empty u)\<rparr>"
    by (auto split: consumer_pc.splits if_splits)
  have tk: "taken s = received s" "taken t = received t" "written t = written s"
    using pc t by (simp_all add: taken_def written_def)
  note b = core_bounds [OF assms(1)]
  obtain m where m: "seen_head s = of_nat m" "length (taken s) \<le> m" "m \<le> length (sent s)"
    using assms(1) by (rule core_views)
  have eqs: "head (buf s) = of_nat (length (sent s))" "tail (buf s) = of_nat (length (received s))"
    and u: "u = tail (buf s)"
    using assms(1) pc by (auto simp: core_defs)
  from fr [unfolded m(1) eqs(1)] m(3) obtain k where k: "m \<le> k" "k \<le> length (sent s)" "h = of_nat k"
    by (rule fresh_counter_of_nat) (use m b tk in linarith)
  have le: "length (received s) \<le> k" using m k tk by simp
  have "u = h \<longleftrightarrow> length (received s) = k"
    unfolding u eqs(2) k(3) by (rule of_nat_eq_near [OF le]) (use k b in linarith)
  then have "consumer_view h (length (received s)) (length (received s)) (length (sent s))
       (tail (buf s)) (producer_alive (buf s)) (cpc t)"
    unfolding k(3) t using le k u by (intro consumer_viewI) auto
  moreover have "cpc t \<noteq> C_Dropped" using t by simp
  ultimately show ?thesis using assms(1) pc tk unfolding t by (auto simp: core_defs)
qed

lemma core_Load_Producer_Alive:
  fixes s :: "'a chan"
  assumes "chan_core s" and "consumer_step (Load_Producer_Alive b) s = Some t"
  shows "chan_core t"
proof -
  from assms(2) obtain u where pc: "cpc s = C_Empty u"
      and fr: "fresh_flag (seen_producer_alive s) (producer_alive (buf s)) b"
      and t: "t = (if b then s\<lparr>cpc := C_Loop u\<rparr>
                   else s\<lparr>cpc := C_Dead u, seen_producer_alive := False,
                          seen_head := head (buf s)\<rparr>)"
    by (auto split: consumer_pc.splits if_splits)
  have tk: "taken s = received s" "taken t = received t" "written t = written s"
    using pc t by (simp_all add: taken_def written_def)
  have hd: "head (buf s) = of_nat (length (sent s))" and u: "u = tail (buf s)"
    using assms(1) pc by (auto simp: core_defs)
  note le = core_bounds(2,3) [OF assms(1)]
  show ?thesis
  proof (cases b)
    case True
    with assms(1) pc t tk show ?thesis by (auto simp: core_defs)
  next
    case False
    with fr have dead: "\<not> producer_alive (buf s)" by (simp add: fresh_flag_def)
    have "consumer_view (head (buf s)) (length (received s)) (length (received s)) (length (sent s))
       (tail (buf s)) False (C_Dead u :: 'a consumer_pc)"
      unfolding hd by (rule consumer_viewI) (use le u in auto)
    with False dead assms(1) pc t tk show ?thesis by (auto simp: core_defs)
  qed
qed

lemma core_Reload_Head:
  fixes s :: "'a chan"
  assumes "chan_core s" and "consumer_step (Reload_Head h) s = Some t"
  shows "chan_core t"
proof -
  from assms(2) obtain u where pc: "cpc s = C_Dead u"
      and fr: "fresh_counter (seen_head s) (head (buf s)) h"
      and t: "t = (if h \<noteq> u then s\<lparr>seen_head := h, cpc := C_Ready u\<rparr>
                   else s\<lparr>seen_head := h, cpc := C_Idle, closed := Suc (closed s)\<rparr>)"
    by (auto split: consumer_pc.splits if_splits)
  have tk: "taken s = received s" "taken t = received t" "written t = written s"
    using pc t by (simp_all add: taken_def written_def)
  note b = core_bounds [OF assms(1)]
  have eqs: "head (buf s) = of_nat (length (sent s))" "tail (buf s) = of_nat (length (received s))"
      "seen_head s = head (buf s)" and u: "u = tail (buf s)" and dead: "\<not> producer_alive (buf s)"
    using assms(1) pc by (auto simp: core_defs consumer_view_def)
  from fr have h: "h = of_nat (length (sent s))"
    unfolding fresh_counter_def eqs(3) by (simp add: eqs(1))
  have le: "length (received s) \<le> length (sent s)" using b(2,3) by linarith
  have iff: "u = h \<longleftrightarrow> length (received s) = length (sent s)"
    unfolding u eqs(2) h by (rule of_nat_eq_near [OF le b(6)])
  have view: "consumer_view h (length (received s)) (length (received s)) (length (sent s))
       (tail (buf s)) False (cpc t)"
    unfolding h t using le iff u h by (intro consumer_viewI) auto
  have nd: "cpc t \<noteq> C_Dropped" and dn: "ppc s = P_Dropped" "consumer_alive (buf s)"
    using assms(1) pc t dead by (auto simp: core_defs)
  show ?thesis
  proof (cases "h = u")
    case True
    with iff have "length (received s) = length (sent s)" by simp
    with True view dead dn assms(1) tk pc show ?thesis unfolding t by (auto simp: core_defs)
  next
    case False
    with view dead dn assms(1) tk pc show ?thesis unfolding t by (auto simp: core_defs)
  qed
qed

lemma core_Read_Slot:
  fixes s :: "'a chan"
  assumes "chan_core s" and "consumer_step Read_Slot s = Some t"
    and "wrap_free (cap (buf s)) (length (received s))"
  shows "chan_core t"
proof -
  from assms(2) obtain u where pc: "cpc s = C_Ready u"
    by (auto split: consumer_pc.splits)
  let ?n = "length (slots (buf s))" and ?r = "length (received s)" and ?w = "length (written s)"
  note b = core_bounds [OF assms(1)]
  obtain m where m: "seen_head s = of_nat m" "m \<le> length (sent s)" "?r < m" "u = tail (buf s)"
    using assms(1) pc by (auto simp: core_defs consumer_view_def)
  have tk: "taken s = received s" using pc by (simp add: taken_def)
  have cap: "?n = unat (cap (buf s))" and tp: "tail (buf s) = of_nat ?r"
    and win: "window ?r ?w (written s) (slots (buf s))" and pre: "take ?r (written s) = received s"
    using assms(1) tk by (auto simp: core_defs)
  have idx: "slot_index (buf s) u = ?r mod ?n"
    unfolding slot_index_def m(4) tp cap by (rule index_of_nat [OF assms(3)])
  have lt: "?r < ?w" using m b(4) by linarith
  note pop = window_pop [OF win lt b(5) [folded cap]]
  have t: "t = s\<lparr>buf := (buf s)\<lparr>slots := (slots (buf s))[?r mod ?n := None]\<rparr>,
              cpc := C_Read u (written s ! ?r)\<rparr>"
    using assms(2) pc pop(2) by (simp add: ring_read_def idx)
  have tk': "taken t = received s @ [written s ! ?r]" "written t = written s"
    unfolding t by (simp_all add: taken_def written_def)
  have len: "length (taken t) = Suc ?r" using tk'(1) by simp
  have pre': "take (Suc ?r) (written s) = taken t"
    unfolding tk'(1) using pre lt by (simp add: take_Suc_conv_app_nth)
  have flds: "buf t = (buf s)\<lparr>slots := (slots (buf s))[?r mod ?n := None]\<rparr>" "ppc t = ppc s"
      "cpc t = C_Read u (written s ! ?r)" "sent t = sent s" "received t = received s"
      "seen_tail t = seen_tail s" "seen_head t = seen_head s" "closed t = closed s"
      "seen_consumer_alive t = seen_consumer_alive s"
      "seen_producer_alive t = seen_producer_alive s" "rejected t = rejected s"
    unfolding t by simp_all
  have "consumer_view (seen_head s) (Suc ?r) ?r (length (sent s)) (tail (buf s))
      (producer_alive (buf s)) (C_Read u (written s ! ?r))"
    unfolding m(1) by (rule consumer_viewI) (use m in auto)
  moreover have "Suc ?r \<le> length (sent s)" using m by simp
  ultimately show ?thesis using assms(1) pc pop(1) pre'
    unfolding core_defs flds len tk'(2) by (elim conjE) simp
qed

lemma core_Store_Tail:
  fixes s :: "'a chan"
  assumes "chan_core s" and "consumer_step Store_Tail s = Some t"
  shows "chan_core t"
proof -
  from assms(2) obtain u v where pc: "cpc s = C_Read u v"
      and t: "t = s\<lparr>buf := (buf s)\<lparr>tail := u + 1\<rparr>, cpc := C_Idle, received := received s @ [v]\<rparr>"
    by (auto split: consumer_pc.splits)
  have tk: "taken t = taken s" "written t = written s" "taken s = received s @ [v]"
    using pc t by (simp_all add: taken_def written_def)
  have flds: "buf t = (buf s)\<lparr>tail := u + 1\<rparr>" "ppc t = ppc s" "cpc t = C_Idle" "sent t = sent s"
      "length (received t) = Suc (length (received s))"
      "seen_tail t = seen_tail s" "seen_head t = seen_head s" "closed t = closed s"
      "seen_consumer_alive t = seen_consumer_alive s"
      "seen_producer_alive t = seen_producer_alive s" "rejected t = rejected s"
    unfolding t by simp_all
  have len: "length (taken s) = Suc (length (received s))" using tk(3) by simp
  have u: "u = of_nat (length (received s))" and "consumer_alive (buf s)"
    using assms(1) pc by (auto simp: core_defs)
  moreover have "consumer_view (seen_head s) (length (taken s)) (Suc (length (received s)))
      (length (sent s)) (u + 1) (producer_alive (buf s)) (C_Idle :: 'a consumer_pc)"
    using assms(1) pc by (auto simp: core_defs consumer_view_def)
  moreover have "producer_view (seen_tail s) (Suc (length (received s))) (length (sent s))
      (unat (cap (buf s))) (head (buf s)) (ppc s)"
    by (rule producer_view_mono) (use assms(1) in \<open>auto simp: core_defs\<close>)
  moreover have "closed s = 0"
    using assms(1) len by (auto simp: core_defs)
  ultimately show ?thesis using assms(1) pc
    unfolding core_defs flds tk(1,2) by (elim conjE) simp
qed

lemma core_Drop_Consumer:
  fixes s :: "'a chan"
  assumes "chan_core s" and "consumer_step Drop_Consumer s = Some t"
  shows "chan_core t"
proof -
  from assms(2) have pc: "cpc s = C_Idle"
      and t: "t = s\<lparr>buf := (buf s)\<lparr>consumer_alive := False\<rparr>, cpc := C_Dropped\<rparr>"
    by (auto split: consumer_pc.splits)
  have tk: "taken t = taken s" "written t = written s"
    using pc t by (simp_all add: taken_def written_def)
  from assms(1) pc show ?thesis unfolding core_defs tk by (elim conjE) (simp add: t)
qed

text \<open>One lemma per kind of step, put together.\<close>

lemma producer_step_core:
  assumes "chan_core s" "producer_step l s = Some t" "wrap_free (cap (buf s)) (length (sent s))"
  shows "chan_core t"
proof (cases l)
  case (Send v)
  show ?thesis by (rule core_Send [OF assms(1,2) [unfolded Send]])
next
  case (Load_Consumer_Alive b)
  show ?thesis by (rule core_Load_Consumer_Alive [OF assms(1,2) [unfolded Load_Consumer_Alive]])
next
  case (Load_Tail u)
  show ?thesis by (rule core_Load_Tail [OF assms(1,2) [unfolded Load_Tail]])
next
  case Write_Slot
  show ?thesis by (rule core_Write_Slot [OF assms [unfolded Write_Slot]])
next
  case Store_Head
  show ?thesis by (rule core_Store_Head [OF assms(1,2) [unfolded Store_Head]])
next
  case Drop_Producer
  show ?thesis by (rule core_Drop_Producer [OF assms(1,2) [unfolded Drop_Producer]])
qed (use assms(2) in simp_all)

lemma consumer_step_core:
  assumes "chan_core s" "consumer_step l s = Some t" "wrap_free (cap (buf s)) (length (received s))"
  shows "chan_core t"
proof (cases l)
  case Recv
  show ?thesis by (rule core_Recv [OF assms(1,2) [unfolded Recv]])
next
  case (Load_Head h)
  show ?thesis by (rule core_Load_Head [OF assms(1,2) [unfolded Load_Head]])
next
  case (Load_Producer_Alive b)
  show ?thesis by (rule core_Load_Producer_Alive [OF assms(1,2) [unfolded Load_Producer_Alive]])
next
  case (Reload_Head h)
  show ?thesis by (rule core_Reload_Head [OF assms(1,2) [unfolded Reload_Head]])
next
  case Read_Slot
  show ?thesis by (rule core_Read_Slot [OF assms [unfolded Read_Slot]])
next
  case Store_Tail
  show ?thesis by (rule core_Store_Tail [OF assms(1,2) [unfolded Store_Tail]])
next
  case Drop_Consumer
  show ?thesis by (rule core_Drop_Consumer [OF assms(1,2) [unfolded Drop_Consumer]])
qed (use assms(2) in simp_all)

lemma producer_step_mono:
  assumes "producer_step l s = Some t"
  shows "cap (buf t) = cap (buf s)" "length (written s) \<le> length (written t)"
    "received t = received s" "taken t = taken s"
  using assms
  by (cases l; force simp: written_def taken_def ring_write_def split: producer_pc.splits if_splits)+

lemma consumer_step_mono:
  assumes "consumer_step l s = Some t"
  shows "cap (buf t) = cap (buf s)" "written t = written s" "sent t = sent s"
    "length (received s) \<le> length (received t)"
  using assms
  by (cases l; force simp: written_def taken_def ring_read_def
        split: consumer_pc.splits if_splits option.splits)+

lemma chan_inv_step:
  assumes "chan_inv s" "chan_step s t"
  shows "chan_inv t"
  using assms(2)
proof cases
  case (producer l)
  note m = producer_step_mono [OF producer]
  show ?thesis unfolding chan_inv_def m(1)
  proof
    assume wf: "wrap_free (cap (buf s)) (length (written t))"
    with m(2) have "wrap_free (cap (buf s)) (length (written s))" by (rule wrap_free_mono [rotated])
    with assms(1) have core: "chan_core s" by (simp add: chan_inv_def)
    from wf m(2) core_bounds(4) [OF core] have "wrap_free (cap (buf s)) (length (sent s))"
      by (meson wrap_free_mono order_trans)
    with core producer show "chan_core t" by (rule producer_step_core)
  qed
next
  case (consumer l)
  note m = consumer_step_mono [OF consumer]
  show ?thesis unfolding chan_inv_def m(1,2)
  proof
    assume wf: "wrap_free (cap (buf s)) (length (written s))"
    with assms(1) have core: "chan_core s" by (simp add: chan_inv_def)
    from wf core_bounds(2,3,4) [OF core] have "wrap_free (cap (buf s)) (length (received s))"
      by (meson wrap_free_mono order_trans)
    with core consumer show "chan_core t" by (rule consumer_step_core)
  qed
qed

interpretation spsc: invariant_system "\<lambda>s. s = channel c" chan_step chan_inv for c
  by unfold_locales (simp_all add: chan_inv_def core_channel, metis chan_inv_def chan_inv_step)

lemma reach_core:
  "chan_reach c s \<Longrightarrow> wrap_free (cap (buf s)) (length (written s)) \<Longrightarrow> chan_core s"
  using spsc.reach_inv [of c s] by (auto simp: chan_inv_def)

section \<open>Dropping the ring buffer\<close>

text \<open>
  The last owner of the \<^verbatim>\<open>Arc\<close> drops the ring buffer.  \<open>panics v\<close> says whether the element's
  own \<^verbatim>\<open>Drop\<close> panics.  A panic in the main loop unwinds through the \<^verbatim>\<open>PanicGuard\<close>, whose loop
  drops the rest; a second panic, during that unwinding, aborts the process.  The result lists the
  elements whose drop was started, in order.
\<close>

datatype drop_outcome = Drop_Done | Drop_Unwinds | Drop_Aborts | Drop_Undefined

function guard_loop :: "('a \<Rightarrow> bool) \<Rightarrow> 'a ring_buffer \<Rightarrow> usize \<Rightarrow> usize \<Rightarrow> 'a list \<times> drop_outcome \<times> 'a ring_buffer"
where
  "guard_loop panics rb hp tp =
     (if tp \<noteq> hp then
        let rb = rb\<lparr>tail := tp + 1\<rparr> in
        (case slots rb ! slot_index rb tp of
           None \<Rightarrow> ([], Drop_Undefined, rb)
         | Some v \<Rightarrow>
             if panics v then ([v], Drop_Aborts, rb)
             else (case guard_loop panics rb hp (tp + 1) of (vs, out) \<Rightarrow> (v # vs, out)))
      else ([], Drop_Done, rb))"
  by pat_completeness auto
termination
proof (relation "measure (\<lambda>(p, rb, hp, tp). unat (hp - tp))")
  fix hp tp :: usize
  assume "tp \<noteq> hp"
  then have "unat (hp - tp - 1) < unat (hp - tp)" by (intro measure_unat) simp
  then show "((panics :: 'a \<Rightarrow> bool, x, hp, tp + 1), panics, rb, hp, tp)
      \<in> measure (\<lambda>(p, rb :: 'a ring_buffer, hp, tp). unat (hp - tp))" for panics x rb
    by (simp add: diff_diff_add)
qed simp

definition guard_drop :: "('a \<Rightarrow> bool) \<Rightarrow> 'a ring_buffer \<Rightarrow> 'a list \<times> drop_outcome \<times> 'a ring_buffer" where
  "guard_drop panics rb = guard_loop panics rb (head rb) (tail rb)"

function drop_loop :: "('a \<Rightarrow> bool) \<Rightarrow> 'a ring_buffer \<Rightarrow> usize \<Rightarrow> usize \<Rightarrow> 'a list \<times> drop_outcome \<times> 'a ring_buffer"
where
  "drop_loop panics rb hp tp =
     (if tp \<noteq> hp then
        let rb = rb\<lparr>tail := tp + 1\<rparr> in
        (case slots rb ! slot_index rb tp of
           None \<Rightarrow> ([], Drop_Undefined, rb)
         | Some v \<Rightarrow>
             if panics v
             then (case guard_drop panics rb of
                     (vs, Drop_Done, rb) \<Rightarrow> (v # vs, Drop_Unwinds, rb)
                   | (vs, out, rb) \<Rightarrow> (v # vs, out, rb))
             else (case drop_loop panics rb hp (tp + 1) of (vs, out) \<Rightarrow> (v # vs, out)))
      else ([], Drop_Done, rb))"
  by pat_completeness auto
termination
proof (relation "measure (\<lambda>(p, rb, hp, tp). unat (hp - tp))")
  fix hp tp :: usize
  assume "tp \<noteq> hp"
  then have "unat (hp - tp - 1) < unat (hp - tp)" by (intro measure_unat) simp
  then show "((panics :: 'a \<Rightarrow> bool, x, hp, tp + 1), panics, rb, hp, tp)
      \<in> measure (\<lambda>(p, rb :: 'a ring_buffer, hp, tp). unat (hp - tp))" for panics x rb
    by (simp add: diff_diff_add)
qed simp

declare guard_loop.simps [simp del] drop_loop.simps [simp del]

definition ring_drop :: "('a \<Rightarrow> bool) \<Rightarrow> 'a ring_buffer \<Rightarrow> 'a list \<times> drop_outcome" where
  "ring_drop panics rb = (case drop_loop panics rb (head rb) (tail rb) of (vs, out, _) \<Rightarrow> (vs, out))"

text \<open>\<open>holds_at rb tp vs\<close>: starting at counter \<open>tp\<close> the slots own the values \<open>vs\<close>, up to \<open>head\<close>.\<close>

definition holds_at :: "'a ring_buffer \<Rightarrow> usize \<Rightarrow> 'a list \<Rightarrow> bool" where
  "holds_at rb tp vs \<longleftrightarrow>
     head rb = tp + of_nat (length vs) \<and> length vs < 2 ^ 64 \<and>
     (\<forall>i < length vs. slots rb ! slot_index rb (tp + of_nat i) = Some (vs ! i))"

lemma holds_at_Nil [simp]: "holds_at rb tp [] \<longleftrightarrow> head rb = tp"
  by (simp add: holds_at_def)

lemma holds_at_Cons:
  assumes "holds_at rb tp (v # vs)"
  shows "tp \<noteq> head rb" "slots rb ! slot_index rb tp = Some v"
    "holds_at (rb\<lparr>tail := x\<rparr>) (tp + 1) vs"
proof -
  let ?n = "length (v # vs)"
  have n: "?n < 2 ^ 64" and h: "head rb = tp + of_nat ?n"
    and sl: "\<And>i. i < ?n \<Longrightarrow> slots rb ! slot_index rb (tp + of_nat i) = Some ((v # vs) ! i)"
    using assms by (auto simp: holds_at_def)
  have "unat (of_nat ?n :: usize) = ?n"
    by (rule unat_of_nat_small) (use n in simp)
  then have "(of_nat ?n :: usize) \<noteq> 0" by (metis unat_0 list.size(4) add_is_0 one_neq_zero One_nat_def nat.distinct(1))
  then show "tp \<noteq> head rb" unfolding h by simp
  show "slots rb ! slot_index rb tp = Some v" using sl [of 0] by simp
  have "slots rb ! slot_index rb (tp + 1 + of_nat i) = Some (vs ! i)" if "i < length vs" for i
    using sl [of "Suc i"] that by (simp add: add.assoc)
  moreover have "slot_index (rb\<lparr>tail := x\<rparr>) = slot_index rb" by (simp add: slot_index_def fun_eq_iff)
  ultimately show "holds_at (rb\<lparr>tail := x\<rparr>) (tp + 1) vs"
    using n h by (simp add: holds_at_def add.assoc)
qed

lemma slot_index_tail [simp]: "slot_index (rb\<lparr>tail := x\<rparr>) i = slot_index rb i"
  by (simp add: slot_index_def)

lemma guard_loop_all:
  "holds_at rb tp vs \<Longrightarrow> \<forall>v \<in> set vs. \<not> panics v \<Longrightarrow>
     \<exists>rb'. guard_loop panics rb (head rb) tp = (vs, Drop_Done, rb')"
proof (induction vs arbitrary: rb tp)
  case Nil
  then show ?case by (simp add: guard_loop.simps)
next
  case (Cons v vs)
  note c = holds_at_Cons [OF Cons.prems(1)]
  from Cons.IH [OF c(3) [of "tp + 1"]] Cons.prems(2) obtain rb' where
    "guard_loop panics (rb\<lparr>tail := tp + 1\<rparr>) (head rb) (tp + 1) = (vs, Drop_Done, rb')" by auto
  with c Cons.prems(2) show ?case by (subst guard_loop.simps) simp
qed

lemma drop_loop_all:
  "holds_at rb tp vs \<Longrightarrow> length (filter panics vs) \<le> 1 \<Longrightarrow>
     \<exists>rb'. drop_loop panics rb (head rb) tp =
       (vs, if filter panics vs = [] then Drop_Done else Drop_Unwinds, rb')"
proof (induction vs arbitrary: rb tp)
  case Nil
  then show ?case by (simp add: drop_loop.simps)
next
  case (Cons v vs)
  note c = holds_at_Cons [OF Cons.prems(1)]
  show ?case
  proof (cases "panics v")
    case True
    with Cons.prems(2) have none: "filter panics vs = []" by simp
    then have "\<forall>v \<in> set vs. \<not> panics v" by (simp add: filter_empty_conv)
    with guard_loop_all [OF c(3) [of "tp + 1"]] obtain rb' where
      "guard_loop panics (rb\<lparr>tail := tp + 1\<rparr>) (head rb) (tp + 1) = (vs, Drop_Done, rb')"
      by fastforce
    with c True none show ?thesis by (subst drop_loop.simps) (simp add: guard_drop_def)
  next
    case False
    with Cons.IH [OF c(3) [of "tp + 1"]] Cons.prems(2) obtain rb' where
      "drop_loop panics (rb\<lparr>tail := tp + 1\<rparr>) (head rb) (tp + 1) =
         (vs, if filter panics vs = [] then Drop_Done else Drop_Unwinds, rb')" by auto
    with c False show ?thesis by (subst drop_loop.simps) simp
  qed
qed

text \<open>Between two calls the ring holds exactly the values sent and not yet received.\<close>

definition quiescent :: "'a chan \<Rightarrow> bool" where
  "quiescent s \<longleftrightarrow> ppc s \<in> {P_Idle, P_Dropped} \<and> cpc s \<in> {C_Idle, C_Dropped}"

lemma core_holds:
  assumes core: "chan_core s" and q: "quiescent s" and wf: "wrap_free (cap (buf s)) (length (sent s))"
  shows "holds_at (buf s) (tail (buf s)) (drop (length (received s)) (sent s))"
proof -
  let ?r = "length (received s)" and ?vs = "drop (length (received s)) (sent s)"
  have tk: "written s = sent s" "taken s = received s"
    using q by (auto simp: quiescent_def written_def taken_def)
  note b = core_bounds [OF core, unfolded tk]
  have win: "window ?r (length (sent s)) (sent s) (slots (buf s))"
    and cp: "length (slots (buf s)) = unat (cap (buf s))"
    and hd: "head (buf s) = of_nat (length (sent s))" and tp: "tail (buf s) = of_nat ?r"
    using core by (auto simp: core_defs tk)
  have "slots (buf s) ! slot_index (buf s) (of_nat ?r + of_nat i) = Some (?vs ! i)"
    if i: "i < length ?vs" for i
  proof -
    have k: "?r + i < length (sent s)" using i by simp
    have "slot_index (buf s) (of_nat (?r + i)) = (?r + i) mod length (slots (buf s))"
      unfolding slot_index_def cp
      by (rule index_of_nat) (use wf wrap_free_mono k in \<open>meson less_imp_le\<close>)
    with win k i show ?thesis by (simp add: window_def)
  qed
  moreover have "(of_nat (length (sent s)) :: usize) = of_nat ?r + of_nat (length ?vs)"
    using b(3) by (simp flip: of_nat_add)
  ultimately show ?thesis using b(6) unfolding holds_at_def hd tp by simp
qed

section \<open>Correctness of the channel\<close>

lemma reach_run_labels:
  "run_labels ls s = Some t \<Longrightarrow> chan_reach c s \<Longrightarrow> chan_reach c t"
proof (induction ls arbitrary: s)
  case (Cons l ls)
  then show ?case
    by (auto split: option.splits intro: Cons.IH reach_step chan_step.intros)
qed simp

text \<open>The abstract object: a FIFO queue of at most \<open>n\<close> values.  The channel refines it: each atomic
  step leaves the queue alone, appends one value while there is room, or takes the oldest one.\<close>

definition chan_queue :: "'a chan \<Rightarrow> 'a list" where
  "chan_queue s = drop (length (taken s)) (written s)"

inductive fifo_step :: "nat \<Rightarrow> 'a list \<Rightarrow> 'a list \<Rightarrow> bool" for n where
  fifo_keep: "fifo_step n q q"
| fifo_put: "length q < n \<Longrightarrow> fifo_step n q (q @ [v])"
| fifo_take: "fifo_step n (v # q) q"

lemma producer_queue:
  assumes "producer_step l s = Some t" "chan_core s"
  shows "fifo_step (unat (cap (buf s))) (chan_queue s) (chan_queue t)"
proof (cases "written t = written s")
  case True
  then show ?thesis using producer_step_mono(4) [OF assms(1)]
    by (simp add: chan_queue_def fifo_keep)
next
  case False
  then obtain h v where pc: "ppc s = P_Space h v" and w: "written t = written s @ [v]" "written s = sent s"
    using assms(1) by (cases l)
      (auto simp: written_def ring_write_def split: producer_pc.splits if_splits)
  have "length (sent s) < length (received s) + unat (cap (buf s))"
    using assms(2) pc by (auto simp: core_defs producer_view_def)
  then have "length (chan_queue s) < unat (cap (buf s))"
    using core_bounds(2,3) [OF assms(2)] w(2) by (simp add: chan_queue_def)
  moreover have "chan_queue t = chan_queue s @ [v]"
    using producer_step_mono(4) [OF assms(1)] w core_bounds(3) [OF assms(2)]
    by (simp add: chan_queue_def)
  ultimately show ?thesis by (simp add: fifo_put)
qed

lemma consumer_queue:
  assumes "consumer_step l s = Some t" "chan_core s" "chan_core t"
  shows "fifo_step (unat (cap (buf s))) (chan_queue s) (chan_queue t)"
proof (cases "taken t = taken s")
  case True
  then show ?thesis using consumer_step_mono(2) [OF assms(1)]
    by (simp add: chan_queue_def fifo_keep)
next
  case False
  then obtain v where tk: "taken t = taken s @ [v]"
    using assms(1) by (cases l)
      (auto simp: taken_def ring_read_def split: consumer_pc.splits if_splits option.splits)
  have w: "written t = written s" by (rule consumer_step_mono(2) [OF assms(1)])
  have "take (length (taken t)) (written t) = taken t" using assms(3) by (simp add: core_defs)
  then have "written t = taken t @ chan_queue t" unfolding chan_queue_def by (metis append_take_drop_id)
  then have eq: "written s = taken s @ v # chan_queue t" using w tk by simp
  have "chan_queue s = v # chan_queue t" unfolding chan_queue_def [of s] eq by simp
  then show ?thesis by (simp add: fifo_take)
qed

lemma spsc_fifo_order_aux:
  assumes core: "chan_core s"
  shows "take (length (received s)) (sent s) = received s"
proof -
  note b = core_bounds [OF core]
  have pre: "take (length (taken s)) (written s) = taken s" using core by (simp add: core_defs)
  have "take (length (received s)) (sent s) = take (length (received s)) (written s)"
    using b(2,3) by (simp add: written_def)
  also have "\<dots> = take (length (received s)) (taken s)"
    using pre b(2) by (metis min.absorb1 take_take)
  also have "\<dots> = received s" by (simp add: taken_def)
  finally show ?thesis .
qed



lemma slot_at_space:
  assumes core: "chan_core s" and wf: "wrap_free (cap (buf s)) (length (written s))"
    and pc: "ppc s = P_Space h v"
  shows "slots (buf s) ! slot_index (buf s) h = None"
proof -
  note b = core_bounds [OF core]
  have n: "length (slots (buf s)) = unat (cap (buf s))"
    and h: "h = of_nat (length (sent s))" and w: "written s = sent s"
    and room: "length (sent s) < length (received s) + length (slots (buf s))"
    and win: "window (length (taken s)) (length (sent s)) (sent s) (slots (buf s))"
    using core pc by (auto simp: core_defs producer_view_def written_def)
  have "slot_index (buf s) h = length (sent s) mod length (slots (buf s))"
    unfolding slot_index_def h n by (rule index_of_nat) (use wf w in simp)
  with window_free_slot [OF win] room b show ?thesis by simp
qed

lemma slot_at_ready:
  assumes core: "chan_core s" and wf: "wrap_free (cap (buf s)) (length (written s))"
    and pc: "cpc s = C_Ready t"
  shows "slots (buf s) ! slot_index (buf s) t = Some (sent s ! length (received s))"
proof -
  note b = core_bounds [OF core]
  have n: "length (slots (buf s)) = unat (cap (buf s))"
    and t: "t = of_nat (length (received s))" and lt: "length (received s) < length (sent s)"
    and win: "window (length (received s)) (length (written s)) (written s) (slots (buf s))"
    using core pc by (auto simp: core_defs consumer_view_def taken_def)
  have "slot_index (buf s) t = length (received s) mod length (slots (buf s))"
    unfolding slot_index_def t n
    by (rule index_of_nat) (rule wrap_free_mono [OF wf], use lt b in linarith)
  moreover have "slots (buf s) ! (length (received s) mod length (slots (buf s))) =
      Some (written s ! length (received s))"
    by (rule window_pop(2) [OF win]) (use lt b n in linarith)+
  ultimately show ?thesis using lt by (simp add: written_def nth_append)
qed

text \<open>C24. Memory safety of the unsafe slot accesses: whenever the producer is about to write its slot,
  the slot owns no value (nothing is overwritten), whenever the consumer is about to read, the slot owns
  the value sent at that position, and no read of an uninitialised slot ever happens.\<close>

theorem spsc_slot_safety:
  assumes "chan_reach c s" and "wrap_free (cap (buf s)) (length (written s))"
  shows "(case ppc s of P_Space h v \<Rightarrow> slots (buf s) ! slot_index (buf s) h = None | _ \<Rightarrow> True) \<and>
         (case cpc s of C_Ready t \<Rightarrow>
            slots (buf s) ! slot_index (buf s) t = Some (sent s ! length (received s))
          | C_Undefined \<Rightarrow> False | _ \<Rightarrow> True)"
proof -
  have core: "chan_core s" using assms by (rule reach_core)
  then have "cpc s \<noteq> C_Undefined" by (auto simp: core_defs)
  with slot_at_space [OF core assms(2)] slot_at_ready [OF core assms(2)] show ?thesis
    by (simp split: producer_pc.split consumer_pc.split)
qed


text \<open>C27. Dropping the buffer after the last use drops every value sent and not received, once each
  and in order, even when one element's destructor panics (the panic then still propagates).\<close>

theorem spsc_drop_complete:
  assumes "chan_reach c s" and "wrap_free (cap (buf s)) (length (written s))" and "quiescent s"
    and "length (filter panics (drop (length (received s)) (sent s))) \<le> 1"
  shows "ring_drop panics (buf s) =
           (drop (length (received s)) (sent s),
            if filter panics (drop (length (received s)) (sent s)) = [] then Drop_Done else Drop_Unwinds)"
proof -
  have core: "chan_core s" using assms(1,2) by (rule reach_core)
  have "wrap_free (cap (buf s)) (length (sent s))"
    using assms(2) core_bounds(4) [OF core] by (rule wrap_free_mono)
  with core assms(3) have "holds_at (buf s) (tail (buf s)) (drop (length (received s)) (sent s))"
    by (rule core_holds)
  from drop_loop_all [OF this assms(4)] show ?thesis by (auto simp: ring_drop_def)
qed

text \<open>Solo progress: a \<^verbatim>\<open>recv\<close> called while a sent value is waiting returns the oldest one after
  its own three further accesses with an up-to-date load, whatever state the producer is stuck in.\<close>

theorem spsc_recv_progress:
  assumes "chan_reach c s" and "wrap_free (cap (buf s)) (length (written s))"
    and "cpc s = C_Idle" and "length (received s) < length (sent s)"
  shows "\<exists>t. run_labels [Recv, Load_Head (head (buf s)), Read_Slot, Store_Tail] s = Some t \<and>
             received t = received s @ [sent s ! length (received s)] \<and> cpc t = C_Idle \<and>
             ppc t = ppc s \<and> sent t = sent s"
proof -
  have core: "chan_core s" using assms(1,2) by (rule reach_core)
  let ?r = "length (received s)"
  define s1 where "s1 = s\<lparr>cpc := C_Loop (tail (buf s))\<rparr>"
  define s2 where "s2 = s1\<lparr>seen_head := head (buf s), cpc := C_Ready (tail (buf s))\<rparr>"
  note b = core_bounds [OF core]
  have eqs: "head (buf s) = of_nat (length (sent s))" "tail (buf s) = of_nat ?r"
    using core by (auto simp: core_defs)
  have "tail (buf s) = head (buf s) \<longleftrightarrow> ?r = length (sent s)"
    unfolding eqs by (rule of_nat_eq_near) (use assms(4) b in linarith)+
  then have ne: "head (buf s) \<noteq> tail (buf s)" using assms(4) by auto
  have st1: "consumer_step Recv s = Some s1" using assms(3) by (simp add: s1_def)
  have st2: "consumer_step (Load_Head (head (buf s))) s1 = Some s2"
    using ne by (simp add: s1_def s2_def fresh_counter_def)
  have r2: "chan_reach c s2"
    using assms(1) st1 st2 by (blast intro: reach_step chan_step.consumer)
  have "wrap_free (cap (buf s2)) (length (written s2))"
    using assms(2) by (simp add: s1_def s2_def written_def)
  from slot_at_ready [OF reach_core [OF r2 this] this, of "tail (buf s)"] have
    sl: "slots (buf s) ! slot_index (buf s) (tail (buf s)) = Some (sent s ! ?r)"
    by (simp add: s1_def s2_def)
  then show ?thesis using st1 st2
    by (simp add: s2_def s1_def ring_read_def)
qed

section \<open>Witnesses\<close>

definition demo_labels :: "nat label list" where
  "demo_labels =
     [Send 7, Load_Consumer_Alive True, Load_Tail 0, Write_Slot, Store_Head,
      Send 8, Load_Consumer_Alive True, Load_Tail 0, Write_Slot, Store_Head,
      Recv, Load_Head 1, Read_Slot, Store_Tail]"

definition demo_chan :: "nat chan" where
  "demo_chan =
     \<lparr> buf = \<lparr> slots = [None, Some 8], cap = 2, head = 2, tail = 1,
              producer_alive = True, consumer_alive = True \<rparr>,
       ppc = P_Idle, cpc = C_Idle, seen_tail = 0, seen_consumer_alive = True,
       seen_head = 1, seen_producer_alive = True,
       sent = [7, 8], rejected = [], received = [7], closed = 0 \<rparr>"

lemma demo_reach: "chan_reach 2 demo_chan"
proof -
  have two: "replicate 2 (None :: nat option) = [None, None]" by (simp add: numeral_2_eq_2)
  have "run_labels demo_labels (channel 2) = Some demo_chan"
    by (simp add: demo_labels_def channel_def ring_new_def fresh_flag_def fresh_counter_def
        ring_write_def ring_read_def slot_index_def two demo_chan_def)
  then show ?thesis by (rule reach_run_labels) (simp add: reach_start)
qed

lemma demo_wrap_free: "wrap_free (cap (buf demo_chan)) n"
proof -
  have "(2 :: nat) dvd 2 ^ 64" by (rule dvd_power) simp
  then show ?thesis by (simp add: wrap_free_def demo_chan_def)
qed



theorem spsc_slot_safety_witness:
  "\<exists>s :: nat chan. chan_reach 2 s \<and> ppc s = P_Space 2 9 \<and> slots (buf s) ! slot_index (buf s) 2 = None"
proof -
  define s where "s = demo_chan\<lparr>ppc := P_Space 2 9, seen_tail := 1\<rparr>"
  have "run_labels [Send 9, Load_Consumer_Alive True, Load_Tail 1] demo_chan = Some s"
    by (simp add: s_def demo_chan_def fresh_counter_def fresh_flag_def)
  then have r: "chan_reach 2 s" by (rule reach_run_labels) (rule demo_reach)
  have wf: "wrap_free (cap (buf s)) (length (written s))" using demo_wrap_free by (simp add: s_def)
  from spsc_slot_safety [OF r wf] have "slots (buf s) ! slot_index (buf s) 2 = None"
    by (simp add: s_def demo_chan_def)
  with r show ?thesis by (intro exI [of _ s]) (simp add: s_def)
qed


theorem spsc_drop_complete_witness:
  "ring_drop (\<lambda>v. v = 8) (buf demo_chan) = ([8], Drop_Unwinds)"
proof -
  have "quiescent demo_chan" by (simp add: quiescent_def demo_chan_def)
  from spsc_drop_complete [OF demo_reach demo_wrap_free this, of "\<lambda>v. v = 8"]
  show ?thesis by (simp add: demo_chan_def)
qed

theorem spsc_recv_progress_witness:
  "\<exists>t. run_labels [Recv, Load_Head 2, Read_Slot, Store_Tail] demo_chan = Some t \<and> received t = [7, 8]"
proof -
  have "cpc demo_chan = C_Idle" "length (received demo_chan) < length (sent demo_chan)"
    by (simp_all add: demo_chan_def)
  from spsc_recv_progress [OF demo_reach demo_wrap_free this]
  obtain t where "run_labels [Recv, Load_Head (head (buf demo_chan)), Read_Slot, Store_Tail] demo_chan = Some t"
    "received t = received demo_chan @ [sent demo_chan ! length (received demo_chan)]"
    by blast
  then show ?thesis by (intro exI [of _ t]) (simp add: demo_chan_def)
qed

end
