(* ===== verification/Rust_Std.thy ===== *)
theory Rust_Std
  imports Prelude
begin

text \<open>
  The parts of Rust's standard library the program uses on text and bytes.  A \<^verbatim>\<open>str\<close> is the list of
  its UTF-8 bytes; a \<^typ>\<open>char\<close> is one byte.  Covered here: splitting at a separator and at Unicode
  white space, \<^verbatim>\<open>FromStr\<close> and \<^verbatim>\<open>Display\<close> of the unsigned integers, UTF-8 validity, and the
  little-endian bytes of a \<^verbatim>\<open>u32\<close>.
\<close>

section \<open>Splitting\<close>

text \<open>\<^verbatim>\<open>str::split_once(c)\<close> for an ASCII separator.\<close>

definition split_once :: "char \<Rightarrow> string \<Rightarrow> (string \<times> string) option" where
  "split_once c s =
     (case dropWhile (\<lambda>x. x \<noteq> c) s of [] \<Rightarrow> None | _ # t \<Rightarrow> Some (takeWhile (\<lambda>x. x \<noteq> c) s, t))"

lemma split_once_append [simp]:
  "c \<notin> set h \<Longrightarrow> split_once c (h @ c # t) = Some (h, t)"
proof -
  assume "c \<notin> set h"
  then have "\<And>x. x \<in> set h \<Longrightarrow> x \<noteq> c" by auto
  then show ?thesis by (simp add: split_once_def dropWhile_append2 takeWhile_append2)
qed

lemma split_once_None: "split_once c s = None \<longleftrightarrow> c \<notin> set s"
proof (cases "c \<in> set s")
  case True
  then obtain h t where "s = h @ c # t" "c \<notin> set h" by (meson split_list_first)
  then show ?thesis by simp
next
  case False
  then have d: "dropWhile (\<lambda>x. x \<noteq> c) s = []" by auto
  from False show ?thesis unfolding split_once_def d by simp
qed

lemma split_once_Some: "split_once c s = Some (h, t) \<longleftrightarrow> s = h @ c # t \<and> c \<notin> set h"
proof
  assume eq: "split_once c s = Some (h, t)"
  then obtain y where d: "dropWhile (\<lambda>x. x \<noteq> c) s = y # t" and h: "h = takeWhile (\<lambda>x. x \<noteq> c) s"
    by (auto simp: split_once_def split: list.splits)
  have "y = c" using hd_dropWhile [of "\<lambda>x. x \<noteq> c" s] d by simp
  moreover have "c \<notin> set h" using h set_takeWhileD [of c "\<lambda>x. x \<noteq> c" s] by blast
  moreover have "s = h @ y # t" using takeWhile_dropWhile_id [of "\<lambda>x. x \<noteq> c" s] d h by simp
  ultimately show "s = h @ c # t \<and> c \<notin> set h" by simp
next
  assume "s = h @ c # t \<and> c \<notin> set h"
  then show "split_once c s = Some (h, t)" by simp
qed

lemma split_once_Cons:
  "split_once c (x # s) =
     (if x = c then Some ([], s)
      else (case split_once c s of None \<Rightarrow> None | Some (h, t) \<Rightarrow> Some (x # h, t)))"
proof (cases "split_once c s")
  case None
  then have "x \<noteq> c \<Longrightarrow> split_once c (x # s) = None" by (simp add: split_once_None)
  with None show ?thesis using split_once_append [of c "[]" s] by auto
next
  case (Some p)
  then obtain h t where p: "p = (h, t)" "s = h @ c # t" "c \<notin> set h"
    by (cases p) (simp add: split_once_Some)
  show ?thesis
  proof (cases "x = c")
    case True
    then show ?thesis using split_once_append [of c "[]" s] by simp
  next
    case False
    with p have "split_once c (x # s) = Some (x # h, t)" by (simp add: split_once_Some)
    with False Some p show ?thesis by simp
  qed
qed

text \<open>The UTF-8 encodings of the characters with the Unicode property \<^verbatim>\<open>White_Space\<close>: the number
  of bytes of the one at the front, 0 if the front character is not white space.\<close>

definition byte_in :: "nat \<Rightarrow> nat \<Rightarrow> char \<Rightarrow> bool" where
  "byte_in lo hi c \<longleftrightarrow> lo \<le> of_char c \<and> of_char c \<le> hi"

fun ws_len :: "string \<Rightarrow> nat" where
  "ws_len [] = 0"
| "ws_len (a # s) =
     (if byte_in 9 13 a \<or> byte_in 32 32 a then 1
      else (case s of
        [] \<Rightarrow> 0
      | b # s \<Rightarrow>
          if byte_in 0xC2 0xC2 a \<and> (byte_in 0x85 0x85 b \<or> byte_in 0xA0 0xA0 b) then 2
          else (case s of
            [] \<Rightarrow> 0
          | c # _ \<Rightarrow>
              if byte_in 0xE1 0xE1 a \<and> byte_in 0x9A 0x9A b \<and> byte_in 0x80 0x80 c \<or>
                 byte_in 0xE2 0xE2 a \<and> byte_in 0x80 0x80 b \<and>
                   (byte_in 0x80 0x8A c \<or> byte_in 0xA8 0xA9 c \<or> byte_in 0xAF 0xAF c) \<or>
                 byte_in 0xE2 0xE2 a \<and> byte_in 0x81 0x81 b \<and> byte_in 0x9F 0x9F c \<or>
                 byte_in 0xE3 0xE3 a \<and> byte_in 0x80 0x80 b \<and> byte_in 0x80 0x80 c
              then 3 else 0)))"

text \<open>\<^verbatim>\<open>split_whitespace().next()\<close>: skip white space, take the bytes up to the next white space.\<close>

function skip_ws :: "string \<Rightarrow> string" where
  "skip_ws s = (if ws_len s = 0 then s else skip_ws (drop (ws_len s) s))"
  by pat_completeness auto
termination
proof (relation "measure length")
  fix s :: string
  assume "ws_len s \<noteq> 0"
  moreover from this have "s \<noteq> []" by auto
  ultimately show "(drop (ws_len s) s, s) \<in> measure length" by simp
qed simp

declare skip_ws.simps [simp del]

fun take_word :: "string \<Rightarrow> string" where
  "take_word [] = []"
| "take_word (c # s) = (if ws_len (c # s) = 0 then c # take_word s else [])"

definition first_word :: "string \<Rightarrow> string option" where
  "first_word s = (case skip_ws s of [] \<Rightarrow> None | t \<Rightarrow> Some (take_word t))"

text \<open>\<^verbatim>\<open>split_whitespace().collect()\<close>.\<close>

fun rest_word :: "string \<Rightarrow> string" where
  "rest_word [] = []"
| "rest_word (c # s) = (if ws_len (c # s) = 0 then rest_word s else c # s)"

lemma length_rest_word: "length (rest_word s) \<le> length s"
  by (induction s) auto

lemma length_skip_ws: "length (skip_ws s) \<le> length s"
proof (induction s rule: skip_ws.induct)
  case (1 s)
  then show ?case by (cases "ws_len s = 0") (simp_all add: skip_ws.simps [of s])
qed

function words_of :: "string \<Rightarrow> string list" where
  "words_of s = (case skip_ws s of [] \<Rightarrow> [] | c # t \<Rightarrow> (c # take_word t) # words_of (rest_word t))"
  by pat_completeness auto
termination
proof (relation "measure length")
  fix s c t
  assume "skip_ws s = c # t"
  then have "length t < length s" using length_skip_ws [of s] by simp
  then show "(rest_word t, s) \<in> measure length"
    using length_rest_word [of t] by simp
qed simp

declare words_of.simps [simp del]

text \<open>\<^verbatim>\<open>trim_end_matches(c)\<close>.\<close>

definition trim_end :: "char \<Rightarrow> string \<Rightarrow> string" where
  "trim_end c s = rev (dropWhile (\<lambda>x. x = c) (rev s))"

section \<open>Unsigned decimal numbers\<close>

definition is_digit :: "char \<Rightarrow> bool" where
  "is_digit c \<longleftrightarrow> byte_in 48 57 c"

definition digit_val :: "char \<Rightarrow> nat" where
  "digit_val c = of_char c - 48"

fun parse_digits :: "nat \<Rightarrow> string \<Rightarrow> nat option" where
  "parse_digits acc [] = Some acc"
| "parse_digits acc (c # s) = (if is_digit c then parse_digits (acc * 10 + digit_val c) s else None)"

text \<open>\<^verbatim>\<open>parse::<uN>()\<close>, with \<open>bound = 2 ^ N\<close>: one leading plus sign is allowed, no digits at all or
  a value out of range is an error.\<close>

definition parse_uint :: "nat \<Rightarrow> string \<Rightarrow> nat option" where
  "parse_uint bound s =
     (let ds = (case s of [] \<Rightarrow> [] | c # t \<Rightarrow> if c = CHR ''+'' then t else s) in
      if ds = [] then None
      else (case parse_digits 0 ds of
              None \<Rightarrow> None
            | Some n \<Rightarrow> if n < bound then Some n else None))"

definition digit_char :: "nat \<Rightarrow> char" where
  "digit_char d = char_of (48 + d)"

fun show_nat :: "nat \<Rightarrow> string" where
  "show_nat n = (if n < 10 then [digit_char n] else show_nat (n div 10) @ [digit_char (n mod 10)])"

declare show_nat.simps [simp del]

definition show_u64 :: "u64 \<Rightarrow> string" where
  "show_u64 w = show_nat (unat w)"

definition parse_u64 :: "string \<Rightarrow> u64 option" where
  "parse_u64 s = map_option of_nat (parse_uint (2 ^ 64) s)"

definition parse_u16 :: "string \<Rightarrow> u16 option" where
  "parse_u16 s = map_option of_nat (parse_uint (2 ^ 16) s)"

lemma digit_char_props:
  assumes "d < 10"
  shows "is_digit (digit_char d)" "digit_val (digit_char d) = d"
proof -
  have "of_char (digit_char d) = 48 + d"
    using assms by (simp add: digit_char_def)
  then show "is_digit (digit_char d)" "digit_val (digit_char d) = d"
    using assms by (simp_all add: is_digit_def byte_in_def digit_val_def)
qed

lemma parse_digits_append:
  "parse_digits acc (s @ t) = (case parse_digits acc s of None \<Rightarrow> None | Some n \<Rightarrow> parse_digits n t)"
  by (induction s arbitrary: acc) auto

lemma parse_digits_show: "parse_digits 0 (show_nat n) = Some n"
proof (induction n rule: show_nat.induct)
  case (1 n)
  show ?case
  proof (cases "n < 10")
    case True
    then show ?thesis by (subst show_nat.simps) (simp add: digit_char_props)
  next
    case False
    with 1 show ?thesis
      by (subst show_nat.simps) (simp add: parse_digits_append digit_char_props)
  qed
qed

lemma show_nat_digits: "c \<in> set (show_nat n) \<Longrightarrow> is_digit c"
proof (induction n rule: show_nat.induct)
  case (1 n)
  then show ?case
    by (subst (asm) (2) show_nat.simps) (auto simp: digit_char_props split: if_splits)
qed

lemma show_nat_nonempty: "show_nat n \<noteq> []"
  by (subst show_nat.simps) simp

lemma parse_uint_show:
  assumes "n < bound"
  shows "parse_uint bound (show_nat n) = Some n"
proof -
  obtain c s where cs: "show_nat n = c # s" by (meson show_nat_nonempty neq_Nil_conv)
  with show_nat_digits [of c n] have "is_digit c" by simp
  then have "c \<noteq> CHR ''+''" by (auto simp: is_digit_def byte_in_def)
  then show ?thesis using assms parse_digits_show [of n] by (simp add: parse_uint_def cs)
qed

lemma parse_show_u64 [simp]: "parse_u64 (show_u64 w) = Some w"
proof -
  have "parse_uint (2 ^ 64) (show_nat (unat w)) = Some (unat w)"
    by (rule parse_uint_show) (rule unat_lt_64)
  then show ?thesis by (simp add: parse_u64_def show_u64_def)
qed

lemma show_u64_no_space [simp]: "CHR '' '' \<notin> set (show_u64 w)"
  by (auto simp: show_u64_def is_digit_def byte_in_def dest: show_nat_digits)

section \<open>Words of visible ASCII characters\<close>

lemma skip_ws_id: "ws_len s = 0 \<Longrightarrow> skip_ws s = s"
  by (simp add: skip_ws.simps)

lemma ascii_ws_len: "byte_in 33 126 c \<Longrightarrow> ws_len (c # s) = 0"
  by (cases s) (auto simp: byte_in_def split: list.split)

definition ascii_word :: "string \<Rightarrow> bool" where
  "ascii_word w \<longleftrightarrow> w \<noteq> [] \<and> list_all (byte_in 33 126) w"

lemma ascii_word_props: "ascii_word w \<Longrightarrow> CHR '' '' \<notin> set w \<and> w \<noteq> []"
  by (auto simp: ascii_word_def list_all_iff byte_in_def)

lemma take_word_ascii:
  assumes "list_all (byte_in 33 126) w"
  shows "take_word (w @ CHR '' '' # t) = w" "rest_word (w @ CHR '' '' # t) = CHR '' '' # t"
    "take_word w = w" "rest_word w = []"
proof -
  have "ws_len (CHR '' '' # t) = 1" by (simp add: byte_in_def)
  then show "take_word (w @ CHR '' '' # t) = w" "rest_word (w @ CHR '' '' # t) = CHR '' '' # t"
    "take_word w = w" "rest_word w = []"
    using assms by (induction w) (simp_all add: ascii_ws_len del: ws_len.simps)
qed

lemma words_of_ascii:
  assumes "ascii_word w"
  shows "words_of (w @ CHR '' '' # t) = w # words_of t" "words_of w = [w]"
proof -
  obtain c u where w: "w = c # u" using assms by (cases w) (auto simp: ascii_word_def)
  then have cu: "byte_in 33 126 c" "list_all (byte_in 33 126) u" using assms by (simp_all add: ascii_word_def)
  note front = skip_ws_id [OF ascii_ws_len [OF cu(1)]]
  have "skip_ws (CHR '' '' # t) = skip_ws t" by (subst skip_ws.simps) (simp add: byte_in_def)
  then have "words_of (CHR '' '' # t) = words_of t" by (simp add: words_of.simps [of "CHR '' '' # t"] words_of.simps [of t])
  then show "words_of (w @ CHR '' '' # t) = w # words_of t"
    unfolding w by (subst words_of.simps) (simp add: front take_word_ascii [OF cu(2)])
  have "words_of [] = []" by (subst words_of.simps) (simp add: skip_ws.simps [of "[]"])
  then show "words_of w = [w]"
    unfolding w by (subst words_of.simps) (simp add: front take_word_ascii [OF cu(2)])
qed

lemma words_of_nonempty: "w \<in> set (words_of s) \<Longrightarrow> w \<noteq> []"
proof (induction s rule: words_of.induct)
  case (1 s)
  show ?case
  proof (cases "skip_ws s")
    case Nil
    then show ?thesis using 1(2) by (simp add: words_of.simps [of s])
  next
    case (Cons c t)
    then show ?thesis using 1 by (auto simp: words_of.simps [of s])
  qed
qed

lemma show_u64_ascii: "ascii_word (show_u64 w)"
  using show_nat_digits show_nat_nonempty
  by (auto simp: ascii_word_def show_u64_def list_all_iff is_digit_def byte_in_def dest!: show_nat_digits)

section \<open>UTF-8\<close>

text \<open>\<^verbatim>\<open>String::from_utf8\<close> succeeds on the well-formed sequences of the Unicode standard (table 3-7):
  no overlong forms, no surrogates, nothing above U+10FFFF.  \<open>utf8_second a b\<close> is the range of a
  second byte \<open>b\<close> after the lead byte \<open>a\<close> of a three or four byte sequence.\<close>

definition utf8_cont :: "char \<Rightarrow> bool" where
  "utf8_cont c \<longleftrightarrow> byte_in 0x80 0xBF c"

definition utf8_second :: "char \<Rightarrow> char \<Rightarrow> bool" where
  "utf8_second a b \<longleftrightarrow>
     (if byte_in 0xE0 0xE0 a then byte_in 0xA0 0xBF b
      else if byte_in 0xED 0xED a then byte_in 0x80 0x9F b
      else if byte_in 0xF0 0xF0 a then byte_in 0x90 0xBF b
      else if byte_in 0xF4 0xF4 a then byte_in 0x80 0x8F b
      else utf8_cont b)"

fun valid_utf8 :: "string \<Rightarrow> bool" where
  "valid_utf8 [] \<longleftrightarrow> True"
| "valid_utf8 (a # s) \<longleftrightarrow>
     (if byte_in 0 0x7F a then valid_utf8 s
      else if byte_in 0xC2 0xDF a then
        (case s of b # s \<Rightarrow> utf8_cont b \<and> valid_utf8 s | [] \<Rightarrow> False)
      else if byte_in 0xE0 0xEF a then
        (case s of b # c # s \<Rightarrow> utf8_second a b \<and> utf8_cont c \<and> valid_utf8 s | _ \<Rightarrow> False)
      else if byte_in 0xF0 0xF4 a then
        (case s of b # c # d # s \<Rightarrow> utf8_second a b \<and> utf8_cont c \<and> utf8_cont d \<and> valid_utf8 s
         | _ \<Rightarrow> False)
      else False)"

lemma valid_utf8_ascii: "\<forall>c \<in> set s. byte_in 0 0x7F c \<Longrightarrow> valid_utf8 s"
  by (induction s) auto

lemma valid_utf8_cases [consumes 1, case_names nil ascii two three four]:
  assumes "valid_utf8 s"
    and "s = [] \<Longrightarrow> P"
    and "\<And>a t. s = a # t \<Longrightarrow> byte_in 0 0x7F a \<Longrightarrow> valid_utf8 t \<Longrightarrow> P"
    and "\<And>a b t. s = a # b # t \<Longrightarrow> byte_in 0xC2 0xDF a \<Longrightarrow> utf8_cont b \<Longrightarrow> valid_utf8 t \<Longrightarrow> P"
    and "\<And>a b c t. s = a # b # c # t \<Longrightarrow> byte_in 0xE0 0xEF a \<Longrightarrow> utf8_cont b \<Longrightarrow> utf8_second a b \<Longrightarrow> utf8_cont c \<Longrightarrow> valid_utf8 t \<Longrightarrow> P"
    and "\<And>a b c d t. s = a # b # c # d # t \<Longrightarrow> byte_in 0xF0 0xF4 a \<Longrightarrow> utf8_cont b \<Longrightarrow> utf8_second a b \<Longrightarrow> utf8_cont c \<Longrightarrow> utf8_cont d \<Longrightarrow>
      valid_utf8 t \<Longrightarrow> P"
  shows P
proof (cases s)
  case (Cons a u)
  have second: "utf8_second a b \<Longrightarrow> utf8_cont b" for b by (auto simp: utf8_second_def utf8_cont_def byte_in_def split: if_splits)
  show ?thesis
  proof (cases "byte_in 0 0x7F a")
    case True
    then show ?thesis using assms(1,3) Cons by simp
  next
    case a: False
    show ?thesis
    proof (cases "byte_in 0xC2 0xDF a")
      case True
      then show ?thesis using assms(1,4) Cons a by (cases u) auto
    next
      case b: False
      show ?thesis
      proof (cases "byte_in 0xE0 0xEF a")
        case True
        then show ?thesis using assms(1,5) Cons a b second by (cases u rule: remdups_adj.cases) auto
      next
        case c: False
        then have "byte_in 0xF0 0xF4 a" using assms(1) Cons a b by (simp split: if_splits)
        then show ?thesis using assms(1,6) Cons a b c second by (auto split: list.splits)
      qed
    qed
  qed
qed (rule assms(2))

lemma valid_utf8_chars: 
  "byte_in 0 0x7F a \<Longrightarrow> valid_utf8 (a # t) = valid_utf8 t"
  "byte_in 0xC2 0xDF a \<Longrightarrow> utf8_cont b \<Longrightarrow> valid_utf8 (a # b # t) = valid_utf8 t"
  "byte_in 0xE0 0xEF a \<Longrightarrow> utf8_second a b \<Longrightarrow> utf8_cont c \<Longrightarrow> valid_utf8 (a # b # c # t) = valid_utf8 t"
  "byte_in 0xF0 0xF4 a \<Longrightarrow> utf8_second a b \<Longrightarrow> utf8_cont c \<Longrightarrow> utf8_cont d \<Longrightarrow> valid_utf8 (a # b # c # d # t) = valid_utf8 t"
  by (auto simp: byte_in_def)

lemma valid_utf8_induct [consumes 1, case_names nil ascii two three four]:
  assumes "valid_utf8 s" and "P []"
    and "\<And>a t. byte_in 0 0x7F a \<Longrightarrow> valid_utf8 t \<Longrightarrow> P t \<Longrightarrow> P (a # t)"
    and "\<And>a b t. byte_in 0xC2 0xDF a \<Longrightarrow> utf8_cont b \<Longrightarrow> valid_utf8 t \<Longrightarrow> P t \<Longrightarrow> P (a # b # t)"
    and "\<And>a b c t. byte_in 0xE0 0xEF a \<Longrightarrow> utf8_cont b \<Longrightarrow> utf8_second a b \<Longrightarrow> utf8_cont c \<Longrightarrow> valid_utf8 t \<Longrightarrow> P t \<Longrightarrow>
      P (a # b # c # t)"
    and "\<And>a b c d t. byte_in 0xF0 0xF4 a \<Longrightarrow> utf8_cont b \<Longrightarrow> utf8_second a b \<Longrightarrow> utf8_cont c \<Longrightarrow> utf8_cont d \<Longrightarrow> valid_utf8 t \<Longrightarrow>
      P t \<Longrightarrow> P (a # b # c # d # t)"
  shows "P s"
  using assms(1)
proof (induction s rule: length_induct)
  case (1 s)
  then have IH: "valid_utf8 t \<Longrightarrow> length t < length s \<Longrightarrow> P t" for t by blast
  from "1.prems" show ?case
  proof (cases rule: valid_utf8_cases)
    case nil
    then show ?thesis using assms(2) by (simp only:)
  next
    case (ascii a t)
    then show ?thesis using assms(3) [OF ascii(2,3) IH [OF ascii(3)]] by simp
  next
    case (two a b t)
    then show ?thesis using assms(4) [OF two(2-4) IH [OF two(4)]] by simp
  next
    case (three a b c t)
    then show ?thesis using assms(5) [OF three(2-6) IH [OF three(6)]] by simp
  next
    case (four a b c d t)
    then show ?thesis using assms(6) [OF four(2-7) IH [OF four(7)]] by simp
  qed
qed

lemma valid_utf8_append: "valid_utf8 s \<Longrightarrow> valid_utf8 t \<Longrightarrow> valid_utf8 (s @ t)"
  by (induction s rule: valid_utf8_induct) (simp_all add: valid_utf8_chars del: valid_utf8.simps(2))

lemma cont_not_ascii: "utf8_cont b \<Longrightarrow> \<not> byte_in 0 0x7F b"
  by (simp add: utf8_cont_def byte_in_def)

lemma valid_utf8_butlast: "valid_utf8 s \<Longrightarrow> byte_in 0 0x7F (last s) \<Longrightarrow> valid_utf8 (butlast s)"
proof (induction s rule: valid_utf8_induct)
  case (ascii a t)
  then show ?case by (cases "t = []") (simp_all add: valid_utf8_chars del: valid_utf8.simps(2))
next
  case (two a b t)
  then show ?case
    by (cases "t = []") (simp_all add: valid_utf8_chars cont_not_ascii del: valid_utf8.simps(2))
next
  case (three a b c t)
  then show ?case
    by (cases "t = []") (simp_all add: valid_utf8_chars cont_not_ascii del: valid_utf8.simps(2))
next
  case (four a b c d t)
  then show ?case
    by (cases "t = []") (simp_all add: valid_utf8_chars cont_not_ascii del: valid_utf8.simps(2))
qed simp

text \<open>Cutting at white space leaves whole characters: of the bytes of a character only the first can start white
  space.\<close>

lemma ws_len_cont: "utf8_cont b \<Longrightarrow> ws_len (b # s) = 0"
  by (cases s) (auto simp: utf8_cont_def byte_in_def split: list.split)

lemma valid_utf8_take_word: "valid_utf8 s \<Longrightarrow> valid_utf8 (take_word s)"
  by (induction s rule: valid_utf8_induct) (simp_all add: valid_utf8_chars ws_len_cont del: valid_utf8.simps(2) ws_len.simps(2))

lemma ws_len_drop: "valid_utf8 s \<Longrightarrow> valid_utf8 (drop (ws_len s) s)"
  by (cases rule: valid_utf8_cases, assumption)
    (auto simp: valid_utf8_chars byte_in_def utf8_cont_def simp del: valid_utf8.simps(2) split: list.split)

lemma valid_utf8_skip_ws: "valid_utf8 s \<Longrightarrow> valid_utf8 (skip_ws s)"
proof (induction s rule: skip_ws.induct)
  case (1 s)
  then show ?case using ws_len_drop by (cases "ws_len s = 0") (simp_all add: skip_ws.simps [of s])
qed

lemma valid_utf8_trim_end: "valid_utf8 s \<Longrightarrow> byte_in 0 0x7F c \<Longrightarrow> valid_utf8 (trim_end c s)"
proof (induction s rule: rev_induct)
  case (snoc x s)
  then show ?case using valid_utf8_butlast [of "s @ [x]"] by (auto simp: trim_end_def)
qed (simp add: trim_end_def)

end
