(* ===== verification/Protocol.thy ===== *)
theory Protocol
  imports Rust_Std
begin

text \<open>
  The wire protocol of the lock service, \<^verbatim>\<open>locks/src/lib.rs\<close>: the message types, the strict request
  parser, the lenient response parser, and both printers.  \<^verbatim>\<open>Err(ParseError)\<close>, the only error, is
  \<open>None\<close>.
\<close>

section \<open>Constants and messages\<close>

definition MAX_LINE :: nat where "MAX_LINE = 4096"

definition MAX_LOCK_NAME :: nat where "MAX_LOCK_NAME = 64"

definition ERR_INVALID_LOCK_NAME :: string where
  "ERR_INVALID_LOCK_NAME = ''ERR invalid lock name''"

definition ERR_LINE_TOO_LONG :: string where
  "ERR_LINE_TOO_LONG = ''ERR line too long''"

definition ERR_NOT_HELD :: string where
  "ERR_NOT_HELD = ''ERR not held''"

definition ERR_ALREADY_HELD :: string where
  "ERR_ALREADY_HELD = ''ERR already held''"

definition ERR_UNKNOWN_COMMAND_PREFIX :: string where
  "ERR_UNKNOWN_COMMAND_PREFIX = ''ERR unknown command ''"

lemmas err_defs = ERR_INVALID_LOCK_NAME_def ERR_LINE_TOO_LONG_def ERR_NOT_HELD_def
  ERR_ALREADY_HELD_def ERR_UNKNOWN_COMMAND_PREFIX_def

type_synonym client_id = u64

definition lock_name_char :: "char \<Rightarrow> bool" where
  "lock_name_char c \<longleftrightarrow>
     byte_in 48 57 c \<or> byte_in 65 90 c \<or> byte_in 97 122 c \<or>
     c = CHR ''_'' \<or> c = CHR ''.'' \<or> c = CHR '':'' \<or> c = CHR ''-''"

definition is_valid_lock_name :: "string \<Rightarrow> bool" where
  "is_valid_lock_name n \<longleftrightarrow> n \<noteq> [] \<and> length n \<le> MAX_LOCK_NAME \<and> list_all lock_name_char n"

declare is_valid_lock_name_def [proto_simps]
  MAX_LOCK_NAME_def [proto_simps]
  lock_name_char_def [proto_simps]
  byte_in_def [proto_simps]

datatype request =
    Acquire string
  | TryAcquire string
  | Release string
  | Status string
  | List_Locks

datatype response =
    Ok
  | Granted string
  | Denied string
  | StatusFree string usize
  | StatusHeld string client_id usize
  | ListBegin
  | ListEntry string
  | ListEnd
  | Err string

section \<open>Parsing helpers\<close>

definition split_first :: "string \<Rightarrow> string \<times> string option" where
  "split_first s = (case split_once CHR '' '' s of Some (h, t) \<Rightarrow> (h, Some t) | None \<Rightarrow> (s, None))"

definition take_lock_name_strict :: "string option \<Rightarrow> string option" where
  "take_lock_name_strict rest =
     (case rest of
        None \<Rightarrow> None
      | Some name \<Rightarrow>
          if CHR '' '' \<in> set name \<or> \<not> is_valid_lock_name name then None else Some name)"

definition take_lock_name_lenient :: "string option \<Rightarrow> string option" where
  "take_lock_name_lenient rest =
     (case rest of
        None \<Rightarrow> None
      | Some r \<Rightarrow> (let name = fst (split_first r) in
                   if \<not> is_valid_lock_name name then None else Some name))"

section \<open>Requests\<close>

definition parse_request :: "string \<Rightarrow> request option" where
  "parse_request s =
     (case split_first s of (verb, rest) \<Rightarrow>
        if verb = ''ACQUIRE'' then map_option Acquire (take_lock_name_strict rest)
        else if verb = ''TRY_ACQUIRE'' then map_option TryAcquire (take_lock_name_strict rest)
        else if verb = ''RELEASE'' then map_option Release (take_lock_name_strict rest)
        else if verb = ''STATUS'' then map_option Status (take_lock_name_strict rest)
        else if verb = ''LIST'' \<and> rest = None then Some List_Locks
        else None)"

fun show_request :: "request \<Rightarrow> string" where
  "show_request (Acquire n) = ''ACQUIRE '' @ n"
| "show_request (TryAcquire n) = ''TRY_ACQUIRE '' @ n"
| "show_request (Release n) = ''RELEASE '' @ n"
| "show_request (Status n) = ''STATUS '' @ n"
| "show_request List_Locks = ''LIST''"

fun request_name :: "request \<Rightarrow> string option" where
  "request_name (Acquire n) = Some n"
| "request_name (TryAcquire n) = Some n"
| "request_name (Release n) = Some n"
| "request_name (Status n) = Some n"
| "request_name List_Locks = None"

definition valid_request :: "request \<Rightarrow> bool" where
  "valid_request r \<longleftrightarrow> (case request_name r of None \<Rightarrow> True | Some n \<Rightarrow> is_valid_lock_name n)"

section \<open>Responses\<close>

definition parse_status :: "string \<Rightarrow> response option" where
  "parse_status s =
     (case split_first s of (name, rest) \<Rightarrow>
        if \<not> is_valid_lock_name name then None
        else (case rest of
          None \<Rightarrow> None
        | Some rest \<Rightarrow>
            (case split_first rest of (kind, rest) \<Rightarrow>
               if kind = ''FREE'' then
                 (case rest of
                    None \<Rightarrow> None
                  | Some rest \<Rightarrow> map_option (StatusFree name) (parse_u64 (fst (split_first rest))))
               else if kind = ''HELD'' then
                 (case rest of
                    None \<Rightarrow> None
                  | Some rest \<Rightarrow>
                      (case split_first rest of (holder_s, rest) \<Rightarrow>
                         (case rest of
                            None \<Rightarrow> None
                          | Some rest \<Rightarrow>
                              (case parse_u64 holder_s of
                                 None \<Rightarrow> None
                               | Some holder \<Rightarrow>
                                   map_option (StatusHeld name holder)
                                     (parse_u64 (fst (split_first rest)))))))
               else None)))"

definition parse_response :: "string \<Rightarrow> response option" where
  "parse_response s =
     (case split_first s of (verb, rest) \<Rightarrow>
        if verb = ''OK'' then Some Ok
        else if verb = ''LIST'' then Some ListBegin
        else if verb = ''END'' then Some ListEnd
        else if verb = ''ERR'' then Some (Err (case rest of None \<Rightarrow> '''' | Some m \<Rightarrow> m))
        else if verb = ''GRANTED'' then map_option Granted (take_lock_name_lenient rest)
        else if verb = ''DENIED'' then map_option Denied (take_lock_name_lenient rest)
        else if verb = ''STATUS'' then (case rest of None \<Rightarrow> None | Some r \<Rightarrow> parse_status r)
        else if rest = None \<and> is_valid_lock_name verb then Some (ListEntry verb)
        else None)"

fun show_response :: "response \<Rightarrow> string" where
  "show_response Ok = ''OK''"
| "show_response (Granted n) = ''GRANTED '' @ n"
| "show_response (Denied n) = ''DENIED '' @ n"
| "show_response (StatusFree name waiters) = ''STATUS '' @ name @ '' FREE '' @ show_u64 waiters"
| "show_response (StatusHeld name holder waiters) =
     ''STATUS '' @ name @ '' HELD '' @ show_u64 holder @ '' '' @ show_u64 waiters"
| "show_response ListBegin = ''LIST''"
| "show_response (ListEntry n) = n"
| "show_response ListEnd = ''END''"
| "show_response (Err msg) = (if msg = [] then ''ERR'' else ''ERR '' @ msg)"

section \<open>Lock names and the splitter\<close>

lemma space_not_name [simp]: "\<not> lock_name_char CHR '' ''"
  by (simp add: lock_name_char_def byte_in_def)

lemma valid_name_no_space: "is_valid_lock_name n \<Longrightarrow> CHR '' '' \<notin> set n"
  by (auto simp: is_valid_lock_name_def list_all_iff)

lemma split_first_word [simp]: "CHR '' '' \<notin> set w \<Longrightarrow> split_first w = (w, None)"
  by (simp add: split_first_def split_once_None [THEN iffD2])

lemma split_first_Cons [simp]:
  "split_first (c # s) =
     (if c = CHR '' '' then ([], Some s)
      else (case split_first s of (h, t) \<Rightarrow> (c # h, t)))"
  by (simp add: split_first_def split_once_Cons split: option.split)

lemma split_first_append [simp]:
  "CHR '' '' \<notin> set w \<Longrightarrow> split_first (w @ CHR '' '' # s) = (w, Some s)"
  by (simp add: split_first_def)

lemma split_first_Some: "split_first s = (h, Some t) \<longleftrightarrow> s = h @ '' '' @ t \<and> CHR '' '' \<notin> set h"
proof -
  have "split_first s = (h, Some t) \<longleftrightarrow> split_once CHR '' '' s = Some (h, t)"
    by (auto simp: split_first_def split: option.split)
  then show ?thesis by (simp add: split_once_Some)
qed

lemma split_first_None: "split_first s = (h, None) \<longleftrightarrow> s = h \<and> CHR '' '' \<notin> set h"
proof -
  have "split_first s = (h, None) \<longleftrightarrow> split_once CHR '' '' s = None \<and> s = h"
    by (auto simp: split_first_def split: option.split)
  then show ?thesis by (auto simp: split_once_None)
qed

lemma take_strict_iff:
  "take_lock_name_strict rest = Some n \<longleftrightarrow> rest = Some n \<and> is_valid_lock_name n"
  by (auto simp: take_lock_name_strict_def valid_name_no_space split: option.splits if_splits)

lemma parse_request_printed:
  "parse_request s = Some r \<longleftrightarrow> valid_request r \<and> s = show_request r"
proof
  assume p: "parse_request s = Some r"
  obtain verb rest where v: "split_first s = (verb, rest)" by fastforce
  show "valid_request r \<and> s = show_request r"
  proof (cases rest)
    case None
    with p v show ?thesis
      by (auto simp: parse_request_def valid_request_def take_strict_iff split_first_None
          split: if_splits)
  next
    case (Some t)
    with v have s: "s = verb @ '' '' @ t" by (simp add: split_first_Some)
    from p v Some show ?thesis unfolding s
      by (auto simp: parse_request_def valid_request_def take_strict_iff split: if_splits)
  qed
next
  assume "valid_request r \<and> s = show_request r"
  then show "parse_request s = Some r"
    by (cases r) (simp_all add: parse_request_def valid_request_def take_strict_iff)
qed

text \<open>C29. Request round trip, both ways: the strict parser accepts exactly the printed forms of the
  requests with a valid lock name, and returns the request that was printed.\<close>

theorem parse_request_iff:
  "parse_request s = Some r \<longleftrightarrow> valid_request r \<and> s = show_request r"
  by (rule parse_request_printed)

text \<open>The verbs of the response grammar.  A lock may be named like one of them.\<close>

definition response_verbs :: "string list" where
  "response_verbs = [''OK'', ''LIST'', ''END'', ''ERR'', ''GRANTED'', ''DENIED'', ''STATUS'']"

definition wf_response :: "response \<Rightarrow> bool" where
  "wf_response r \<longleftrightarrow>
     (case r of
        Granted n \<Rightarrow> is_valid_lock_name n
      | Denied n \<Rightarrow> is_valid_lock_name n
      | StatusFree n w \<Rightarrow> is_valid_lock_name n
      | StatusHeld n h w \<Rightarrow> is_valid_lock_name n
      | ListEntry n \<Rightarrow> is_valid_lock_name n \<and> n \<notin> set response_verbs
      | _ \<Rightarrow> True)"

lemma parse_status_show:
  assumes "is_valid_lock_name n"
  shows "parse_status (n @ '' FREE '' @ show_u64 w) = Some (StatusFree n w)"
    and "parse_status (n @ '' HELD '' @ show_u64 h @ '' '' @ show_u64 w) = Some (StatusHeld n h w)"
    and "parse_status (n @ '' FREE '' @ show_u64 w @ '' '' @ x) = Some (StatusFree n w)"
    and "parse_status (n @ '' HELD '' @ show_u64 h @ '' '' @ show_u64 w @ '' '' @ x) = Some (StatusHeld n h w)"
  using assms valid_name_no_space [OF assms] by (simp_all add: parse_status_def)

lemma lenient_word [simp]:
  "is_valid_lock_name n \<Longrightarrow> take_lock_name_lenient (Some n) = Some n"
  "is_valid_lock_name n \<Longrightarrow> take_lock_name_lenient (Some (n @ CHR '' '' # x)) = Some n"
  using valid_name_no_space [of n] by (simp_all add: take_lock_name_lenient_def)

lemma parse_show:
  assumes "wf_response r"
  shows "parse_response (show_response r) = Some r"
proof (cases r)
  case (ListEntry n)
  with assms have "is_valid_lock_name n" "n \<notin> set response_verbs" by (auto simp: wf_response_def)
  with valid_name_no_space [of n] ListEntry show ?thesis
    by (simp add: parse_response_def response_verbs_def)
qed (use assms in \<open>simp_all add: parse_response_def wf_response_def parse_status_show [simplified]\<close>)


text \<open>Forward compatibility: extra tokens a newer server appends to a response other than a list
  entry or an error are ignored.\<close>

theorem parse_response_ignores_tail:
  assumes "wf_response r" and "\<nexists>n. r = ListEntry n" and "\<nexists>m. r = Err m"
  shows "parse_response (show_response r @ '' '' @ extra) = Some r"
  using assms
  by (cases r) (simp_all add: parse_response_def wf_response_def parse_status_show [simplified])

text \<open>A lock named like a response verb cannot be listed: the entry line of a \<^verbatim>\<open>LIST\<close> reply for
  such a (valid) name is read back as another message, or rejected; \<^verbatim>\<open>END\<close> ends the list early.\<close>

theorem list_entry_verb_confused:
  "(\<forall>n \<in> set response_verbs. is_valid_lock_name n \<and> parse_response (show_response (ListEntry n)) \<noteq> Some (ListEntry n))
   \<and> parse_response (show_response (ListEntry ''END'')) = Some ListEnd"
  by (simp add: response_verbs_def proto_simps
      parse_response_def take_lock_name_lenient_def)


theorem parse_response_ignores_tail_witness:
  "parse_response (show_response (Granted ''foo'') @ '' '' @ ''surprise arg'') = Some (Granted ''foo'')"
  by (rule parse_response_ignores_tail)
    (simp_all add: wf_response_def proto_simps)

end
