(* ===== verification/Framer.thy ===== *)
theory Framer
  imports Protocol
begin

text \<open>
  \<^verbatim>\<open>LineFramer\<close> of \<^verbatim>\<open>locks/src/lib.rs\<close>: the buffering line reader and the double-buffered
  non-blocking writer.  The socket is the environment: a read-to-end call is given the bytes it
  appended and how it ended, a flush is given the answers of the successive \<^verbatim>\<open>write\<close> calls (a socket
  that has run out of answers would block).  Bytes are \<^typ>\<open>char\<close>s.
\<close>

section \<open>State\<close>

record reader =
  rbuf :: string
  rtail :: nat

text \<open>The array \<^verbatim>\<open>bufs: [Vec<u8>; 2]\<close> is a pair and the index \<^verbatim>\<open>active\<close>, which is 0 or 1, a truth
  value; \<^verbatim>\<open>active ^ 1\<close> is its negation.\<close>

record writer =
  bufs :: "string \<times> string"
  active :: bool
  cursor :: nat

record framer =
  framer_reader :: reader
  framer_writer :: writer

definition framer_new :: framer where
  "framer_new = \<lparr> framer_reader = \<lparr> rbuf = [], rtail = 0 \<rparr>,
                  framer_writer = \<lparr> bufs = ([], []), active = False, cursor = 0 \<rparr> \<rparr>"

definition buf_at :: "writer \<Rightarrow> bool \<Rightarrow> string" where
  "buf_at w i = (if i then snd (bufs w) else fst (bufs w))"

definition set_buf :: "writer \<Rightarrow> bool \<Rightarrow> string \<Rightarrow> writer" where
  "set_buf w i bs = w\<lparr>bufs := (if i then (fst (bufs w), bs) else (bs, snd (bufs w)))\<rparr>"

lemma buf_at_set_buf [simp]:
  "buf_at (set_buf w i bs) j = (if i = j then bs else buf_at w j)"
  "active (set_buf w i bs) = active w" "cursor (set_buf w i bs) = cursor w"
  "buf_at (w\<lparr>cursor := n\<rparr>) j = buf_at w j" "buf_at (w\<lparr>active := k\<rparr>) j = buf_at w j"
  by (auto simp: buf_at_def set_buf_def)

definition write_buffer_empty :: "writer \<Rightarrow> bool" where
  "write_buffer_empty w \<longleftrightarrow>
     buf_at w (active w) = [] \<and> length (buf_at w (\<not> active w)) \<le> cursor w"

section \<open>Reading\<close>

datatype read_end = Read_Eof | Read_WouldBlock | Read_Failed

datatype refresh_error = UnexpectedEof | Refresh_Io

definition refresh :: "string \<Rightarrow> read_end \<Rightarrow> reader \<Rightarrow> (refresh_error + unit) \<times> reader" where
  "refresh bs e r =
     (let r' = r\<lparr>rbuf := rbuf r @ bs\<rparr> in
      (case e of
         Read_Eof \<Rightarrow> (if length bs = 0 then Inl UnexpectedEof else Inr (), r')
       | Read_WouldBlock \<Rightarrow> (Inr (), r')
       | Read_Failed \<Rightarrow> (Inl Refresh_Io, r')))"

definition compact :: "reader \<Rightarrow> reader" where
  "compact r =
     (if length (rbuf r) = rtail r then r\<lparr>rbuf := [], rtail := 0\<rparr>
      else if length (rbuf r) div 2 \<le> rtail r then r\<lparr>rbuf := drop (rtail r) (rbuf r), rtail := 0\<rparr>
      else r)"

datatype frame_error = Frame_Io | LineTooLong | InvalidUtf8

definition NL :: char where "NL = CHR 0x0A"
definition CR :: char where "CR = CHR 0x0D"

fun position :: "('a \<Rightarrow> bool) \<Rightarrow> 'a list \<Rightarrow> nat option" where
  "position P [] = None"
| "position P (x # xs) = (if P x then Some 0 else map_option Suc (position P xs))"

definition next_line :: "reader \<Rightarrow> (frame_error + string option) \<times> reader" where
  "next_line r =
     (let slice = drop (rtail r) (rbuf r) in
      (case position (\<lambda>b. b = NL) slice of
         Some idx \<Rightarrow>
           (let end = rtail r + idx;
                line_end = (if end > rtail r \<and> rbuf r ! (end - 1) = CR then end - 1 else end);
                bytes = take (line_end - rtail r) (drop (rtail r) (rbuf r));
                r' = compact (r\<lparr>rtail := end + 1\<rparr>)
            in (if valid_utf8 bytes then Inr (Some bytes) else Inl InvalidUtf8, r'))
       | None \<Rightarrow>
           if length slice \<ge> MAX_LINE then (Inl LineTooLong, r\<lparr>rbuf := [], rtail := 0\<rparr>)
           else (Inr None, r)))"

section \<open>Writing\<close>

datatype write_answer = Wrote nat | Interrupted | WouldBlock | Write_Failed

datatype flush_result = Flushed | Pending | WriteZero | Flush_Io

definition write_all :: "string \<Rightarrow> writer \<Rightarrow> writer" where
  "write_all bs w = set_buf w (active w) (buf_at w (active w) @ bs)"

text \<open>The result, the writer, the bytes the socket accepted, the answers left over.  The socket never
  accepts more than it was offered.\<close>

function flush_nonblocking ::
    "writer \<Rightarrow> write_answer list \<Rightarrow> flush_result \<times> writer \<times> string \<times> write_answer list" where
  "flush_nonblocking w ans =
     (let drain_idx = (\<not> active w); drain = buf_at w drain_idx in
      if length drain \<le> cursor w then
        (if buf_at w (active w) = [] then (Flushed, w, [], ans)
         else flush_nonblocking ((set_buf w drain_idx [])\<lparr>cursor := 0, active := drain_idx\<rparr>) ans)
      else (let buf = drop (cursor w) drain in
        (case ans of
           [] \<Rightarrow> (Pending, w, [], [])
         | Wrote n # ans \<Rightarrow>
             (if n = 0 then (WriteZero, w, [], ans)
              else (case flush_nonblocking (w\<lparr>cursor := cursor w + min n (length buf)\<rparr>) ans of
                      (r, w', out, ans') \<Rightarrow> (r, w', take n buf @ out, ans')))
         | Interrupted # ans \<Rightarrow> flush_nonblocking w ans
         | WouldBlock # ans \<Rightarrow> (Pending, w, [], ans)
         | Write_Failed # ans \<Rightarrow> (Flush_Io, w, [], ans))))"
  by pat_completeness auto
termination
  by (relation "measure (\<lambda>(w, ans). 2 * length ans +
        (if length (buf_at w (\<not> active w)) \<le> cursor w then 1 else 0))") auto

declare flush_nonblocking.simps [simp del]

section \<open>The writer loses and reorders nothing\<close>

text \<open>The bytes accepted by \<^verbatim>\<open>write\<close> and not yet by the socket, in order.\<close>

definition pending :: "writer \<Rightarrow> string" where
  "pending w = drop (cursor w) (buf_at w (\<not> active w)) @ buf_at w (active w)"

lemma pending_write_all [simp]: "pending (write_all bs w) = pending w @ bs"
  by (simp add: pending_def write_all_def)

lemma pending_swap:
  "length (buf_at w (\<not> active w)) \<le> cursor w \<Longrightarrow>
     pending ((set_buf w (\<not> active w) [])\<lparr>cursor := 0, active := \<not> active w\<rparr>) = pending w"
  by (simp add: pending_def)

lemma pending_empty: "write_buffer_empty w \<longleftrightarrow> pending w = []"
  by (auto simp: write_buffer_empty_def pending_def)

text \<open>The equations of the loop body, one per branch.\<close>

lemma flush_eqs:
  "length (buf_at w (\<not> active w)) \<le> cursor w \<Longrightarrow> buf_at w (active w) = [] \<Longrightarrow>
     flush_nonblocking w ans = (Flushed, w, [], ans)"
  "length (buf_at w (\<not> active w)) \<le> cursor w \<Longrightarrow> buf_at w (active w) \<noteq> [] \<Longrightarrow>
     flush_nonblocking w ans =
       flush_nonblocking ((set_buf w (\<not> active w) [])\<lparr>cursor := 0, active := \<not> active w\<rparr>) ans"
  "cursor w < length (buf_at w (\<not> active w)) \<Longrightarrow> flush_nonblocking w [] = (Pending, w, [], [])"
  "cursor w < length (buf_at w (\<not> active w)) \<Longrightarrow> 0 < n \<Longrightarrow>
     flush_nonblocking w (Wrote n # ans) =
       (case flush_nonblocking (w\<lparr>cursor := cursor w +
            min n (length (drop (cursor w) (buf_at w (\<not> active w))))\<rparr>) ans of
          (r, w', out, ans') \<Rightarrow> (r, w', take n (drop (cursor w) (buf_at w (\<not> active w))) @ out, ans'))"
  "cursor w < length (buf_at w (\<not> active w)) \<Longrightarrow>
     flush_nonblocking w (Wrote 0 # ans) = (WriteZero, w, [], ans)"
  "cursor w < length (buf_at w (\<not> active w)) \<Longrightarrow>
     flush_nonblocking w (Interrupted # ans) = flush_nonblocking w ans"
  "cursor w < length (buf_at w (\<not> active w)) \<Longrightarrow>
     flush_nonblocking w (WouldBlock # ans) = (Pending, w, [], ans)"
  "cursor w < length (buf_at w (\<not> active w)) \<Longrightarrow>
     flush_nonblocking w (Write_Failed # ans) = (Flush_Io, w, [], ans)"
  by (subst flush_nonblocking.simps, simp add: Let_def)+

lemma pending_advance:
  "take n (drop (cursor w) (buf_at w (\<not> active w))) @
     pending (w\<lparr>cursor := cursor w + min n (length (drop (cursor w) (buf_at w (\<not> active w))))\<rparr>) = pending w"
proof -
  let ?d = "drop (cursor w) (buf_at w (\<not> active w))"
  have d: "drop (cursor w + min n (length ?d)) (buf_at w (\<not> active w)) = drop n ?d"
    by (cases "n \<le> length ?d") (auto simp: min_def add.commute)
  have p: "pending (w\<lparr>cursor := c\<rparr>) = drop c (buf_at w (\<not> active w)) @ buf_at w (active w)" for c
    by (simp add: pending_def)
  show ?thesis unfolding p d unfolding pending_def
    by (simp only: append_assoc [symmetric] append_take_drop_id)
qed

lemma pending_stuck:
  "cursor w < length (buf_at w (\<not> active w)) \<Longrightarrow> pending w \<noteq> []"
  by (simp add: pending_def)

lemma flush_pending:
  "flush_nonblocking w ans = (r, w', out, rest) \<Longrightarrow>
     out @ pending w' = pending w \<and> (r = Flushed \<longleftrightarrow> pending w' = [])"
proof (induction w ans arbitrary: r w' out rest rule: flush_nonblocking.induct)
  case (1 w ans)
  show ?case
  proof (cases "length (buf_at w (\<not> active w)) \<le> cursor w")
    case True
    show ?thesis
    proof (cases "buf_at w (active w) = []")
      case empty: True
      with True "1.prems" show ?thesis by (auto simp: flush_eqs(1) pending_def)
    next
      case False
      from "1.IH"(1) [OF refl refl True False] "1.prems" show ?thesis
        unfolding flush_eqs(2) [OF True False] by (simp add: pending_swap [OF True])
    qed
  next
    case False
    then have lt: "cursor w < length (buf_at w (\<not> active w))" by simp
    note IH = "1.IH"(2-) [OF refl refl False refl] and eqs = flush_eqs(3-) [OF lt]
      and stuck = pending_stuck [OF lt]
    show ?thesis
    proof (cases ans)
      case Nil
      with "1.prems" eqs(1) stuck show ?thesis by auto
    next
      case (Cons a ans')
      show ?thesis
      proof (cases a)
        case (Wrote n)
        show ?thesis
        proof (cases "n = 0")
          case True
          with Cons Wrote "1.prems" eqs(3) stuck show ?thesis by auto
        next
          case pos: False
          from "1.prems" pos obtain out1 where
            "flush_nonblocking (w\<lparr>cursor := cursor w +
                min n (length (drop (cursor w) (buf_at w (\<not> active w))))\<rparr>) ans' = (r, w', out1, rest)"
            and "out = take n (drop (cursor w) (buf_at w (\<not> active w))) @ out1"
            unfolding Cons Wrote by (auto simp: eqs(2) split: prod.splits)
          with IH(1) [OF Cons Wrote pos] pending_advance [of n w] show ?thesis by auto
        qed
      next
        case Interrupted
        with IH(2) [OF Cons] "1.prems" eqs(4) Cons show ?thesis by simp
      qed (use Cons "1.prems" eqs(5,6) stuck in auto)
    qed
  qed
qed

text \<open>C11. The double-buffered writer loses, duplicates and reorders nothing: the bytes a flush hands to
  the socket, followed by those still buffered, are the bytes that were buffered, whatever the sequence
  of short writes, interruptions and \<^verbatim>\<open>WouldBlock\<close>s; \<^verbatim>\<open>Ok(true)\<close> is returned exactly when nothing
  is left; and a \<^verbatim>\<open>write\<close> between flushes appends behind everything pending.\<close>

theorem flush_preserves_bytes:
  "(case flush_nonblocking w ans of (r, w', out, rest) \<Rightarrow>
      out @ pending w' = pending w \<and> (r = Flushed \<longleftrightarrow> write_buffer_empty w')) \<and>
   pending (write_all bs w) = pending w @ bs"
  using flush_pending [of w ans] by (auto simp: pending_empty split: prod.splits)

section \<open>The reader yields the lines of the byte stream\<close>

text \<open>The bytes received and not yet returned as lines.\<close>

definition unread :: "reader \<Rightarrow> string" where
  "unread r = drop (rtail r) (rbuf r)"

definition reader_ok :: "reader \<Rightarrow> bool" where
  "reader_ok r \<longleftrightarrow> rtail r \<le> length (rbuf r)"

definition strip_cr :: "string \<Rightarrow> string" where
  "strip_cr l = (if l \<noteq> [] \<and> last l = CR then butlast l else l)"

text \<open>The abstract reader works on the unread bytes alone.\<close>

definition line_spec :: "string \<Rightarrow> (frame_error + string option) \<times> string" where
  "line_spec u =
     (case split_once NL u of
        Some (l, rest) \<Rightarrow>
          (if valid_utf8 (strip_cr l) then Inr (Some (strip_cr l)) else Inl InvalidUtf8, rest)
      | None \<Rightarrow> if MAX_LINE \<le> length u then (Inl LineTooLong, []) else (Inr None, u))"

lemma position_Some:
  "position P xs = Some i \<longleftrightarrow> i < length xs \<and> P (xs ! i) \<and> (\<forall>j < i. \<not> P (xs ! j))"
  by (induction xs arbitrary: i) (auto simp: less_Suc_eq_0_disj nth_Cons split: nat.splits)

lemma position_None: "position P xs = None \<longleftrightarrow> (\<forall>x \<in> set xs. \<not> P x)"
  by (induction xs) auto

lemma position_split_once:
  "position (\<lambda>b. b = c) u = map_option (length \<circ> fst) (split_once c u)"
  by (induction u) (auto simp: split_once_Cons split: option.splits, simp add: split_once_def)

lemma unread_compact [simp]: "reader_ok r \<Longrightarrow> unread (compact r) = unread r"
  by (auto simp: unread_def compact_def reader_ok_def)

lemma reader_ok_compact [simp]: "reader_ok r \<Longrightarrow> reader_ok (compact r)"
  by (auto simp: reader_ok_def compact_def)

lemma next_line_found:
  assumes ok: "reader_ok r" and sp: "split_once NL (unread r) = Some (l, rest)"
  shows "next_line r =
    (if valid_utf8 (strip_cr l) then Inr (Some (strip_cr l)) else Inl InvalidUtf8,
     compact (r\<lparr>rtail := rtail r + length l + 1\<rparr>))"
    and "unread (r\<lparr>rtail := rtail r + length l + 1\<rparr>) = rest"
    and "reader_ok (r\<lparr>rtail := rtail r + length l + 1\<rparr>)"
proof -
  have u: "drop (rtail r) (rbuf r) = l @ NL # rest"
    using sp by (simp add: split_once_Some unread_def)
  have pos: "position (\<lambda>b. b = NL) (drop (rtail r) (rbuf r)) = Some (length l)"
    using sp by (simp add: position_split_once unread_def)
  have at: "rbuf r ! (rtail r + i) = (l @ NL # rest) ! i" for i
    using ok u by (metis nth_drop reader_ok_def)
  have len: "length (rbuf r) = rtail r + length l + 1 + length rest"
    using ok arg_cong [OF u, of length] by (simp add: reader_ok_def)
  show "unread (r\<lparr>rtail := rtail r + length l + 1\<rparr>) = rest"
    using arg_cong [OF u, of "drop (length l + 1)"] by (simp add: unread_def add.commute add.left_commute)
  show "reader_ok (r\<lparr>rtail := rtail r + length l + 1\<rparr>)" using len by (simp add: reader_ok_def)
  have "take ((if rtail r + length l > rtail r \<and> rbuf r ! (rtail r + length l - 1) = CR
           then rtail r + length l - 1 else rtail r + length l) - rtail r) (drop (rtail r) (rbuf r))
        = strip_cr l"
  proof (cases l rule: rev_cases)
    case Nil
    then show ?thesis by (simp add: strip_cr_def)
  next
    case (snoc l' c)
    have "rbuf r ! (rtail r + length l - 1) = c"
      using at [of "length l'"] snoc by (simp add: nth_append)
    with snoc u show ?thesis by (simp add: strip_cr_def)
  qed
  with pos show "next_line r =
    (if valid_utf8 (strip_cr l) then Inr (Some (strip_cr l)) else Inl InvalidUtf8,
     compact (r\<lparr>rtail := rtail r + length l + 1\<rparr>))"
    by (simp add: next_line_def Let_def)
qed

lemma next_line_refines_aux:
  assumes "reader_ok r"
  shows "(case next_line r of (res, r') \<Rightarrow> (res, unread r')) = line_spec (unread r)
         \<and> reader_ok (snd (next_line r))"
proof (cases "split_once NL (unread r)")
  case None
  then have "position (\<lambda>b. b = NL) (drop (rtail r) (rbuf r)) = None"
    by (simp add: position_split_once unread_def)
  with None assms show ?thesis
    by (simp add: next_line_def line_spec_def unread_def reader_ok_def Let_def)
next
  case (Some p)
  then obtain l rest where "split_once NL (unread r) = Some (l, rest)" by (cases p) simp
  with next_line_found [OF assms this] show ?thesis by (simp add: line_spec_def)
qed

text \<open>\<^verbatim>\<open>next_line\<close> refines the abstract reader: with the buffer offset and its compaction hidden,
  it returns the text up to the first newline less one trailing carriage return, reports
  \<^verbatim>\<open>LineTooLong\<close> and forgets the bytes exactly when 4096 or more are buffered with no newline among
  them, and otherwise leaves everything in place.\<close>

theorem next_line_refines:
  assumes "reader_ok r"
  shows "(case next_line r of (res, r') \<Rightarrow> (res, unread r')) = line_spec (unread r)
         \<and> reader_ok (snd (next_line r))"
  using assms by (rule next_line_refines_aux)

section \<open>Fragmentation\<close>

text \<open>The loop with which the server drains the complete lines after a \<^verbatim>\<open>refresh\<close>, the processing of
  each line left out: the lines, the framing error that ended the loop if any, and the reader.\<close>

lemma next_line_ok: "next_line r = (Inr (Some l), r') \<Longrightarrow> reader_ok r"
  by (cases "rtail r \<le> length (rbuf r)") (auto simp: next_line_def reader_ok_def Let_def MAX_LINE_def)

lemma line_spec_shorter: "line_spec u = (Inr (Some l), rest) \<Longrightarrow> length rest < length u"
  by (auto simp: line_spec_def split_once_Some split: option.splits if_splits)

lemma next_line_shorter:
  assumes "next_line r = (Inr (Some l), r')"
  shows "length (unread r') < length (unread r)"
proof -
  have "line_spec (unread r) = (Inr (Some l), unread r')"
    using next_line_refines_aux [OF next_line_ok [OF assms]] assms by simp
  then show ?thesis by (rule line_spec_shorter)
qed

function read_lines :: "reader \<Rightarrow> string list \<times> frame_error option \<times> reader" where
  "read_lines r =
     (case next_line r of
        (Inr (Some l), r') \<Rightarrow> (case read_lines r' of (ls, e, r'') \<Rightarrow> (l # ls, e, r''))
      | (Inr None, r') \<Rightarrow> ([], None, r')
      | (Inl e, r') \<Rightarrow> ([], Some e, r'))"
  by pat_completeness auto
termination
  by (relation "measure (length \<circ> unread)") (auto dest!: next_line_shorter [OF sym])

function drain_spec :: "string \<Rightarrow> string list \<times> frame_error option \<times> string" where
  "drain_spec u =
     (case line_spec u of
        (Inr (Some l), u') \<Rightarrow> (case drain_spec u' of (ls, e, u'') \<Rightarrow> (l # ls, e, u''))
      | (Inr None, u') \<Rightarrow> ([], None, u')
      | (Inl e, u') \<Rightarrow> ([], Some e, u'))"
  by pat_completeness auto
termination
  by (relation "measure length") (auto dest!: line_spec_shorter [OF sym])

declare read_lines.simps [simp del] drain_spec.simps [simp del]

lemma read_lines_refines:
  "reader_ok r \<Longrightarrow> (case read_lines r of (ls, e, r') \<Rightarrow> (ls, e, unread r')) = drain_spec (unread r) \<and>
     reader_ok (snd (snd (read_lines r)))"
proof (induction r rule: read_lines.induct)
  case (1 r)
  obtain res n where n: "next_line r = (res, n)" by fastforce
  with next_line_refines_aux [OF "1.prems"]
  have sp: "line_spec (unread r) = (res, unread n)" and ok: "reader_ok n" by auto
  show ?case
  proof (cases "\<exists>l. res = Inr (Some l)")
    case True
    then obtain l where l: "res = Inr (Some l)" by blast
    obtain ls e m where m: "read_lines n = (ls, e, m)" by (metis prod_cases3)
    from "1.IH" [OF n [unfolded l, symmetric] refl refl ok] m
    have "drain_spec (unread n) = (ls, e, unread m)" "reader_ok m" by auto
    with n sp l m show ?thesis
      by (simp add: read_lines.simps [of r] drain_spec.simps [of "unread r"])
  next
    case False
    with n sp ok show ?thesis
      by (auto simp: read_lines.simps [of r] drain_spec.simps [of "unread r"]
          split: sum.splits option.splits)
  qed
qed

lemma line_spec_append:
  assumes "line_spec u = (Inr (Some l), rest)"
  shows "line_spec (u @ v) = (Inr (Some l), rest @ v)"
proof -
  from assms obtain h where "u = h @ NL # rest" "NL \<notin> set h" "l = strip_cr h" "valid_utf8 l"
    by (auto simp: line_spec_def split_once_Some split: option.splits if_splits)
  then show ?thesis by (simp add: line_spec_def)
qed

lemma drain_spec_append:
  "drain_spec u = (ls, None, u') \<Longrightarrow> drain_spec (u' @ v) = (ls', e, u'') \<Longrightarrow>
     drain_spec (u @ v) = (ls @ ls', e, u'')"
proof (induction u arbitrary: ls rule: drain_spec.induct)
  case (1 u)
  obtain res n where n: "line_spec u = (res, n)" by fastforce
  show ?case
  proof (cases "\<exists>l. res = Inr (Some l)")
    case True
    then obtain l where l: "res = Inr (Some l)" by blast
    with n "1.prems"(1) obtain ls0 where ls: "drain_spec n = (ls0, None, u')" "ls = l # ls0"
      by (auto simp: drain_spec.simps [of u] split: prod.splits)
    from "1.IH" [OF n [unfolded l, symmetric] refl refl ls(1) "1.prems"(2)]
    have "drain_spec (n @ v) = (ls0 @ ls', e, u'')" .
    with line_spec_append [OF n [unfolded l], of v] ls(2) show ?thesis
      by (simp add: drain_spec.simps [of "u @ v"])
  next
    case False
    with n "1.prems"(1) have "ls = []" "u' = n" "res = Inr None"
      by (auto simp: drain_spec.simps [of u] split: sum.splits option.splits)
    moreover from this n have "n = u"
      by (auto simp: line_spec_def split: option.splits if_splits)
    ultimately show ?thesis using "1.prems"(2) by simp
  qed
qed

fun feed :: "reader \<Rightarrow> string list \<Rightarrow> string list \<times> frame_error option \<times> reader" where
  "feed r [] = ([], None, r)"
| "feed r (bs # fs) =
     (case read_lines (snd (refresh bs Read_WouldBlock r)) of
        (ls, None, r') \<Rightarrow> (case feed r' fs of (ls', e, r'') \<Rightarrow> (ls @ ls', e, r''))
      | (ls, Some e, r') \<Rightarrow> (ls, Some e, r'))"

lemma unread_refresh:
  "reader_ok r \<Longrightarrow> unread (snd (refresh bs e r)) = unread r @ bs"
  "reader_ok r \<Longrightarrow> reader_ok (snd (refresh bs e r))"
  by (auto simp: refresh_def unread_def reader_ok_def Let_def split: read_end.split)

lemma drain_spec_idem:
  "drain_spec u = (ls, None, u') \<Longrightarrow> drain_spec u' = ([], None, u')"
proof (induction u arbitrary: ls rule: drain_spec.induct)
  case (1 u)
  obtain res n where n: "line_spec u = (res, n)" by fastforce
  show ?case
  proof (cases "\<exists>l. res = Inr (Some l)")
    case True
    then obtain l where l: "res = Inr (Some l)" by blast
    with n "1.prems" obtain ls0 where "drain_spec n = (ls0, None, u')"
      by (auto simp: drain_spec.simps [of u] split: prod.splits)
    from "1.IH" [OF n [unfolded l, symmetric] refl refl this] show ?thesis .
  next
    case False
    with n "1.prems" have "u' = n" "res = Inr None"
      by (auto simp: drain_spec.simps [of u] split: sum.splits option.splits)
    moreover from this n have "n = u"
      by (auto simp: line_spec_def split: option.splits if_splits)
    ultimately show ?thesis using n by (simp add: drain_spec.simps [of u])
  qed
qed

lemma feed_refines:
  "reader_ok r \<Longrightarrow> drain_spec (unread r) = ([], None, unread r) \<Longrightarrow> feed r fs = (ls, None, r') \<Longrightarrow>
     drain_spec (unread r @ concat fs) = (ls, None, unread r')"
proof (induction fs arbitrary: r ls)
  case Nil
  then show ?case by simp
next
  case (Cons bs fs)
  let ?r = "snd (refresh bs Read_WouldBlock r)"
  note ok = unread_refresh [OF Cons.prems(1), of bs Read_WouldBlock]
  from Cons.prems(3) obtain ls1 ls2 m where
    m: "read_lines ?r = (ls1, None, m)" "feed m fs = (ls2, None, r')" "ls = ls1 @ ls2"
    by (auto split: prod.splits option.splits)
  from read_lines_refines [OF ok(2)] m(1) ok(1)
  have d: "drain_spec (unread r @ bs) = (ls1, None, unread m)" and okm: "reader_ok m" by auto
  have "drain_spec (unread m) = ([], None, unread m)" by (rule drain_spec_idem [OF d])
  from Cons.IH [OF okm this m(2)]
  have "drain_spec (unread m @ concat fs) = (ls2, None, unread r')" .
  from drain_spec_append [OF d this] m(3) show ?case by simp
qed


text \<open>The length limit is not one on lines: a complete line longer than \<^verbatim>\<open>MAX_LINE\<close> is accepted
  when its newline has arrived with it, while the same bytes are rejected when the newline has not.\<close>

theorem long_line_accepted:
  assumes "NL \<notin> set l" and "MAX_LINE < length l" and "valid_utf8 l" and "last l \<noteq> CR"
  shows "fst (next_line \<lparr> rbuf = l @ [NL], rtail = 0 \<rparr>) = Inr (Some l) \<and>
         fst (next_line \<lparr> rbuf = l, rtail = 0 \<rparr>) = Inl LineTooLong"
proof -
  have "line_spec (l @ [NL]) = (Inr (Some l), [])"
    using assms by (simp add: line_spec_def strip_cr_def)
  moreover have "line_spec l = (Inl LineTooLong, [])"
    using assms by (simp add: line_spec_def split_once_None [THEN iffD2])
  ultimately show ?thesis
    using next_line_refines_aux [of "\<lparr> rbuf = l @ [NL], rtail = 0 \<rparr>"]
      next_line_refines_aux [of "\<lparr> rbuf = l, rtail = 0 \<rparr>"]
    by (auto simp: reader_ok_def unread_def split: prod.splits)
qed

section \<open>Witnesses\<close>

theorem next_line_refines_witness:
  "fst (next_line \<lparr> rbuf = ''LIST'' @ [CR, NL] @ ''x'', rtail = 0 \<rparr>) = Inr (Some ''LIST'')"
  using next_line_refines [of "\<lparr> rbuf = ''LIST'' @ [CR, NL] @ ''x'', rtail = 0 \<rparr>"]
  by (auto simp: reader_ok_def unread_def line_spec_def split_once_Cons NL_def CR_def strip_cr_def
      byte_in_def split: prod.splits)


theorem long_line_accepted_witness:
  "fst (next_line \<lparr> rbuf = replicate 5000 CHR ''A'' @ [NL], rtail = 0 \<rparr>) = Inr (Some (replicate 5000 CHR ''A''))"
proof -
  have "valid_utf8 (replicate 5000 CHR ''A'')" by (rule valid_utf8_ascii) (simp add: byte_in_def)
  moreover have "last (replicate 5000 CHR ''A'') \<noteq> CR" by (simp add: CR_def)
  ultimately show ?thesis
    using long_line_accepted [of "replicate 5000 CHR ''A''"] by (simp add: NL_def MAX_LINE_def)
qed

end
