(* ===== verification/Lock_Spec.thy ===== *)
theory Lock_Spec
  imports Protocol
begin

text \<open>
  The lock service both servers promise, without sockets, threads or data structures: the sessions with
  the names each holds, and for every name its holder and the queue of the clients waiting for it.
  The servers refine its steps; the locale \<open>lock_server\<close> states what such a refinement gives.
\<close>

type_synonym sessions = "client_id \<rightharpoonup> string set"
type_synonym lock_table = "string \<rightharpoonup> client_id option \<times> client_id list"
type_synonym lock_state = "sessions \<times> lock_table"

section \<open>Steps\<close>

text \<open>The lock goes to the oldest waiter, or becomes free.\<close>

definition hand_over :: "string \<Rightarrow> client_id list \<Rightarrow> lock_state \<Rightarrow> lock_state" where
  "hand_over n ws s =
     (case s of (V, M) \<Rightarrow>
        (case ws of
           [] \<Rightarrow> (V, M(n \<mapsto> (None, [])))
         | w # ws' \<Rightarrow> (V(w := map_option (insert n) (V w)), M(n \<mapsto> (Some w, ws')))))"

definition drop_client :: "client_id \<Rightarrow> lock_table \<Rightarrow> lock_table" where
  "drop_client i M = (\<lambda>n. map_option (\<lambda>(h, ws). (h, filter (\<lambda>w. w \<noteq> i) ws)) (M n))"

definition queued :: "client_id \<Rightarrow> lock_table \<Rightarrow> bool" where
  "queued i M \<longleftrightarrow> (\<exists>n h ws. M n = Some (h, ws) \<and> i \<in> set ws)"

lemma queued_drop [simp]: "\<not> queued i (drop_client i M)"
  by (auto simp: queued_def drop_client_def)

inductive lock_step :: "lock_state \<Rightarrow> lock_state \<Rightarrow> bool" where
  join: "V i = None \<Longrightarrow> lock_step (V, M) (V(i \<mapsto> {}), M)"
| touch: "M n = None \<Longrightarrow> lock_step (V, M) (V, M(n \<mapsto> (None, [])))"
| grant: "V i = Some ns \<Longrightarrow> M n = Some (None, ws) \<Longrightarrow>
    lock_step (V, M) (V(i \<mapsto> insert n ns), M(n \<mapsto> (Some i, ws)))"
| wait: "V i = Some ns \<Longrightarrow> M n = Some (Some h, ws) \<Longrightarrow> h \<noteq> i \<Longrightarrow> i \<notin> set ws \<Longrightarrow>
    lock_step (V, M) (V, M(n \<mapsto> (Some h, ws @ [i])))"
| release: "V i = Some ns \<Longrightarrow> M n = Some (Some i, ws) \<Longrightarrow>
    lock_step (V, M) (hand_over n ws (V(i \<mapsto> ns - {n}), M))"
| forget: "lock_step (V, M) (V, drop_client i M)"
| leave: "V i = Some {} \<Longrightarrow> \<not> queued i M \<Longrightarrow>
    lock_step (V, M) (V(i := None), M)"

inductive_cases lock_stepE: "lock_step s t"

section \<open>Invariant\<close>

definition table_ok :: "lock_state \<Rightarrow> bool" where
  "table_ok s \<longleftrightarrow> (case s of (V, M) \<Rightarrow>
     (\<forall>n h ws. M n = Some (Some h, ws) \<longrightarrow> (\<exists>ns. V h = Some ns \<and> n \<in> ns)) \<and>
     (\<forall>i ns n. V i = Some ns \<longrightarrow> n \<in> ns \<longrightarrow> (\<exists>ws. M n = Some (Some i, ws))) \<and>
     (\<forall>n h ws. M n = Some (h, ws) \<longrightarrow>
        distinct ws \<and> (\<forall>w \<in> set ws. V w \<noteq> None \<and> h \<noteq> Some w) \<and> (h = None \<longrightarrow> ws = [])))"

lemma table_okI:
  assumes "\<And>n h ws. M n = Some (Some h, ws) \<Longrightarrow> \<exists>ns. V h = Some ns \<and> n \<in> ns"
    and "\<And>i ns n. V i = Some ns \<Longrightarrow> n \<in> ns \<Longrightarrow> \<exists>ws. M n = Some (Some i, ws)"
    and "\<And>n h ws. M n = Some (h, ws) \<Longrightarrow> distinct ws"
    and "\<And>n h ws w. M n = Some (h, ws) \<Longrightarrow> w \<in> set ws \<Longrightarrow> V w \<noteq> None \<and> h \<noteq> Some w"
    and "\<And>n ws. M n = Some (None, ws) \<Longrightarrow> ws = []"
  shows "table_ok (V, M)"
  using assms unfolding table_ok_def by blast

lemma table_okD:
  assumes "table_ok (V, M)"
  shows "M n = Some (Some h, ws) \<Longrightarrow> \<exists>ns. V h = Some ns \<and> n \<in> ns"
    and "V i = Some ns \<Longrightarrow> n \<in> ns \<Longrightarrow> \<exists>ws. M n = Some (Some i, ws)"
    and "M n = Some (e, ws) \<Longrightarrow> distinct ws"
    and "M n = Some (e, ws) \<Longrightarrow> w \<in> set ws \<Longrightarrow> V w \<noteq> None \<and> e \<noteq> Some w"
    and "M n = Some (None, ws) \<Longrightarrow> ws = []"
  using assms unfolding table_ok_def by blast+

lemma table_ok_empty: "table_ok (Map.empty, Map.empty)"
  by (simp add: table_ok_def)

lemma table_ok_hand_over:
  assumes ok: "table_ok (V, M)" and v: "V i = Some ns" and m: "M n = Some (Some i, ws)"
  shows "table_ok (hand_over n ws (V(i \<mapsto> ns - {n}), M))"
proof -
  note D = table_okD [OF ok]
  have alone: "j = i" if "V j = Some ms" "n \<in> ms" for j ms
    using D(2) [OF that] m by auto
  show ?thesis
  proof (cases ws)
    case Nil
    have "table_ok (V(i \<mapsto> ns - {n}), M(n \<mapsto> (None, [])))"
    proof (rule table_okI, goal_cases)
      case (1 k h us)
      then show ?case using D(1) [of k h us] v by (auto split: if_splits)
    next
      case (2 j ms k)
      then show ?case using D(2) [of j _ k] alone [of j] v by (cases "j = i") auto
    next
      case (4 k h us w)
      then show ?case using D(4) [of k h us w] by (auto split: if_splits)
    qed (use D(3,5) in \<open>auto split: if_splits\<close>)
    then show ?thesis by (simp add: hand_over_def Nil)
  next
    case (Cons w ws')
    from D(3,4) [OF m] Cons obtain wns where w: "w \<noteq> i" "V w = Some wns" "w \<notin> set ws'" "distinct ws'"
      by auto
    have "table_ok (V(i \<mapsto> ns - {n}, w \<mapsto> insert n wns), M(n \<mapsto> (Some w, ws')))"
    proof (rule table_okI, goal_cases)
      case (1 k h us)
      then show ?case using D(1) [of k h us] v w by (auto split: if_splits)
    next
      case (2 j ms k)
      show ?case
      proof (cases "k = n")
        case True
        with 2 alone [of j ms] w(1) show ?thesis by (auto split: if_splits)
      next
        case False
        with 2 w v obtain ms' where "V j = Some ms'" "k \<in> ms'" by (auto split: if_splits)
        from D(2) [OF this] False show ?thesis by simp
      qed
    next
      case (4 k h us u)
      then show ?case using D(4) [of k h us u] D(4) [OF m, of u] w Cons
        by (cases "k = n") (auto split: if_splits)
    qed (use D(3,5) w in \<open>auto split: if_splits\<close>)
    then show ?thesis using w by (simp add: hand_over_def Cons)
  qed
qed

lemma table_ok_grant:
  assumes ok: "table_ok (V, M)" and v: "V i = Some ns" and m: "M n = Some (None, ws)"
  shows "table_ok (V(i \<mapsto> insert n ns), M(n \<mapsto> (Some i, ws)))"
proof -
  note D = table_okD [OF ok]
  have ws: "ws = []" by (rule D(5) [OF m])
  have alone: "n \<notin> ms" if "V j = Some ms" for j ms using D(2) [OF that, of n] m by auto
  show ?thesis
  proof (rule table_okI, goal_cases)
    case (1 k h us)
    then show ?case using D(1) [of k h us] v by (auto split: if_splits)
  next
    case (2 j ms k)
    then show ?case using D(2) [of j ms k] D(2) [OF v, of k] alone [of j] by (auto split: if_splits)
  next
    case (4 k h us u)
    then show ?case using D(4) [of k h us u] ws by (auto split: if_splits)
  qed (use D(3,5) ws in \<open>auto split: if_splits\<close>)
qed

lemma table_ok_wait:
  assumes ok: "table_ok (V, M)" and v: "V i = Some ns" and m: "M n = Some (Some h, ws)"
    and new: "h \<noteq> i" "i \<notin> set ws"
  shows "table_ok (V, M(n \<mapsto> (Some h, ws @ [i])))"
proof -
  note D = table_okD [OF ok]
  show ?thesis
  proof (rule table_okI, goal_cases)
    case (1 k h us)
    then show ?case using D(1) [of k h] D(1) [OF m] by (auto split: if_splits)
  next
    case (2 j ms k)
    then show ?case using D(2) [of j ms k] m by auto
  next
    case (4 k h us u)
    then show ?case using D(4) [of k h us u] D(4) [OF m, of u] v new by (auto split: if_splits)
  qed (use D(3,5) D(3) [OF m] new in \<open>auto split: if_splits\<close>)
qed

lemma table_ok_drop:
  assumes ok: "table_ok (V, M)"
  shows "table_ok (V, drop_client i M)"
proof -
  note D = table_okD [OF ok]
  show ?thesis
  proof (rule table_okI, goal_cases)
    case (2 j ms k)
    then show ?case using D(2) [of j ms k] by (auto simp: drop_client_def)
  next
    case (4 k h us u)
    then show ?case using D(4) [of k h _ u] by (auto simp: drop_client_def)
  next
    case (5 k us)
    then obtain b where "M k = Some (None, b)" "us = filter (\<lambda>w. w \<noteq> i) b"
      by (auto simp: drop_client_def)
    with D(5) [of k b] show ?case by simp
  qed (use D(1,3) in \<open>auto simp: drop_client_def\<close>)
qed

lemma table_ok_sessions:
  assumes ok: "table_ok (V, M)" and v: "V i = None \<or> V i = Some {}"
    and out: "\<not> queued i M" and x: "x = None \<or> x = Some {}"
  shows "table_ok (V(i := x), M)"
proof -
  note D = table_okD [OF ok]
  show ?thesis
  proof (rule table_okI, goal_cases)
    case (1 k h us)
    then show ?case using D(1) [of k h us] v by auto
  next
    case (2 j ms k)
    then show ?case using D(2) [of j ms k] x by (auto split: if_splits)
  next
    case (4 k h us u)
    then show ?case using D(4) [of k h us u] out by (auto simp: queued_def)
  qed (use D(3,5) in auto)
qed

lemma table_ok_step: "lock_step s t \<Longrightarrow> table_ok s \<Longrightarrow> table_ok t"
proof (induction rule: lock_step.induct)
  case (join V i M)
  have "\<not> queued i M" 
    unfolding queued_def using table_okD(4) [OF join(2)] join(1) by blast
  with join show ?case by (intro table_ok_sessions) auto
next
  case (touch M n V)
  note D = table_okD [OF touch(2)]
  show ?case
  proof (rule table_okI, goal_cases)
    case (2 j ms k)
    then show ?case using D(2) [of j ms k] touch by (auto split: if_splits)
  qed (use D(1,3,4,5) in \<open>auto split: if_splits\<close>)
next
  case (leave V i M)
  then show ?case by (intro table_ok_sessions) auto
qed (auto intro: table_ok_grant table_ok_wait table_ok_hand_over table_ok_drop)

lemma table_ok_steps: "lock_step\<^sup>*\<^sup>* s t \<Longrightarrow> table_ok s \<Longrightarrow> table_ok t"
  by (induction rule: rtranclp_induct) (auto intro: table_ok_step)

section \<open>What the service promises\<close>

text \<open>Nobody holds a name another session holds, and the holder of a name is the session that has it.\<close>

definition exclusive :: "lock_state \<Rightarrow> bool" where
  "exclusive s \<longleftrightarrow>
     (\<forall>i j n ns ms. fst s i = Some ns \<longrightarrow> fst s j = Some ms \<longrightarrow> n \<in> ns \<longrightarrow> n \<in> ms \<longrightarrow> i = j) \<and>
     (\<forall>n i. (\<exists>ws. snd s n = Some (Some i, ws)) \<longleftrightarrow> (\<exists>ns. fst s i = Some ns \<and> n \<in> ns))"

text \<open>A queue is only waited on while the lock is held, by distinct live sessions other than the holder.\<close>

definition queues_live :: "lock_state \<Rightarrow> bool" where
  "queues_live s \<longleftrightarrow>
     (\<forall>n h ws. snd s n = Some (h, ws) \<longrightarrow> distinct ws \<and> (h = None \<longrightarrow> ws = []) \<and>
        (\<forall>w \<in> set ws. h \<noteq> Some w \<and> fst s w \<noteq> None))"

lemma table_ok_promises: "table_ok s \<Longrightarrow> exclusive s \<and> queues_live s"
proof -
  assume ok: "table_ok s"
  obtain V M where s: "s = (V, M)" by (cases s)
  note D = table_okD [OF ok [unfolded s]]
  have "i = j" if "V i = Some ns" "V j = Some ms" "n \<in> ns" "n \<in> ms" for i j n ns ms
    using D(2) [OF that(1,3)] D(2) [OF that(2,4)] by auto
  moreover have "(\<exists>ws. M n = Some (Some i, ws)) \<longleftrightarrow> (\<exists>ns. V i = Some ns \<and> n \<in> ns)" for n i
    using D(1,2) by blast
  moreover have "queues_live s" unfolding s queues_live_def using D(3,4,5) by auto
  ultimately show ?thesis unfolding exclusive_def s by auto
qed

text \<open>How one step changes the queue of a name: not at all, at its end, at its front together with the
  holder, or by dropping a client from it.\<close>

definition fifo_change :: "client_id option \<times> client_id list \<Rightarrow> client_id option \<times> client_id list \<Rightarrow> bool" where
  "fifo_change e e' \<longleftrightarrow>
     (case e of (h, ws) \<Rightarrow> case e' of (h', ws') \<Rightarrow>
        (ws' = ws \<and> (h' = h \<or> h = None \<or> (ws = [] \<and> h' = None))) \<or>
        (\<exists>i. ws' = ws @ [i] \<and> h' = h) \<or>
        (\<exists>w. ws = w # ws' \<and> h' = Some w) \<or>
        (\<exists>i. ws' = filter (\<lambda>w. w \<noteq> i) ws \<and> h' = h))"

lemma lock_step_fifo:
  "lock_step s t \<Longrightarrow> snd s n = Some e \<Longrightarrow> \<exists>e'. snd t n = Some e' \<and> fifo_change e e'"
  by (induction rule: lock_step.induct)
    (auto simp: fifo_change_def hand_over_def drop_client_def split: list.splits if_splits prod.splits)

section \<open>Refinement\<close>

text \<open>A server refines the service when, on states that satisfy its own invariant, each of its steps is
  a sequence of steps of the service.\<close>

locale lock_server =
  fixes init :: "'s \<Rightarrow> bool"
    and step :: "'s \<Rightarrow> 's \<Rightarrow> bool"
    and inv :: "'s \<Rightarrow> bool"
    and view :: "'s \<Rightarrow> lock_state"
  assumes init_view: "init s \<Longrightarrow> inv s \<and> view s = (Map.empty, Map.empty)"
    and step_view: "inv s \<Longrightarrow> table_ok (view s) \<Longrightarrow> step s t \<Longrightarrow> inv t \<and> lock_step\<^sup>*\<^sup>* (view s) (view t)"
begin

lemma reach_ok: "reach init step s \<Longrightarrow> inv s \<and> table_ok (view s)"
proof (induction rule: reach.induct)
  case (reach_start s)
  then show ?case using init_view by (simp add: table_ok_empty)
next
  case (reach_step s t)
  then show ?case using step_view table_ok_steps by blast
qed

lemma reach_refines: "reach init step s \<Longrightarrow> lock_step\<^sup>*\<^sup>* (Map.empty, Map.empty) (view s)"
proof (induction rule: reach.induct)
  case (reach_start s)
  then show ?case using init_view by simp
next
  case (reach_step s t)
  then show ?case using step_view reach_ok by (blast intro: rtranclp_trans)
qed

lemma reach_promises: "reach init step s \<Longrightarrow> exclusive (view s) \<and> queues_live (view s)"
  using reach_ok table_ok_promises by blast

end

end
