(* ===== verification/Event_Server.thy ===== *)
theory Event_Server
  imports Framer Lock_Spec "HOL-Library.AList"
begin

text \<open>
  The single-threaded event-loop lock server, \<^verbatim>\<open>locks/src/bin/event_server.rs\<close>.

  The hash map of locks is an association list with distinct keys, its order standing for the map's
  unspecified iteration order.  The slab of clients is the source's vector of optional client states.
  The poll registry is a map from slots to the interest registered for the slot's socket (\<open>True\<close>:
  \<^verbatim>\<open>READABLE | WRITABLE\<close>, \<open>False\<close>: \<^verbatim>\<open>READABLE\<close>); registry calls are taken to succeed, a failure
  ends the process.  \<open>delivered\<close> is what the client's socket has been handed.  \<open>accepted\<close> counts the
  connections accepted since the start.
\<close>

section \<open>State\<close>

record lock_entry =
  holder :: "client_id option"
  waiters :: "client_id list"

definition lock_entry_new :: lock_entry where
  "lock_entry_new = \<lparr> holder = None, waiters = [] \<rparr>"

type_synonym lock_store = "(string \<times> lock_entry) list"

definition store_entry :: "string \<Rightarrow> lock_store \<Rightarrow> lock_entry \<times> lock_store" where
  "store_entry name locks =
     (case map_of locks name of
        Some e \<Rightarrow> (e, locks)
      | None \<Rightarrow> (lock_entry_new, AList.update name lock_entry_new locks))"

definition promote_next :: "string \<Rightarrow> lock_store \<Rightarrow> client_id option \<times> lock_store" where
  "promote_next name locks =
     (case map_of locks name of
        None \<Rightarrow> (None, locks)
      | Some e \<Rightarrow>
          (case waiters e of
             next_id # ws \<Rightarrow>
               (Some next_id, AList.update name (e\<lparr>waiters := ws, holder := Some next_id\<rparr>) locks)
           | [] \<Rightarrow> (None, AList.update name (e\<lparr>holder := None\<rparr>) locks)))"

record client_state =
  cid :: client_id
  reader_of :: reader
  writer_of :: writer
  delivered :: string
  waiting_for :: "string option"
  held :: "string list"
  wants_write :: bool

definition client_new :: "client_id \<Rightarrow> client_state" where
  "client_new i = \<lparr> cid = i, reader_of = framer_reader framer_new, writer_of = framer_writer framer_new,
                    delivered = [], waiting_for = None, held = [], wants_write = False \<rparr>"

definition enqueue :: "response \<Rightarrow> client_state \<Rightarrow> client_state" where
  "enqueue resp c = c\<lparr>writer_of := write_all (show_response resp @ [NL]) (writer_of c), wants_write := True\<rparr>"

type_synonym client_slab = "client_state option list"

definition slab_insert :: "client_state \<Rightarrow> client_slab \<Rightarrow> nat \<times> client_slab" where
  "slab_insert c sl =
     (case position (\<lambda>x. x = None) sl of
        Some i \<Rightarrow> (i, sl[i := Some c])
      | None \<Rightarrow> (length sl, sl @ [Some c]))"

definition slab_get :: "client_slab \<Rightarrow> nat \<Rightarrow> client_state option" where
  "slab_get sl i = (if i < length sl then sl ! i else None)"

definition slab_modify :: "nat \<Rightarrow> (client_state \<Rightarrow> client_state) \<Rightarrow> client_slab \<Rightarrow> client_slab" where
  "slab_modify i f sl = (case slab_get sl i of None \<Rightarrow> sl | Some c \<Rightarrow> sl[i := Some (f c)])"

definition slab_remove :: "nat \<Rightarrow> client_slab \<Rightarrow> client_state option \<times> client_slab" where
  "slab_remove i sl = (slab_get sl i, if i < length sl then sl[i := None] else sl)"

definition slot_of_id :: "client_id \<Rightarrow> client_slab \<Rightarrow> nat option" where
  "slot_of_id i sl = position (\<lambda>x. map_option cid x = Some i) sl"

record server =
  clients :: client_slab
  locks :: lock_store
  next_client_id :: client_id
  registry :: "nat \<rightharpoonup> bool"
  accepted :: nat

definition server_init :: server where
  "server_init = \<lparr> clients = [], locks = [], next_client_id = 1, registry = Map.empty, accepted = 0 \<rparr>"

definition on_client :: "nat \<Rightarrow> (client_state \<Rightarrow> client_state) \<Rightarrow> server \<Rightarrow> server" where
  "on_client i f s = s\<lparr>clients := slab_modify i f (clients s)\<rparr>"

abbreviation client_at :: "server \<Rightarrow> nat \<Rightarrow> client_state option" where
  "client_at s i \<equiv> slab_get (clients s) i"

section \<open>Promotion and release\<close>

function promote_and_notify :: "string \<Rightarrow> server \<Rightarrow> server" where
  "promote_and_notify name s =
     (case promote_next name (locks s) of
        (None, l) \<Rightarrow> s\<lparr>locks := l\<rparr>
      | (Some next_id, l) \<Rightarrow>
          (case slot_of_id next_id (clients s) of
             Some i \<Rightarrow>
               (on_client i (\<lambda>c. enqueue (Granted name) (c\<lparr>waiting_for := None, held := held c @ [name]\<rparr>))
                  (s\<lparr>locks := l\<rparr>))\<lparr>registry := (registry s)(i \<mapsto> True)\<rparr>
           | None \<Rightarrow> promote_and_notify name (s\<lparr>locks := l\<rparr>)))"
  by pat_completeness auto
termination
  by (relation "measure (\<lambda>(name, s). case map_of (locks s) name of None \<Rightarrow> 0 | Some e \<Rightarrow> length (waiters e))")
    (auto simp: promote_next_def update_conv' split: option.splits list.splits)

declare promote_and_notify.simps [simp del]

definition drop_waiter :: "client_id \<Rightarrow> lock_store \<Rightarrow> lock_store" where
  "drop_waiter i = map (\<lambda>(n, e). (n, e\<lparr>waiters := filter (\<lambda>w. w \<noteq> i) (waiters e)\<rparr>))"

definition release_held :: "client_id \<Rightarrow> string \<Rightarrow> server \<Rightarrow> server" where
  "release_held i name s =
     promote_and_notify name
       (case map_of (locks s) name of
          Some e \<Rightarrow> if holder e = Some i then s\<lparr>locks := AList.update name (e\<lparr>holder := None\<rparr>) (locks s)\<rparr> else s
        | None \<Rightarrow> s)"

definition disconnect_client :: "nat \<Rightarrow> server \<Rightarrow> server" where
  "disconnect_client slot s =
     (case slab_remove slot (clients s) of
        (None, _) \<Rightarrow> s
      | (Some c, sl) \<Rightarrow>
          fold (release_held (cid c)) (held c)
            (s\<lparr>clients := sl, registry := (registry s)(slot := None), locks := drop_waiter (cid c) (locks s)\<rparr>))"

section \<open>Requests\<close>

definition known_verbs :: "string list" where
  "known_verbs = [''ACQUIRE'', ''TRY_ACQUIRE'', ''RELEASE'', ''STATUS'', ''LIST'']"

text \<open>The classification of a line that is not a request.\<close>

definition error_reply :: "string \<Rightarrow> response" where
  "error_reply line =
     (let verb = (case first_word line of Some w \<Rightarrow> w | None \<Rightarrow> line) in
      if verb \<in> set known_verbs then Err (drop 4 ERR_INVALID_LOCK_NAME)
      else Err (ERR_UNKNOWN_COMMAND_PREFIX @ verb))"

definition status_reply :: "string \<Rightarrow> lock_entry \<Rightarrow> response" where
  "status_reply name e =
     (case holder e of
        None \<Rightarrow> StatusFree name (of_nat (length (waiters e)))
      | Some h \<Rightarrow> StatusHeld name h (of_nat (length (waiters e))))"

definition held_names :: "lock_store \<Rightarrow> string list" where
  "held_names l = map fst (filter (\<lambda>(_, e). holder e \<noteq> None) l)"

definition process_request :: "nat \<Rightarrow> client_id \<Rightarrow> request \<Rightarrow> server \<Rightarrow> server" where
  "process_request slot client_id req s =
     (case req of
        Acquire name \<Rightarrow>
          (case store_entry name (locks s) of (e, l) \<Rightarrow>
             let s = s\<lparr>locks := l\<rparr> in
             if holder e = Some client_id then
               on_client slot (enqueue (Err (drop 4 ERR_ALREADY_HELD))) s
             else if client_id \<in> set (waiters e) then
               on_client slot (enqueue (Err (drop 4 ERR_ALREADY_HELD))) s
             else if holder e = None then
               on_client slot (\<lambda>c. enqueue (Granted name) (c\<lparr>held := held c @ [name]\<rparr>))
                 (s\<lparr>locks := AList.update name (e\<lparr>holder := Some client_id\<rparr>) l\<rparr>)
             else
               on_client slot (\<lambda>c. c\<lparr>waiting_for := Some name\<rparr>)
                 (s\<lparr>locks := AList.update name (e\<lparr>waiters := waiters e @ [client_id]\<rparr>) l\<rparr>))
      | TryAcquire name \<Rightarrow>
          (case store_entry name (locks s) of (e, l) \<Rightarrow>
             let s = s\<lparr>locks := l\<rparr> in
             if holder e = None then
               on_client slot (\<lambda>c. enqueue (Granted name) (c\<lparr>held := held c @ [name]\<rparr>))
                 (s\<lparr>locks := AList.update name (e\<lparr>holder := Some client_id\<rparr>) l\<rparr>)
             else on_client slot (enqueue (Denied name)) s)
      | Release name \<Rightarrow>
          (case store_entry name (locks s) of (e, l) \<Rightarrow>
             let s = s\<lparr>locks := l\<rparr> in
             if holder e \<noteq> Some client_id then
               on_client slot (enqueue (Err (drop 4 ERR_NOT_HELD))) s
             else
               promote_and_notify name
                 (on_client slot (\<lambda>c. enqueue Ok (c\<lparr>held := filter (\<lambda>n. n \<noteq> name) (held c)\<rparr>)) s))
      | Status name \<Rightarrow>
          (case store_entry name (locks s) of (e, l) \<Rightarrow>
             on_client slot (enqueue (status_reply name e)) (s\<lparr>locks := l\<rparr>))
      | List_Locks \<Rightarrow>
          on_client slot
            (\<lambda>c. enqueue ListEnd (fold (\<lambda>n. enqueue (ListEntry n)) (held_names (locks s)) (enqueue ListBegin c))) s)"

definition process_line :: "nat \<Rightarrow> string \<Rightarrow> server \<Rightarrow> server" where
  "process_line slot line s =
     (let client_id = (case client_at s slot of Some c \<Rightarrow> cid c | None \<Rightarrow> 0) in
      (case parse_request line of
         None \<Rightarrow> on_client slot (enqueue (error_reply line)) s
       | Some req \<Rightarrow> process_request slot client_id req s))"

section \<open>Request processing leaves every reader alone\<close>

lemma slab_get_modify:
  "slab_get (slab_modify i f sl) j = (if i = j then map_option f (slab_get sl j) else slab_get sl j)"
  by (auto simp: slab_get_def slab_modify_def split: option.splits)

lemma length_slab_modify [simp]: "length (slab_modify i f sl) = length sl"
  by (simp add: slab_modify_def split: option.split)

lemma client_at_on_client [simp]:
  "client_at (on_client i f s) j = (if i = j then map_option f (client_at s j) else client_at s j)"
  by (simp add: on_client_def slab_get_modify)

lemma on_client_fields [simp]:
  "locks (on_client i f s) = locks s" "next_client_id (on_client i f s) = next_client_id s"
  "registry (on_client i f s) = registry s" "accepted (on_client i f s) = accepted s"
  by (simp_all add: on_client_def)

lemma enqueue_fields [simp]:
  "cid (enqueue r c) = cid c" "reader_of (enqueue r c) = reader_of c" "delivered (enqueue r c) = delivered c"
  "waiting_for (enqueue r c) = waiting_for c" "held (enqueue r c) = held c" "wants_write (enqueue r c)"
  "pending (writer_of (enqueue r c)) = pending (writer_of c) @ show_response r @ [NL]"
  by (simp_all add: enqueue_def)

lemma fold_enqueue_fields [simp]:
  "cid (fold (\<lambda>n. enqueue (g n)) ns c) = cid c" "reader_of (fold (\<lambda>n. enqueue (g n)) ns c) = reader_of c"
  "held (fold (\<lambda>n. enqueue (g n)) ns c) = held c"
  "delivered (fold (\<lambda>n. enqueue (g n)) ns c) = delivered c"
  by (induction ns arbitrary: c) simp_all

definition reader_at :: "server \<Rightarrow> nat \<Rightarrow> reader option" where
  "reader_at s i = map_option reader_of (client_at s i)"

lemma reader_at_on_client [simp]:
  "(\<And>c. reader_of (f c) = reader_of c) \<Longrightarrow> reader_at (on_client i f s) = reader_at s"
  by (rule ext) (simp add: reader_at_def option.map_comp comp_def)

lemma reader_at_update [simp]:
  "reader_at (s\<lparr>locks := l\<rparr>) = reader_at s" "reader_at (s\<lparr>registry := r\<rparr>) = reader_at s"
  by (simp_all add: reader_at_def fun_eq_iff)

lemma reader_at_promote [simp]: "reader_at (promote_and_notify name s) = reader_at s"
  by (induction name s rule: promote_and_notify.induct)
    (subst promote_and_notify.simps, auto split: prod.splits option.splits)

lemma reader_at_process_line [simp]: "reader_at (process_line slot line s) = reader_at s"
  by (simp add: process_line_def process_request_def Let_def split: option.split request.split prod.split)

section \<open>The event loop\<close>

text \<open>The connection \<^verbatim>\<open>accept\<close> returned: a fresh identifier, the first free slot, \<^verbatim>\<open>READABLE\<close> interest.\<close>

definition accept_client :: "server \<Rightarrow> server" where
  "accept_client s =
     (let i = next_client_id s in
      case slab_insert (client_new i) (clients s) of (slot, sl) \<Rightarrow>
        s\<lparr>clients := sl, next_client_id := i + 1, registry := (registry s)(slot \<mapsto> False),
          accepted := accepted s + 1\<rparr>)"

datatype accept_answer = Accepted | Accept_Failed

definition handle_listener :: "accept_answer list \<Rightarrow> server \<Rightarrow> server" where
  "handle_listener = fold (\<lambda>a s. case a of Accepted \<Rightarrow> accept_client s | Accept_Failed \<Rightarrow> s)"

text \<open>A flush of one client's output and the bytes it handed to the socket.\<close>

definition flush_client :: "write_answer list \<Rightarrow> client_state \<Rightarrow> flush_result \<times> client_state" where
  "flush_client ans c =
     (case flush_nonblocking (writer_of c) ans of (r, w, out, _) \<Rightarrow>
        (r, c\<lparr>writer_of := w, delivered := delivered c @ out\<rparr>))"

text \<open>A \<^verbatim>\<open>WRITABLE\<close> event; the flag tells the caller that the event is done with.\<close>

definition handle_writable :: "nat \<Rightarrow> write_answer list \<Rightarrow> server \<Rightarrow> bool \<times> server" where
  "handle_writable slot ans s =
     (case client_at s slot of
        None \<Rightarrow> (False, s)
      | Some c \<Rightarrow>
          (case flush_client ans c of (r, c') \<Rightarrow>
             let s = on_client slot (\<lambda>_. c') s in
             if r = Flushed then
               (False, (on_client slot (\<lambda>c. c\<lparr>wants_write := False\<rparr>) s)\<lparr>registry := (registry s)(slot \<mapsto> False)\<rparr>)
             else if r = Pending then (False, s)
             else (True, disconnect_client slot s)))"

function process_lines :: "nat \<Rightarrow> server \<Rightarrow> server" where
  "process_lines slot s =
     (case client_at s slot of
        None \<Rightarrow> s
      | Some c \<Rightarrow>
          (case next_line (reader_of c) of
             (Inr None, r) \<Rightarrow> on_client slot (\<lambda>c. c\<lparr>reader_of := r\<rparr>) s
           | (Inr (Some l), r) \<Rightarrow>
               (let line = trim_end CR l; s = on_client slot (\<lambda>c. c\<lparr>reader_of := r\<rparr>) s in
                if line = [] then process_lines slot s
                else process_lines slot (process_line slot line s))
           | (Inl LineTooLong, r) \<Rightarrow>
               disconnect_client slot
                 (on_client slot (enqueue (Err (drop 4 ERR_LINE_TOO_LONG)))
                   (on_client slot (\<lambda>c. c\<lparr>reader_of := r\<rparr>) s))
           | (Inl _, r) \<Rightarrow> disconnect_client slot (on_client slot (\<lambda>c. c\<lparr>reader_of := r\<rparr>) s)))"
  by pat_completeness auto

definition unread_at :: "nat \<Rightarrow> server \<Rightarrow> nat" where
  "unread_at slot s = (case reader_at s slot of None \<Rightarrow> 0 | Some r \<Rightarrow> length (unread r))"

termination process_lines
  by (relation "measure (\<lambda>(slot, s). unread_at slot s)")
    (auto simp: unread_at_def, auto simp: reader_at_def dest!: next_line_shorter [OF sym])

declare process_lines.simps [simp del]

text \<open>A \<^verbatim>\<open>READABLE\<close> event: the bytes that were available and how the read ended.\<close>

definition handle_readable :: "nat \<Rightarrow> string \<Rightarrow> read_end \<Rightarrow> server \<Rightarrow> server" where
  "handle_readable slot bs e s =
     (case client_at s slot of
        None \<Rightarrow> s
      | Some c \<Rightarrow>
          (case refresh bs e (reader_of c) of (res, r) \<Rightarrow>
             let s = on_client slot (\<lambda>c. c\<lparr>reader_of := r\<rparr>) s in
             if res \<noteq> Inr () then disconnect_client slot s
             else
               (let s = process_lines slot s in
                case client_at s slot of
                  Some c \<Rightarrow> if wants_write c then s\<lparr>registry := (registry s)(slot \<mapsto> True)\<rparr> else s
                | None \<Rightarrow> s)))"

datatype event =
    Listener "accept_answer list"
  | Client nat "write_answer list option" "(string \<times> read_end) option"

definition handle_event :: "event \<Rightarrow> server \<Rightarrow> server" where
  "handle_event ev s =
     (case ev of
        Listener as \<Rightarrow> handle_listener as s
      | Client slot w r \<Rightarrow>
          (case (case w of None \<Rightarrow> (False, s) | Some ans \<Rightarrow> handle_writable slot ans s) of
             (True, s) \<Rightarrow> s
           | (False, s) \<Rightarrow> (case r of None \<Rightarrow> s | Some (bs, e) \<Rightarrow> handle_readable slot bs e s)))"

text \<open>The pass over all clients after the events: flush, then re-register, then disconnect.\<close>

definition flush_slot :: "(nat \<Rightarrow> write_answer list) \<Rightarrow> nat \<Rightarrow> server \<times> nat list \<times> nat list \<Rightarrow> server \<times> nat list \<times> nat list" where
  "flush_slot ans idx acc =
     (case acc of (s, rereg, disc) \<Rightarrow>
        (case client_at s idx of
           None \<Rightarrow> acc
         | Some c \<Rightarrow>
             if \<not> wants_write c then acc
             else
               (case flush_client (ans idx) c of (r, c') \<Rightarrow>
                  if r = Flushed then (on_client idx (\<lambda>_. c'\<lparr>wants_write := False\<rparr>) s, rereg @ [idx], disc)
                  else if r = Pending then (on_client idx (\<lambda>_. c') s, rereg @ [idx], disc)
                  else (on_client idx (\<lambda>_. c') s, rereg, disc @ [idx]))))"

definition reregister :: "nat \<Rightarrow> server \<Rightarrow> server" where
  "reregister idx s =
     (case client_at s idx of
        None \<Rightarrow> s
      | Some c \<Rightarrow> s\<lparr>registry := (registry s)(idx \<mapsto> wants_write c)\<rparr>)"

definition flush_pass :: "(nat \<Rightarrow> write_answer list) \<Rightarrow> server \<Rightarrow> server" where
  "flush_pass ans s =
     (case fold (flush_slot ans) [0..<length (clients s)] (s, [], []) of (s, rereg, disc) \<Rightarrow>
        fold disconnect_client disc (fold reregister rereg s))"

definition loop_body :: "event list \<Rightarrow> (nat \<Rightarrow> write_answer list) \<Rightarrow> server \<Rightarrow> server" where
  "loop_body evs ans s = flush_pass ans (fold handle_event evs s)"

text \<open>One turn of the loop, as long as the connection counter has not wrapped.\<close>

inductive loop_step :: "server \<Rightarrow> server \<Rightarrow> bool" where
  turn: "t = loop_body evs ans s \<Longrightarrow> accepted t < 2 ^ 64 - 1 \<Longrightarrow> loop_step s t"

inductive_cases loop_stepE: "loop_step s t"

declare slab_get_def [lock_simps]
  slab_modify_def [lock_simps]
  on_client_def [lock_simps]

end
