(* ===== verification/Event_Locks.thy ===== *)
theory Event_Locks
  imports Event_Server
begin

text \<open>
  The event-loop server refines the lock service.  \<open>lock_view\<close> reads the service's state off the server's,
  \<open>srv_ok\<close> is the server's own invariant (identifiers, bookkeeping of output and of poll interest), and
  \<open>sim\<close> says that a piece of the server keeps the invariant and is a sequence of the service's steps.
\<close>

section \<open>View and invariant\<close>

definition ids_distinct :: "client_slab \<Rightarrow> bool" where
  "ids_distinct sl \<longleftrightarrow>
     (\<forall>i j c d. slab_get sl i = Some c \<longrightarrow> slab_get sl j = Some d \<longrightarrow> cid c = cid d \<longrightarrow> i = j)"

definition sess :: "client_slab \<Rightarrow> sessions" where
  "sess sl i = Option.bind (slot_of_id i sl) (\<lambda>k. map_option (\<lambda>c. set (held c)) (slab_get sl k))"

definition entry_view :: "lock_entry \<Rightarrow> client_id option \<times> client_id list" where
  "entry_view e = (holder e, waiters e)"

definition tab :: "lock_store \<Rightarrow> lock_table" where
  "tab l n = map_option entry_view (map_of l n)"

definition lock_view :: "server \<Rightarrow> lock_state" where
  "lock_view s = (sess (clients s), tab (locks s))"

text \<open>\<open>wants_write\<close> is set exactly while output is buffered, the poll registry has exactly the live
  slots, and \<^verbatim>\<open>WRITABLE\<close> interest is only registered while output is wanted.\<close>

definition client_ok :: "client_state \<Rightarrow> bool" where
  "client_ok c \<longleftrightarrow> distinct (held c) \<and> (wants_write c \<longleftrightarrow> pending (writer_of c) \<noteq> [])"

definition srv_ok :: "server \<Rightarrow> bool" where
  "srv_ok s \<longleftrightarrow> ids_distinct (clients s) \<and>
     (\<forall>k c. client_at s k = Some c \<longrightarrow> client_ok c \<and> 1 \<le> unat (cid c) \<and> unat (cid c) \<le> accepted s \<and>
        registry s k \<noteq> None \<and> (registry s k = Some True \<longrightarrow> wants_write c)) \<and>
     (\<forall>k. client_at s k = None \<longrightarrow> registry s k = None) \<and>
     next_client_id s = of_nat (accepted s + 1)"

lemma srv_okD:
  assumes "srv_ok s"
  shows "ids_distinct (clients s)"
    and "client_at s k = Some c \<Longrightarrow> client_ok c"
    and "client_at s k = Some c \<Longrightarrow> 1 \<le> unat (cid c)" "client_at s k = Some c \<Longrightarrow> unat (cid c) \<le> accepted s"
    and "client_at s k = Some c \<Longrightarrow> registry s k \<noteq> None"
    and "client_at s k = Some c \<Longrightarrow> registry s k = Some True \<Longrightarrow> wants_write c"
    and "client_at s k = None \<Longrightarrow> registry s k = None"
    and "next_client_id s = of_nat (accepted s + 1)"
  using assms unfolding srv_ok_def by blast+

section \<open>Finding clients\<close>

lemma slot_of_id_Some:
  "slot_of_id i sl = Some k \<Longrightarrow> \<exists>c. slab_get sl k = Some c \<and> cid c = i"
  by (auto simp: slot_of_id_def position_Some slab_get_def)

lemma slot_of_id_live:
  assumes "ids_distinct sl" and "slab_get sl k = Some c"
  shows "slot_of_id (cid c) sl = Some k"
proof (cases "slot_of_id (cid c) sl")
  case None
  with assms(2) show ?thesis
    by (auto simp: slot_of_id_def position_None slab_get_def split: if_splits dest!: nth_mem)
next
  case (Some j)
  from slot_of_id_Some [OF this] assms Some show ?thesis by (auto simp: ids_distinct_def)
qed

lemma sess_live: "ids_distinct sl \<Longrightarrow> slab_get sl k = Some c \<Longrightarrow> sess sl (cid c) = Some (set (held c))"
  by (simp add: sess_def slot_of_id_live)

lemma sess_Some:
  "sess sl i = Some ns \<Longrightarrow> \<exists>k c. slot_of_id i sl = Some k \<and> slab_get sl k = Some c \<and> cid c = i \<and> ns = set (held c)"
  using slot_of_id_Some [of i sl] by (fastforce simp: sess_def bind_eq_Some_conv)

lemma sess_eqI:
  assumes "ids_distinct sl"
    and "\<And>k c. slab_get sl k = Some c \<Longrightarrow> V (cid c) = Some (set (held c))"
    and "\<And>i. V i \<noteq> None \<Longrightarrow> \<exists>k c. slab_get sl k = Some c \<and> cid c = i"
  shows "sess sl = V"
proof (rule ext)
  fix i
  show "sess sl i = V i"
  proof (cases "V i")
    case None
    with assms(2) show ?thesis by (cases "sess sl i") (auto dest!: sess_Some)
  next
    case (Some ns)
    with assms(3) [of i] obtain k c where "slab_get sl k = Some c" "cid c = i" by auto
    with assms(2) [of k c] sess_live [OF assms(1), of k c] show ?thesis by simp
  qed
qed

lemma sess_modify:
  assumes d: "ids_distinct sl" and c: "slab_get sl k = Some c" and f: "cid (f c) = cid c"
  shows "sess (slab_modify k f sl) = (sess sl)(cid c \<mapsto> set (held (f c)))"
    and "ids_distinct (slab_modify k f sl)"
proof -
  show d': "ids_distinct (slab_modify k f sl)"
    using d c f unfolding ids_distinct_def slab_get_modify by (metis option.map_sel option.sel map_option_eq_Some)
  show "sess (slab_modify k f sl) = (sess sl)(cid c \<mapsto> set (held (f c)))"
  proof (rule sess_eqI [OF d'])
    fix j e
    assume e: "slab_get (slab_modify k f sl) j = Some e"
    show "((sess sl)(cid c \<mapsto> set (held (f c)))) (cid e) = Some (set (held e))"
    proof (cases "j = k")
      case True
      with e c f show ?thesis by (simp add: slab_get_modify)
    next
      case False
      with e have "slab_get sl j = Some e" by (simp add: slab_get_modify)
      with sess_live [OF d this] d c False show ?thesis by (auto simp: ids_distinct_def)
    qed
  next
    fix i
    assume "((sess sl)(cid c \<mapsto> set (held (f c)))) i \<noteq> None"
    then show "\<exists>j e. slab_get (slab_modify k f sl) j = Some e \<and> cid e = i"
    proof (cases "i = cid c")
      case True
      with c f show ?thesis by (intro exI [of _ k]) (simp add: slab_get_modify)
    next
      case False
      with \<open>_ \<noteq> None\<close> obtain j e where "slab_get sl j = Some e" "cid e = i"
        by (auto dest!: sess_Some)
      with False c show ?thesis by (intro exI [of _ j] exI [of _ e]) (auto simp: slab_get_modify)
    qed
  qed
qed

lemma slab_get_remove:
  "slab_get (snd (slab_remove k sl)) j = (if j = k then None else slab_get sl j)"
  by (auto simp: slab_remove_def slab_get_def)

lemma sess_remove:
  assumes d: "ids_distinct sl" and c: "slab_get sl k = Some c"
  shows "sess (snd (slab_remove k sl)) = (sess sl)(cid c := None)"
    and "ids_distinct (snd (slab_remove k sl))"
proof -
  show d': "ids_distinct (snd (slab_remove k sl))"
    using d unfolding ids_distinct_def slab_get_remove by (metis option.distinct(1))
  show "sess (snd (slab_remove k sl)) = (sess sl)(cid c := None)"
  proof (rule sess_eqI [OF d'])
    fix j e
    assume "slab_get (snd (slab_remove k sl)) j = Some e"
    then show "((sess sl)(cid c := None)) (cid e) = Some (set (held e))"
      using c sess_live [OF d, of j e] d by (auto simp: slab_get_remove ids_distinct_def split: if_splits)
  next
    fix i
    assume "((sess sl)(cid c := None)) i \<noteq> None"
    then obtain j e where "i \<noteq> cid c" "slab_get sl j = Some e" "cid e = i"
      by (auto split: if_splits dest!: sess_Some)
    with c show "\<exists>j e. slab_get (snd (slab_remove k sl)) j = Some e \<and> cid e = i"
      by (intro exI [of _ j] exI [of _ e]) (auto simp: slab_get_remove)
  qed
qed

lemma slab_get_insert:
  assumes "slab_insert c sl = (k, sl')"
  shows "slab_get sl k = None" and "slab_get sl' j = (if j = k then Some c else slab_get sl j)"
  using assms
  by (auto simp: slab_insert_def slab_get_def position_Some nth_append split: option.splits)

lemma sess_insert:
  assumes d: "ids_distinct sl" and ins: "slab_insert c sl = (k, sl')"
    and new: "\<And>j e. slab_get sl j = Some e \<Longrightarrow> cid e \<noteq> cid c"
  shows "sess sl' = (sess sl)(cid c \<mapsto> set (held c))" and "ids_distinct sl'"
proof -
  note g = slab_get_insert [OF ins]
  show d': "ids_distinct sl'"
    using d new unfolding ids_distinct_def g(2) by (metis option.sel)
  show "sess sl' = (sess sl)(cid c \<mapsto> set (held c))"
  proof (rule sess_eqI [OF d'])
    fix j e
    assume "slab_get sl' j = Some e"
    then show "((sess sl)(cid c \<mapsto> set (held c))) (cid e) = Some (set (held e))"
      using sess_live [OF d, of j e] new [of j e] by (auto simp: g(2) split: if_splits)
  next
    fix i
    assume "((sess sl)(cid c \<mapsto> set (held c))) i \<noteq> None"
    then show "\<exists>j e. slab_get sl' j = Some e \<and> cid e = i"
    proof (cases "i = cid c")
      case True
      then show ?thesis by (intro exI [of _ k]) (simp add: g(2))
    next
      case False
      with \<open>_ \<noteq> None\<close> obtain j e where "slab_get sl j = Some e" "cid e = i"
        by (auto dest!: sess_Some)
      with g show ?thesis by (intro exI [of _ j] exI [of _ e]) auto
    qed
  qed
qed

section \<open>Updates\<close>

lemma tab_update [simp]: "tab (AList.update n e l) = (tab l)(n \<mapsto> (holder e, waiters e))"
  by (rule ext) (simp add: tab_def update_conv' entry_view_def)

lemma tab_Some: "tab l n = Some (h, ws) \<longleftrightarrow> (\<exists>e. map_of l n = Some e \<and> holder e = h \<and> waiters e = ws)"
  by (auto simp: tab_def entry_view_def)

lemma tab_drop_waiter [simp]: "tab (drop_waiter i l) = drop_client i (tab l)"
proof (rule ext)
  fix n
  have "map_of (drop_waiter i l) n = map_option (\<lambda>e. e\<lparr>waiters := filter (\<lambda>w. w \<noteq> i) (waiters e)\<rparr>) (map_of l n)"
    by (induction l) (auto simp: drop_waiter_def)
  then show "tab (drop_waiter i l) n = drop_client i (tab l) n"
    by (simp add: tab_def drop_client_def entry_view_def option.map_comp comp_def)
qed

lemma lock_view_update [simp]:
  "lock_view (s\<lparr>locks := l\<rparr>) = (fst (lock_view s), tab l)"
  "lock_view (s\<lparr>registry := r\<rparr>) = lock_view s"
  by (simp_all add: lock_view_def)

lemma srv_ok_locks [simp]: "srv_ok (s\<lparr>locks := l\<rparr>) = srv_ok s"
  by (simp add: srv_ok_def)

lemma on_client_ok:
  assumes ok: "srv_ok s" and c: "client_at s k = Some c" and f: "cid (f c) = cid c" "client_ok (f c)"
    and r: "registry s k = Some True \<Longrightarrow> wants_write (f c)"
  shows "srv_ok (on_client k f s)"
    and "lock_view (on_client k f s) = ((fst (lock_view s))(cid c \<mapsto> set (held (f c))), snd (lock_view s))"
proof -
  note D = srv_okD [OF ok] and m = sess_modify [of "clients s" k c f, OF srv_okD(1) [OF ok] c f(1)]
  show "lock_view (on_client k f s) = ((fst (lock_view s))(cid c \<mapsto> set (held (f c))), snd (lock_view s))"
    using m(1) by (simp add: lock_view_def on_client_def)
  have "ids_distinct (clients (on_client k f s))" using m(2) by (simp add: on_client_def)
  then show "srv_ok (on_client k f s)"
    unfolding srv_ok_def using D(2-) c f r by auto
qed

lemma view_unchanged:
  assumes ok: "srv_ok s" and c: "client_at s k = Some c" and h: "ns = set (held c)"
  shows "(fst (lock_view s))(cid c \<mapsto> ns) = fst (lock_view s)"
  using sess_live [OF srv_okD(1) [OF ok] c] h by (auto simp: lock_view_def)

lemma view_live: "srv_ok s \<Longrightarrow> client_at s k = Some c \<Longrightarrow> fst (lock_view s) (cid c) = Some (set (held c))"
  using sess_live [of "clients s" k c] srv_okD(1) by (simp add: lock_view_def)

lemma enqueue_ok: "client_ok c \<Longrightarrow> client_ok (enqueue r c)"
  by (simp add: client_ok_def)

lemma enqueue_client:
  assumes ok: "srv_ok s" and c: "client_at s k = Some c"
  shows "srv_ok (on_client k (enqueue r) s)" "lock_view (on_client k (enqueue r) s) = lock_view s"
  using on_client_ok [OF ok c, of "enqueue r"] view_unchanged [OF ok c] enqueue_ok srv_okD(2) [OF ok c]
  by auto

section \<open>Promotion\<close>

lemma registry_ok:
  assumes "srv_ok s" and "client_at s k = Some c" and "b \<Longrightarrow> wants_write c"
  shows "srv_ok (s\<lparr>registry := (registry s)(k \<mapsto> b)\<rparr>)"
  using assms unfolding srv_ok_def by auto

lemmas registry_True_ok = registry_ok [where b = True]

lemma promote_None:
  "map_of (locks s) n = Some e \<Longrightarrow> waiters e = [] \<Longrightarrow>
     promote_and_notify n s = s\<lparr>locks := AList.update n (e\<lparr>holder := None\<rparr>) (locks s)\<rparr>"
  by (subst promote_and_notify.simps) (simp add: promote_next_def)

lemma promote_Some:
  "map_of (locks s) n = Some e \<Longrightarrow> waiters e = w # ws \<Longrightarrow> slot_of_id w (clients s) = Some k \<Longrightarrow>
     promote_and_notify n s =
       (on_client k (\<lambda>c. enqueue (Granted n) (c\<lparr>waiting_for := None, held := held c @ [n]\<rparr>))
         (s\<lparr>locks := AList.update n (e\<lparr>waiters := ws, holder := Some w\<rparr>) (locks s)\<rparr>))
       \<lparr>registry := (registry s)(k \<mapsto> True)\<rparr>"
  by (subst promote_and_notify.simps) (simp add: promote_next_def)

lemma promote_refines:
  assumes ok: "srv_ok s" and e: "map_of (locks s) n = Some e"
    and live: "\<And>w. w \<in> set (waiters e) \<Longrightarrow> \<exists>ns. fst (lock_view s) w = Some ns \<and> n \<notin> ns"
  shows "srv_ok (promote_and_notify n s)"
    and "lock_view (promote_and_notify n s) = hand_over n (waiters e) (lock_view s)"
    and "accepted (promote_and_notify n s) = accepted s"
proof -
  let ?t = "promote_and_notify n s"
  have "srv_ok ?t \<and> lock_view ?t = hand_over n (waiters e) (lock_view s) \<and> accepted ?t = accepted s"
  proof (cases "waiters e")
    case Nil
    with ok show ?thesis by (simp add: promote_None [OF e] hand_over_def lock_view_def)
  next
    case (Cons w ws)
    with live [of w] obtain k c where k: "slot_of_id w (clients s) = Some k" "client_at s k = Some c"
        "cid c = w" and n: "n \<notin> set (held c)"
      by (auto simp: lock_view_def dest!: sess_Some)
    let ?f = "\<lambda>c. enqueue (Granted n) (c\<lparr>waiting_for := None, held := held c @ [n]\<rparr>)"
    let ?s = "s\<lparr>locks := AList.update n (e\<lparr>waiters := ws, holder := Some w\<rparr>) (locks s)\<rparr>"
    have f: "client_ok (?f c)" using srv_okD(2) [OF ok k(2)] n by (simp add: client_ok_def)
    from ok k(2) have s: "srv_ok ?s" "client_at ?s k = Some c" by simp_all
    from on_client_ok [OF s, of ?f] f
    have o: "srv_ok (on_client k ?f ?s)"
      "lock_view (on_client k ?f ?s) = ((fst (lock_view ?s))(cid c \<mapsto> set (held (?f c))), snd (lock_view ?s))"
      by auto
    have "srv_ok ?t" unfolding promote_Some [OF e Cons k(1)]
      using registry_True_ok [OF o(1), of k "?f c"] k(2) by simp
    moreover have "lock_view ?t = hand_over n (waiters e) (lock_view s)"
      unfolding promote_Some [OF e Cons k(1)]
      using o(2) k(3) view_live [OF ok k(2)] Cons by (simp add: hand_over_def lock_view_def)
    moreover have "accepted ?t = accepted s" unfolding promote_Some [OF e Cons k(1)] by simp
    ultimately show ?thesis by blast
  qed
  then show "srv_ok ?t" "lock_view ?t = hand_over n (waiters e) (lock_view s)" "accepted ?t = accepted s"
    by blast+
qed

section \<open>Disconnection\<close>

text \<open>While a disconnected client's locks are released one by one, the client is a ghost session that
  still holds those not yet released.\<close>

lemma release_held_refines:
  assumes ok: "srv_ok s" and tok: "table_ok ((fst (lock_view s))(i \<mapsto> set (n # R)), snd (lock_view s))"
    and gone: "fst (lock_view s) i = None" and d: "distinct (n # R)"
    and out: "\<not> queued i (snd (lock_view s))"
  shows "srv_ok (release_held i n s)"
    and "lock_step ((fst (lock_view s))(i \<mapsto> set (n # R)), snd (lock_view s))
          ((fst (lock_view (release_held i n s)))(i \<mapsto> set R), snd (lock_view (release_held i n s)))"
    and "fst (lock_view (release_held i n s)) i = None"
    and "\<not> queued i (snd (lock_view (release_held i n s)))"
    and "accepted (release_held i n s) = accepted s"
    and "snd (lock_view (release_held i n s)) = (\<lambda>m. if m = n then
           map_option (\<lambda>(h, ws). case ws of [] \<Rightarrow> (None, []) | w # ws' \<Rightarrow> (Some w, ws')) (snd (lock_view s) n)
         else snd (lock_view s) m)"
proof -
  let ?V = "fst (lock_view s)" and ?M = "snd (lock_view s)" and ?t = "release_held i n s"
  have "(?V(i \<mapsto> set (n # R))) i = Some (set (n # R))" by simp
  from table_okD(2) [OF tok this] obtain ws where ws: "?M n = Some (Some i, ws)" by auto
  then obtain e where e: "map_of (locks s) n = Some e" "holder e = Some i" "waiters e = ws"
    by (auto simp: lock_view_def tab_Some)
  let ?s = "s\<lparr>locks := AList.update n (e\<lparr>holder := None\<rparr>) (locks s)\<rparr>"
  have t: "?t = promote_and_notify n ?s" using e by (simp add: release_held_def)
  have live: "\<exists>ns. ?V w = Some ns \<and> n \<notin> ns" if "w \<in> set ws" for w
  proof -
    from table_okD(4) [OF tok ws that] have wi: "w \<noteq> i" "?V w \<noteq> None" by (auto split: if_splits)
    then obtain ns where "?V w = Some ns" by auto
    with wi table_okD(2) [OF tok, of w ns n] ws show ?thesis by auto
  qed
  have "map_of (locks ?s) n = Some (e\<lparr>holder := None\<rparr>)" by (simp add: update_conv')
  from promote_refines [OF _ this] ok live e
  have p: "srv_ok ?t" "lock_view ?t = hand_over n ws (lock_view ?s)" "accepted ?t = accepted s"
    unfolding t by (auto simp: lock_view_def)
  show "srv_ok ?t" "accepted ?t = accepted s" by fact+
  have "set (n # R) - {n} = set R" using d by auto
  with lock_step.release [of "?V(i \<mapsto> set (n # R))" i "set (n # R)" ?M n ws] ws
  have st: "lock_step (?V(i \<mapsto> set (n # R)), ?M) (hand_over n ws (?V(i \<mapsto> set R), ?M))" by simp
  have iws: "i \<notin> set ws" using out ws by (auto simp: queued_def)
  have h: "hand_over n ws (?V(i \<mapsto> set R), ?M) = ((fst (lock_view ?t))(i \<mapsto> set R), snd (lock_view ?t))"
    unfolding p(2) using iws
    by (cases ws) (auto simp: hand_over_def lock_view_def e intro!: fun_upd_twist)
  show "lock_step (?V(i \<mapsto> set (n # R)), ?M) ((fst (lock_view ?t))(i \<mapsto> set R), snd (lock_view ?t))"
    using st unfolding h .
  show "snd (lock_view ?t) = (\<lambda>m. if m = n then
           map_option (\<lambda>(h, ws). case ws of [] \<Rightarrow> (None, []) | w # ws' \<Rightarrow> (Some w, ws')) (?M n) else ?M m)"
    unfolding p(2) ws by (cases ws) (auto simp: hand_over_def lock_view_def)
  show "fst (lock_view ?t) i = None"
    unfolding p(2) using gone iws by (cases ws) (auto simp: hand_over_def lock_view_def)
  show "\<not> queued i (snd (lock_view ?t))"
    using iws out unfolding p(2) queued_def
    by (cases ws) (auto simp: hand_over_def lock_view_def split: if_splits)
qed

lemma release_all_refines:
  assumes "srv_ok s" and "table_ok ((fst (lock_view s))(i \<mapsto> set R), snd (lock_view s))"
    and "fst (lock_view s) i = None" and "distinct R"
    and "\<not> queued i (snd (lock_view s))"
  shows "srv_ok (fold (release_held i) R s) \<and>
    lock_step\<^sup>*\<^sup>* ((fst (lock_view s))(i \<mapsto> set R), snd (lock_view s)) (lock_view (fold (release_held i) R s)) \<and>
    accepted (fold (release_held i) R s) = accepted s \<and>
    fst (lock_view (fold (release_held i) R s)) i = None"
  using assms
proof (induction R arbitrary: s)
  case Nil
  have "lock_step ((fst (lock_view s))(i \<mapsto> {}), snd (lock_view s)) (((fst (lock_view s))(i \<mapsto> {}))(i := None), snd (lock_view s))"
    by (rule lock_step.leave) (use Nil(5) in auto)
  moreover have "((fst (lock_view s))(i \<mapsto> {}))(i := None) = fst (lock_view s)"
    using Nil(3) by (simp add: fun_upd_idem)
  ultimately have "lock_step\<^sup>*\<^sup>* ((fst (lock_view s))(i \<mapsto> set []), snd (lock_view s)) (lock_view s)"
    by (simp add: r_into_rtranclp)
  with Nil(1,3) show ?case unfolding fold.simps id_apply by (intro conjI refl)
next
  case (Cons n R)
  note r = release_held_refines [OF Cons.prems(1,2,3,4,5)]
  from table_ok_step [OF r(2) Cons.prems(2)]
  have tok: "table_ok ((fst (lock_view (release_held i n s)))(i \<mapsto> set R), snd (lock_view (release_held i n s)))" .
  have "distinct R" using Cons.prems(4) by simp
  note ih = Cons.IH [OF r(1) tok r(3) this r(4)]
  from converse_rtranclp_into_rtranclp [OF r(2) ih [THEN conjunct2, THEN conjunct1]] ih
  show ?case unfolding fold_simps r(5) by (elim conjE) (intro conjI)
qed

text \<open>A piece of the server that keeps its invariant and is a sequence of the service's steps.\<close>

definition good :: "server \<Rightarrow> bool" where
  "good s \<longleftrightarrow> srv_ok s \<and> table_ok (lock_view s)"

definition refines :: "server \<Rightarrow> server \<Rightarrow> bool" where
  "refines s t \<longleftrightarrow> good t \<and> lock_step\<^sup>*\<^sup>* (lock_view s) (lock_view t) \<and> accepted t = accepted s"

lemma refinesI:
  "good s \<Longrightarrow> srv_ok t \<Longrightarrow> lock_step\<^sup>*\<^sup>* (lock_view s) (lock_view t) \<Longrightarrow> accepted t = accepted s \<Longrightarrow> refines s t"
  by (auto simp: refines_def good_def intro: table_ok_steps)

lemma refines_refl [simp]: "good s \<Longrightarrow> refines s s"
  by (simp add: refines_def)

lemma refines_trans: "refines s t \<Longrightarrow> refines t u \<Longrightarrow> refines s u"
  by (auto simp: refines_def)

lemma refines_good: "refines s t \<Longrightarrow> good t"
  by (simp add: refines_def)

lemma goodD: "good s \<Longrightarrow> srv_ok s" "good s \<Longrightarrow> table_ok (lock_view s)"
  by (simp_all add: good_def)

lemma disconnect_refines_aux:
  assumes g: "good s" and c: "client_at s k = Some c"
  shows "refines s (disconnect_client k s)" and "fst (lock_view (disconnect_client k s)) (cid c) = None"
proof -
  let ?i = "cid c" and ?V = "fst (lock_view s)" and ?M = "snd (lock_view s)"
  let ?s = "s\<lparr>clients := snd (slab_remove k (clients s)), registry := (registry s)(k := None),
              locks := drop_waiter ?i (locks s)\<rparr>"
  note D = srv_okD [OF goodD(1) [OF g]] and rm = sess_remove [OF srv_okD(1) [OF goodD(1) [OF g]] c]
  have t: "disconnect_client k s = fold (release_held ?i) (held c) ?s"
    using c by (simp add: disconnect_client_def slab_remove_def)
  have v: "lock_view ?s = (?V(?i := None), drop_client ?i ?M)"
    using rm(1) by (simp add: lock_view_def)
  have srv: "srv_ok ?s" unfolding srv_ok_def using rm(2) D by (auto simp: slab_get_remove)
  have ghost: "(?V(?i := None))(?i \<mapsto> set (held c)) = ?V"
    using view_live [OF goodD(1) [OF g] c] by (simp add: fun_upd_idem)
  have dropped: "lock_step (lock_view s) (?V, drop_client ?i ?M)"
    using lock_step.forget [of ?V ?M ?i] by simp
  have tok: "table_ok ((fst (lock_view ?s))(?i \<mapsto> set (held c)), snd (lock_view ?s))"
    unfolding v fst_conv snd_conv ghost using table_ok_step [OF dropped goodD(2) [OF g]] .
  have "distinct (held c)" using D(2) [OF c] by (simp add: client_ok_def)
  moreover have "\<not> queued ?i (snd (lock_view ?s))" unfolding v by simp
  moreover have "fst (lock_view ?s) ?i = None" unfolding v by simp
  ultimately have r: "srv_ok (disconnect_client k s)"
    "lock_step\<^sup>*\<^sup>* ((fst (lock_view ?s))(?i \<mapsto> set (held c)), snd (lock_view ?s)) (lock_view (disconnect_client k s))"
    "accepted (disconnect_client k s) = accepted ?s" "fst (lock_view (disconnect_client k s)) ?i = None"
    unfolding t using release_all_refines [OF srv tok] by blast+
  from r(2) have "lock_step\<^sup>*\<^sup>* (?V, drop_client ?i ?M) (lock_view (disconnect_client k s))"
    unfolding v fst_conv snd_conv ghost .
  with dropped have "lock_step\<^sup>*\<^sup>* (lock_view s) (lock_view (disconnect_client k s))"
    by (rule converse_rtranclp_into_rtranclp)
  then show "refines s (disconnect_client k s)" using g r(1,3) by (intro refinesI) auto
  show "fst (lock_view (disconnect_client k s)) ?i = None" by (rule r(4))
qed

lemma disconnect_refines: "good s \<Longrightarrow> refines s (disconnect_client k s)"
proof (cases "client_at s k")
  case None
  then show "good s \<Longrightarrow> refines s (disconnect_client k s)"
    by (simp add: disconnect_client_def slab_remove_def)
qed (rule disconnect_refines_aux)

section \<open>Requests\<close>

lemma store_entry_refines:
  assumes g: "good s" and e: "store_entry n (locks s) = (e, l)"
  shows "refines s (s\<lparr>locks := l\<rparr>)" and "map_of l n = Some e"
proof -
  show "map_of l n = Some e"
    using e by (auto simp: store_entry_def update_conv' split: option.splits)
  show "refines s (s\<lparr>locks := l\<rparr>)"
  proof (cases "map_of (locks s) n")
    case None
    with e have l: "l = AList.update n lock_entry_new (locks s)" by (simp add: store_entry_def)
    have "lock_step (fst (lock_view s), tab (locks s)) (fst (lock_view s), (tab (locks s))(n \<mapsto> (None, [])))"
      by (rule lock_step.touch) (simp add: tab_def None)
    then have "lock_step (lock_view s) (lock_view (s\<lparr>locks := l\<rparr>))"
      by (simp add: l lock_entry_new_def lock_view_def)
    then show ?thesis using g by (intro refinesI r_into_rtranclp) (auto dest: goodD)
  next
    case (Some e')
    with e have "l = locks s" by (simp add: store_entry_def)
    then have "s\<lparr>locks := l\<rparr> = s" by simp
    with g show ?thesis by (simp only: refines_refl)
  qed
qed

lemma on_client_refines:
  assumes g: "good s" and c: "client_at s k = Some c" and f: "cid (f c) = cid c" "client_ok (f c)"
    and r: "wants_write c \<Longrightarrow> wants_write (f c)"
    and st: "lock_step\<^sup>*\<^sup>* (lock_view s) ((fst (lock_view s))(cid c \<mapsto> set (held (f c))), tab l)"
  shows "refines s (on_client k f (s\<lparr>locks := l\<rparr>))"
proof -
  let ?s = "s\<lparr>locks := l\<rparr>"
  have ok: "srv_ok ?s" "client_at ?s k = Some c" using g c by (simp_all add: goodD)
  have "registry ?s k = Some True \<Longrightarrow> wants_write (f c)"
    using srv_okD(6) [OF goodD(1) [OF g] c] r by simp
  note o = on_client_ok [where f = f, OF ok f this]
  from o(2) st have "lock_step\<^sup>*\<^sup>* (lock_view s) (lock_view (on_client k f ?s))" by simp
  with g o(1) show ?thesis by (intro refinesI) auto
qed

lemma quiet_refines:
  assumes g: "good s" and c: "client_at s k = Some c" and f: "cid (f c) = cid c" "client_ok (f c)"
    "held (f c) = held c" and r: "wants_write c \<Longrightarrow> wants_write (f c)"
  shows "refines s (on_client k f s)"
  using on_client_refines [where f = f and l = "locks s", OF g c f(1,2) r] f(3)
    view_unchanged [OF goodD(1) [OF g] c refl] by (simp add: lock_view_def)

lemma enqueue_refines: "good s \<Longrightarrow> client_at s k = Some c \<Longrightarrow> refines s (on_client k (enqueue r) s)"
  by (rule quiet_refines) (auto intro: enqueue_ok srv_okD(2) goodD)

lemma grant_refines:
  assumes g: "good s" and c: "client_at s k = Some c" and e: "map_of (locks s) n = Some e" "holder e = None"
  shows "refines s (on_client k (\<lambda>c. enqueue (Granted n) (c\<lparr>held := held c @ [n]\<rparr>))
           (s\<lparr>locks := AList.update n (e\<lparr>holder := Some (cid c)\<rparr>) (locks s)\<rparr>))"
proof (rule on_client_refines [OF g c])
  let ?V = "fst (lock_view s)" and ?M = "tab (locks s)"
  have V: "?V (cid c) = Some (set (held c))" by (rule view_live [OF goodD(1) [OF g] c])
  have M: "?M n = Some (None, waiters e)" using e by (simp add: tab_Some)
  have "n \<notin> set (held c)"
    using table_okD(2) [of ?V ?M "cid c" "set (held c)" n] goodD(2) [OF g] V M by (auto simp: lock_view_def)
  then show "client_ok (enqueue (Granted n) (c\<lparr>held := held c @ [n]\<rparr>))"
    using srv_okD(2) [OF goodD(1) [OF g] c] by (simp add: client_ok_def)
  have "lock_step (?V, ?M) (?V(cid c \<mapsto> insert n (set (held c))), ?M(n \<mapsto> (Some (cid c), waiters e)))"
    by (rule lock_step.grant [where V = ?V and M = ?M and n = n and ws = "waiters e", OF V M])
  then show "lock_step\<^sup>*\<^sup>* (lock_view s) (?V(cid c \<mapsto> set (held (enqueue (Granted n) (c\<lparr>held := held c @ [n]\<rparr>)))),
      tab (AList.update n (e\<lparr>holder := Some (cid c)\<rparr>) (locks s)))"
    by (simp add: lock_view_def r_into_rtranclp)
qed auto

lemma wait_refines:
  assumes g: "good s" and c: "client_at s k = Some c" and e: "map_of (locks s) n = Some e"
    and w: "holder e \<noteq> None" "holder e \<noteq> Some (cid c)" "cid c \<notin> set (waiters e)"
  shows "refines s (on_client k (\<lambda>c. c\<lparr>waiting_for := Some n\<rparr>)
           (s\<lparr>locks := AList.update n (e\<lparr>waiters := waiters e @ [cid c]\<rparr>) (locks s)\<rparr>))"
proof (rule on_client_refines [OF g c])
  let ?V = "fst (lock_view s)" and ?M = "tab (locks s)"
  have V: "?V (cid c) = Some (set (held c))" by (rule view_live [OF goodD(1) [OF g] c])
  from w(1,2) obtain h where h: "holder e = Some h" "h \<noteq> cid c" by auto
  with e have "?M n = Some (Some h, waiters e)" by (simp add: tab_Some)
  from lock_step.wait [where V = ?V and M = ?M and n = n and ws = "waiters e", OF V this h(2) w(3)]
  show "lock_step\<^sup>*\<^sup>* (lock_view s) (?V(cid c \<mapsto> set (held (c\<lparr>waiting_for := Some n\<rparr>))),
      tab (AList.update n (e\<lparr>waiters := waiters e @ [cid c]\<rparr>) (locks s)))"
    using h(1) view_unchanged [OF goodD(1) [OF g] c refl] by (simp add: lock_view_def r_into_rtranclp)
  show "client_ok (c\<lparr>waiting_for := Some n\<rparr>)"
    using srv_okD(2) [OF goodD(1) [OF g] c] by (simp add: client_ok_def)
qed auto

lemma release_refines:
  assumes g: "good s" and c: "client_at s k = Some c" and e: "map_of (locks s) n = Some e" "holder e = Some (cid c)"
  defines "s' \<equiv> on_client k (\<lambda>c. enqueue Ok (c\<lparr>held := filter (\<lambda>m. m \<noteq> n) (held c)\<rparr>)) s"
  shows "refines s (promote_and_notify n s')"
    and "lock_view (promote_and_notify n s') =
           hand_over n (waiters e) ((fst (lock_view s))(cid c \<mapsto> set (held c) - {n}), snd (lock_view s))"
proof -
  let ?V = "fst (lock_view s)" and ?M = "tab (locks s)"
  let ?f = "\<lambda>c. enqueue Ok (c\<lparr>held := filter (\<lambda>m. m \<noteq> n) (held c)\<rparr>)"
  have V: "?V (cid c) = Some (set (held c))" by (rule view_live [OF goodD(1) [OF g] c])
  have M: "?M n = Some (Some (cid c), waiters e)" using e by (simp add: tab_Some)
  have tok: "table_ok (?V, ?M)" using goodD(2) [OF g] by (simp add: lock_view_def)
  have "client_ok (?f c)" using srv_okD(2) [OF goodD(1) [OF g] c] by (simp add: client_ok_def)
  note o = on_client_ok [OF goodD(1) [OF g] c, of ?f, simplified, OF this [simplified]]
  have v: "lock_view s' = (?V(cid c \<mapsto> set (held c) - {n}), ?M)"
    unfolding s'_def using o(2) by (simp add: lock_view_def set_diff_eq)
  have live: "\<exists>ns. fst (lock_view s') w = Some ns \<and> n \<notin> ns" if "w \<in> set (waiters e)" for w
  proof -
    from table_okD(4) [OF tok M that] obtain ns where w: "w \<noteq> cid c" "?V w = Some ns" by auto
    with table_okD(2) [OF tok, of w ns n] M show ?thesis by (auto simp: v)
  qed
  have "srv_ok s'" using o(1) by (simp add: s'_def)
  moreover have "map_of (locks s') n = Some e" using e by (simp add: s'_def)
  ultimately have p: "srv_ok (promote_and_notify n s')"
      "lock_view (promote_and_notify n s') = hand_over n (waiters e) (lock_view s')"
      "accepted (promote_and_notify n s') = accepted s'"
    using promote_refines live by blast+
  show "lock_view (promote_and_notify n s') = hand_over n (waiters e) (?V(cid c \<mapsto> set (held c) - {n}), snd (lock_view s))"
    using p(2) v by (simp add: lock_view_def)
  have "lock_step (lock_view s) (lock_view (promote_and_notify n s'))"
    using lock_step.release [where V = ?V and M = ?M and n = n and ws = "waiters e", OF V M] p(2) v by (simp add: lock_view_def)
  then show "refines s (promote_and_notify n s')"
    using g p(1,3) by (intro refinesI r_into_rtranclp) (auto simp: s'_def)
qed

lemma list_reply_refines:
  assumes g: "good s" and c: "client_at s k = Some c"
  shows "refines s (on_client k
     (\<lambda>c. enqueue ListEnd (fold (\<lambda>n. enqueue (ListEntry n)) ns (enqueue ListBegin c))) s)"
proof (rule quiet_refines [OF g c])
  have "client_ok (fold (\<lambda>n. enqueue (ListEntry n)) ns d)" if "client_ok d" for d
    using that by (induction ns arbitrary: d) (auto intro: enqueue_ok)
  then show "client_ok (enqueue ListEnd (fold (\<lambda>n. enqueue (ListEntry n)) ns (enqueue ListBegin c)))"
    using srv_okD(2) [OF goodD(1) [OF g] c] by (simp add: enqueue_ok)
qed auto

lemma process_request_refines:
  assumes g: "good s" and c: "client_at s k = Some c"
  shows "refines s (process_request k (cid c) req s)"
proof -
  have step: "refines s (s\<lparr>locks := l\<rparr>) \<and> good (s\<lparr>locks := l\<rparr>) \<and> client_at (s\<lparr>locks := l\<rparr>) k = Some c \<and>
      map_of (locks (s\<lparr>locks := l\<rparr>)) n = Some e"
    if "store_entry n (locks s) = (e, l)" for n e l
    using store_entry_refines [OF g that] refines_good c by auto
  show ?thesis
  proof (cases req)
    case (Acquire n)
    obtain e l where el: "store_entry n (locks s) = (e, l)" by fastforce
    with step obtain r: "refines s (s\<lparr>locks := l\<rparr>)" "good (s\<lparr>locks := l\<rparr>)" "client_at (s\<lparr>locks := l\<rparr>) k = Some c"
      "map_of (locks (s\<lparr>locks := l\<rparr>)) n = Some e" by blast
    from enqueue_refines [OF r(2,3)] grant_refines [OF r(2,3,4)] wait_refines [OF r(2,3,4)] el
    show ?thesis
      by (auto simp: Acquire process_request_def Let_def intro!: refines_trans [OF r(1)])
  next
    case (TryAcquire n)
    obtain e l where el: "store_entry n (locks s) = (e, l)" by fastforce
    with step obtain r: "refines s (s\<lparr>locks := l\<rparr>)" "good (s\<lparr>locks := l\<rparr>)" "client_at (s\<lparr>locks := l\<rparr>) k = Some c"
      "map_of (locks (s\<lparr>locks := l\<rparr>)) n = Some e" by blast
    from enqueue_refines [OF r(2,3)] grant_refines [OF r(2,3,4)] el
    show ?thesis by (auto simp: TryAcquire process_request_def Let_def intro!: refines_trans [OF r(1)])
  next
    case (Release n)
    obtain e l where el: "store_entry n (locks s) = (e, l)" by fastforce
    with step obtain r: "refines s (s\<lparr>locks := l\<rparr>)" "good (s\<lparr>locks := l\<rparr>)" "client_at (s\<lparr>locks := l\<rparr>) k = Some c"
      "map_of (locks (s\<lparr>locks := l\<rparr>)) n = Some e" by blast
    from enqueue_refines [OF r(2,3)] release_refines(1) [OF r(2,3,4)] el
    show ?thesis by (auto simp: Release process_request_def Let_def intro!: refines_trans [OF r(1)])
  next
    case (Status n)
    obtain e l where el: "store_entry n (locks s) = (e, l)" by fastforce
    with step obtain r: "refines s (s\<lparr>locks := l\<rparr>)" "good (s\<lparr>locks := l\<rparr>)" "client_at (s\<lparr>locks := l\<rparr>) k = Some c" by blast
    from enqueue_refines [OF r(2,3)] el
    show ?thesis by (auto simp: Status process_request_def intro!: refines_trans [OF r(1)])
  next
    case List_Locks
    then show ?thesis using list_reply_refines [OF g c] by (simp add: process_request_def)
  qed
qed

lemma process_line_refines: "good s \<Longrightarrow> client_at s k = Some c \<Longrightarrow> refines s (process_line k l s)"
  using process_request_refines enqueue_refines by (auto simp: process_line_def split: option.split)

section \<open>The event loop\<close>

lemma accepted_promote [simp]: "accepted (promote_and_notify n s) = accepted s"
  by (induction n s rule: promote_and_notify.induct)
    (subst promote_and_notify.simps, auto split: prod.splits option.splits)

lemma accepted_release [simp]: "accepted (fold (release_held i) ns s) = accepted s"
  by (induction ns arbitrary: s) (auto simp: release_held_def split: option.split)

lemma accepted_disconnect [simp]: "accepted (disconnect_client k s) = accepted s"
  by (simp add: disconnect_client_def split: prod.split option.split)

lemma accepted_process_line [simp]: "accepted (process_line k l s) = accepted s"
  by (simp add: process_line_def process_request_def Let_def split: option.split request.split prod.split)

lemma accepted_process_lines [simp]: "accepted (process_lines k s) = accepted s"
  by (induction k s rule: process_lines.induct)
    (subst process_lines.simps, auto simp: Let_def split: option.split prod.split sum.split frame_error.split)

lemma accepted_handle_readable [simp]: "accepted (handle_readable k bs e s) = accepted s"
  by (simp add: handle_readable_def Let_def split: option.split prod.split)

lemma accepted_handle_writable [simp]: "accepted (snd (handle_writable k ans s)) = accepted s"
  by (simp add: handle_writable_def Let_def split: option.split prod.split)

text \<open>\<open>evolves\<close> also covers the pieces that may accept connections.\<close>

definition evolves :: "server \<Rightarrow> server \<Rightarrow> bool" where
  "evolves s t \<longleftrightarrow> accepted s \<le> accepted t \<and>
     (good s \<longrightarrow> accepted t < 2 ^ 64 - 1 \<longrightarrow> good t \<and> lock_step\<^sup>*\<^sup>* (lock_view s) (lock_view t))"

lemma evolves_refl [simp]: "evolves s s"
  by (simp add: evolves_def)

lemma evolves_trans: "evolves s t \<Longrightarrow> evolves t u \<Longrightarrow> evolves s u"
  unfolding evolves_def by (meson le_less_trans le_trans rtranclp_trans)

lemma refines_evolves: "accepted t = accepted s \<Longrightarrow> (good s \<Longrightarrow> refines s t) \<Longrightarrow> evolves s t"
  by (auto simp: evolves_def refines_def)

lemma evolves_fold: "(\<And>x s. x \<in> set xs \<Longrightarrow> evolves s (f x s)) \<Longrightarrow> evolves s (fold f xs s)"
proof (induction xs arbitrary: s)
  case (Cons x xs)
  have "evolves s (f x s)" by (rule Cons.prems) simp
  moreover have "evolves (f x s) (fold f xs (f x s))" by (rule Cons.IH) (use Cons.prems in auto)
  ultimately show ?case by (simp add: evolves_trans)
qed simp

lemma evolves_accept: "evolves s (accept_client s)"
proof -
  obtain k sl where ins: "slab_insert (client_new (next_client_id s)) (clients s) = (k, sl)" by fastforce
  let ?t = "accept_client s" and ?c = "client_new (next_client_id s)"
  have t: "?t = s\<lparr>clients := sl, next_client_id := next_client_id s + 1, registry := (registry s)(k \<mapsto> False),
                 accepted := accepted s + 1\<rparr>"
    by (simp add: accept_client_def ins Let_def)
  have "good ?t \<and> lock_step\<^sup>*\<^sup>* (lock_view s) (lock_view ?t)"
    if g: "good s" and b: "accepted s + 1 < 2 ^ 64 - 1"
  proof -
    note D = srv_okD [OF goodD(1) [OF g]]
    have u: "unat (next_client_id s) = accepted s + 1"
      unfolding D(8) using b by (subst unat_of_nat_small) auto
    have new: "cid e \<noteq> cid ?c" if "client_at s j = Some e" for j e
      using D(4) [OF that] u by (auto simp: client_new_def)
    note i = sess_insert [OF D(1) ins new] and sg = slab_get_insert [OF ins]
    have cok: "client_ok ?c" by (simp add: client_ok_def client_new_def framer_new_def pending_def buf_at_def)
    have live: "client_ok e \<and> 1 \<le> unat (cid e) \<and> unat (cid e) \<le> accepted ?t \<and> registry ?t j \<noteq> None \<and>
        (registry ?t j = Some True \<longrightarrow> wants_write e)" if "client_at ?t j = Some e" for j e
    proof (cases "j = k")
      case True
      with that u cok show ?thesis by (auto simp: t sg(2) client_new_def)
    next
      case False
      with that have "client_at s j = Some e" by (simp add: t sg(2))
      with D(2,3,4,5,6) [of j e] False show ?thesis by (auto simp: t)
    qed
    have "srv_ok ?t" unfolding srv_ok_def
    proof (intro conjI allI impI)
      show "ids_distinct (clients ?t)" using i(2) by (simp add: t)
      show "next_client_id ?t = of_nat (accepted ?t + 1)" using D(8) by (simp add: t algebra_simps)
      fix j assume "client_at ?t j = None"
      then have "j \<noteq> k" "client_at s j = None" by (auto simp: t sg(2) split: if_splits)
      with D(7) show "registry ?t j = None" by (simp add: t)
    qed (use live in blast)+
    moreover have "fst (lock_view s) (cid ?c) = None"
      using new by (cases "sess (clients s) (cid ?c)") (auto simp: lock_view_def dest!: sess_Some)
    then have "lock_step (lock_view s) (lock_view ?t)"
      using lock_step.join [of "fst (lock_view s)" "cid ?c" "snd (lock_view s)"] i(1)
      by (simp add: t lock_view_def client_new_def)
    moreover have "table_ok (lock_view ?t)"
      using goodD(2) [OF g] table_ok_step [OF \<open>lock_step _ _\<close>] by simp
    ultimately show ?thesis by (auto simp: good_def)
  qed
  then show ?thesis by (simp add: evolves_def t)
qed

lemma evolves_listener: "evolves s (handle_listener as s)"
  unfolding handle_listener_def
  by (rule evolves_fold) (simp add: evolves_accept split: accept_answer.split)

lemma set_reader_refines:
  "good s \<Longrightarrow> client_at s k = Some c \<Longrightarrow> refines s (on_client k (\<lambda>c. c\<lparr>reader_of := r\<rparr>) s)"
  using srv_okD(2) [of s k c] by (intro quiet_refines) (auto simp: client_ok_def dest: goodD)

lemma process_lines_refines: "good s \<Longrightarrow> refines s (process_lines k s)"
proof (induction k s rule: process_lines.induct)
  case (1 k s)
  show ?case
  proof (cases "client_at s k")
    case None
    with "1.prems" show ?thesis by (simp add: process_lines.simps)
  next
    case (Some c)
    obtain res r where n: "next_line (reader_of c) = (res, r)" by fastforce
    let ?s = "on_client k (\<lambda>c. c\<lparr>reader_of := r\<rparr>) s"
    from set_reader_refines [OF "1.prems" Some] have sr: "refines s ?s" .
    note g = refines_good [OF sr]
    have c: "client_at ?s k = Some (c\<lparr>reader_of := r\<rparr>)" using Some by simp
    note more = refines_trans [OF sr]
    show ?thesis
    proof (cases res)
      case (Inl e)
      have eq: "process_lines k s = disconnect_client k
          (if e = LineTooLong then on_client k (enqueue (Err (drop 4 ERR_LINE_TOO_LONG))) ?s else ?s)"
        using Some n Inl by (subst process_lines.simps) (simp split: frame_error.split)
      have enq: "refines ?s (on_client k (enqueue r) ?s)" for r by (rule enqueue_refines [OF g c])
      show ?thesis unfolding eq
        using more disconnect_refines [OF g] refines_trans [OF enq disconnect_refines [OF refines_good [OF enq]]]
        by simp
    next
      case (Inr o')
      show ?thesis
      proof (cases o')
        case None
        with Some n Inr sr show ?thesis by (simp add: process_lines.simps)
      next
        case l: (Some l)
        note IH = "1.IH" [OF Some n [symmetric] Inr l refl refl]
        have pl: "refines ?s (process_line k (trim_end CR l) ?s)" by (rule process_line_refines [OF g c])
        have eq: "process_lines k s = (if trim_end CR l = [] then process_lines k ?s
              else process_lines k (process_line k (trim_end CR l) ?s))"
          using Some n Inr l by (subst process_lines.simps) (simp add: Let_def)
        show ?thesis unfolding eq using IH g more refines_trans [OF pl] refines_good [OF pl] by auto
      qed
    qed
  qed
qed

lemma evolves_readable: "evolves s (handle_readable k bs e s)"
proof (rule refines_evolves)
  assume g: "good s"
  show "refines s (handle_readable k bs e s)"
  proof (cases "client_at s k")
    case None
    with g show ?thesis by (simp add: handle_readable_def)
  next
    case (Some c)
    obtain res r where rf: "refresh bs e (reader_of c) = (res, r)" by fastforce
    let ?s = "on_client k (\<lambda>c. c\<lparr>reader_of := r\<rparr>) s"
    let ?u = "process_lines k ?s"
    have sr: "refines s ?s" by (rule set_reader_refines [OF g Some])
    note pl = refines_trans [OF sr process_lines_refines [OF refines_good [OF sr], of k]]
    show ?thesis
    proof (cases "res = Inr ()")
      case False
      with Some rf show ?thesis
        using refines_trans [OF sr disconnect_refines [OF refines_good [OF sr]]]
        by (simp add: handle_readable_def Let_def)
    next
      case True
      have "refines ?u (?u\<lparr>registry := (registry ?u)(k \<mapsto> True)\<rparr>)"
        if "client_at ?u k = Some d" "wants_write d" for d
        using registry_True_ok [OF goodD(1) [OF refines_good [OF pl]] that] refines_good [OF pl]
        by (intro refinesI) auto
      with pl Some rf True show ?thesis
        by (auto simp: handle_readable_def Let_def split: option.split intro: refines_trans)
    qed
  qed
qed simp

lemma flush_client_ok:
  assumes "flush_client ans c = (r, c')" and "client_ok c"
  shows "cid c' = cid c" "held c' = held c" "wants_write c' = wants_write c"
    and "r = Flushed \<Longrightarrow> client_ok (c'\<lparr>wants_write := False\<rparr>)"
    and "r = Flushed \<longleftrightarrow> pending (writer_of c') = []"
    and "r \<noteq> Flushed \<Longrightarrow> client_ok c'"
    and "delivered c' @ pending (writer_of c') = delivered c @ pending (writer_of c)"
proof -
  obtain w out rest where f: "flush_nonblocking (writer_of c) ans = (r, w, out, rest)"
    and c': "c' = c\<lparr>writer_of := w, delivered := delivered c @ out\<rparr>"
    using assms(1) by (auto simp: flush_client_def split: prod.splits)
  from flush_pending [OF f] have p: "out @ pending w = pending (writer_of c)" "r = Flushed \<longleftrightarrow> pending w = []"
    by auto
  show "cid c' = cid c" "held c' = held c" "wants_write c' = wants_write c" by (simp_all add: c')
  show "r = Flushed \<longleftrightarrow> pending (writer_of c') = []" using p by (simp add: c')
  show "r = Flushed \<Longrightarrow> client_ok (c'\<lparr>wants_write := False\<rparr>)"
    using assms(2) p by (simp add: client_ok_def c')
  show "r \<noteq> Flushed \<Longrightarrow> client_ok c'"
    using assms(2) p by (auto simp: client_ok_def c')
  show "delivered c' @ pending (writer_of c') = delivered c @ pending (writer_of c)"
    using p by (simp add: c')
qed

lemma registry_on_client: "(on_client k f s)\<lparr>registry := r\<rparr> = on_client k f (s\<lparr>registry := r\<rparr>)"
  by (simp add: on_client_def)

lemma replace_client_refines:
  assumes g: "good s" and c: "client_at s k = Some c" and d: "cid d = cid c" "held d = held c" "client_ok d"
    and b: "b \<Longrightarrow> wants_write d" "b \<Longrightarrow> wants_write c"
  shows "refines s ((on_client k (\<lambda>_. d) s)\<lparr>registry := (registry s)(k \<mapsto> b)\<rparr>)"
    and "lock_view ((on_client k (\<lambda>_. d) s)\<lparr>registry := (registry s)(k \<mapsto> b)\<rparr>) = lock_view s"
proof -
  let ?s = "s\<lparr>registry := (registry s)(k \<mapsto> b)\<rparr>"
  have ok: "srv_ok ?s" "client_at ?s k = Some c" using registry_ok [OF goodD(1) [OF g] c b(2)] c by simp_all
  from on_client_ok [OF ok, of "\<lambda>_. d"] d b(1)
  have o: "srv_ok (on_client k (\<lambda>_. d) ?s)"
    "lock_view (on_client k (\<lambda>_. d) ?s) = ((fst (lock_view ?s))(cid c \<mapsto> set (held d)), snd (lock_view ?s))" by auto
  show v: "lock_view ((on_client k (\<lambda>_. d) s)\<lparr>registry := (registry s)(k \<mapsto> b)\<rparr>) = lock_view s"
    using o(2) d(2) view_unchanged [OF goodD(1) [OF g] c refl] by (simp add: registry_on_client)
  show "refines s ((on_client k (\<lambda>_. d) s)\<lparr>registry := (registry s)(k \<mapsto> b)\<rparr>)"
    using g o(1) v by (intro refinesI) (simp_all add: registry_on_client)
qed

lemma replace_client_quiet:
  assumes g: "good s" and c: "client_at s k = Some c" and d: "cid d = cid c" "held d = held c" "client_ok d"
    and w: "wants_write d = wants_write c"
  shows "refines s (on_client k (\<lambda>_. d) s)" and "lock_view (on_client k (\<lambda>_. d) s) = lock_view s"
proof -
  have "srv_ok (on_client k (\<lambda>_. d) s)"
    "lock_view (on_client k (\<lambda>_. d) s) = ((fst (lock_view s))(cid c \<mapsto> set (held d)), snd (lock_view s))"
    using on_client_ok [OF goodD(1) [OF g] c, of "\<lambda>_. d"] d w srv_okD(6) [OF goodD(1) [OF g] c] by auto
  then show "lock_view (on_client k (\<lambda>_. d) s) = lock_view s" "refines s (on_client k (\<lambda>_. d) s)"
    using g d(2) view_unchanged [OF goodD(1) [OF g] c refl] by (auto intro!: refinesI)
qed

lemma evolves_writable: "evolves s (snd (handle_writable k ans s))"
proof (rule refines_evolves)
  assume g: "good s"
  show "refines s (snd (handle_writable k ans s))"
  proof (cases "client_at s k")
    case None
    with g show ?thesis by (simp add: handle_writable_def)
  next
    case (Some c)
    obtain r c' where f: "flush_client ans c = (r, c')" by fastforce
    note ok = flush_client_ok [OF f srv_okD(2) [OF goodD(1) [OF g] Some]]
    show ?thesis
    proof (cases "r = Flushed")
      case True
      have "on_client k (\<lambda>c. c\<lparr>wants_write := False\<rparr>) (on_client k (\<lambda>_. c') s) = on_client k (\<lambda>_. c'\<lparr>wants_write := False\<rparr>) s"
        by (auto simp: lock_simps split: option.split)
      with True Some f show ?thesis
        using replace_client_refines(1) [OF g Some, of "c'\<lparr>wants_write := False\<rparr>" False] ok
        by (simp add: handle_writable_def Let_def)
    next
      case False
      have q: "refines s (on_client k (\<lambda>_. c') s)"
        by (rule replace_client_quiet [OF g Some]) (use ok False in auto)
      show ?thesis using Some f False q refines_trans [OF q disconnect_refines [OF refines_good [OF q]]]
        by (simp add: handle_writable_def Let_def)
    qed
  qed
qed simp

lemma evolves_event: "evolves s (handle_event ev s)"
proof (cases ev)
  case (Listener as)
  then show ?thesis by (simp add: handle_event_def evolves_listener)
next
  case (Client k w r)
  obtain d u where p: "(case w of None \<Rightarrow> (False, s) | Some ans \<Rightarrow> handle_writable k ans s) = (d, u)" by fastforce
  have "evolves s u" using evolves_writable [of s k] p by (cases w) (simp, metis snd_conv option.simps(5))
  moreover have "evolves u (case r of None \<Rightarrow> u | Some (bs, e) \<Rightarrow> handle_readable k bs e u)"
    by (auto simp: evolves_readable split: option.split)
  ultimately show ?thesis using p
    by (auto simp: handle_event_def Client intro: evolves_trans split: bool.split)
qed

section \<open>The flush pass\<close>

lemma reregister_on_client:
  "idx \<noteq> k \<Longrightarrow> reregister idx (on_client k f s) = on_client k f (reregister idx s)"
  by (simp add: reregister_def registry_on_client split: option.split)

lemma fold_reregister_on_client:
  "k \<notin> set rr \<Longrightarrow> fold reregister rr (on_client k f s) = on_client k f (fold reregister rr s)"
  by (induction rr arbitrary: s) (auto simp: reregister_on_client)

lemma client_at_reregister [simp]: "client_at (reregister idx s) k = client_at s k"
  by (simp add: reregister_def split: option.split)

lemma client_at_fold_reregister [simp]: "client_at (fold reregister rr s) k = client_at s k"
  by (induction rr arbitrary: s) auto

lemma flush_slot_step:
  assumes st: "flush_slot ans k (s, rr, dd) = (t, rr', dd')"
    and g: "good (fold reregister rr s)" and k: "k \<notin> set rr"
  defines "u \<equiv> fold reregister rr s" and "v \<equiv> fold reregister rr' t"
  shows "refines u v" and "lock_view v = lock_view u"
    and "j \<noteq> k \<Longrightarrow> client_at v j = client_at u j \<and> registry v j = registry u j"
    and "client_at v k = Some c \<Longrightarrow> wants_write c \<Longrightarrow> k \<notin> set dd' \<Longrightarrow> registry v k = Some True"
    and "set rr' \<subseteq> insert k (set rr)" and "set dd \<subseteq> set dd'"
proof -
  have "refines u v \<and> lock_view v = lock_view u \<and>
    (\<forall>j. j \<noteq> k \<longrightarrow> client_at v j = client_at u j \<and> registry v j = registry u j) \<and>
    (\<forall>c. client_at v k = Some c \<longrightarrow> wants_write c \<longrightarrow> k \<notin> set dd' \<longrightarrow> registry v k = Some True) \<and>
    set rr' \<subseteq> insert k (set rr) \<and> set dd \<subseteq> set dd'"
  proof (cases "client_at s k")
    case None
    with st g show ?thesis by (auto simp: flush_slot_def u_def v_def)
  next
    case (Some d)
    then have d: "client_at u k = Some d" by (simp add: u_def)
    have gu: "good u" using g by (simp add: u_def)
    obtain r c' where f: "flush_client (ans k) d = (r, c')" by fastforce
    note ok = flush_client_ok [OF f srv_okD(2) [OF goodD(1) [OF gu] d]]
    show ?thesis
    proof (cases "wants_write d")
      case False
      with Some st gu d show ?thesis by (auto simp: flush_slot_def u_def v_def)
    next
      case True
      define e where "e = (if r = Flushed then c'\<lparr>wants_write := False\<rparr> else c')"
      have e: "cid e = cid d" "held e = held d" "client_ok e" "wants_write e \<longleftrightarrow> r \<noteq> Flushed"
        using ok True by (auto simp: e_def)
      have t: "t = on_client k (\<lambda>_. e) s" "dd' = (if r = Flushed \<or> r = Pending then dd else dd @ [k])"
          "rr' = (if r = Flushed \<or> r = Pending then rr @ [k] else rr)"
        using st Some True f by (auto simp: flush_slot_def e_def split: if_splits)
      have cu: "fold reregister rr t = on_client k (\<lambda>_. e) u"
        unfolding t(1) u_def by (rule fold_reregister_on_client [OF k])
      show ?thesis
      proof (cases "r = Flushed \<or> r = Pending")
        case rereg: True
        then have v: "v = (on_client k (\<lambda>_. e) u)\<lparr>registry := (registry u)(k \<mapsto> wants_write e)\<rparr>"
          using cu d by (simp add: v_def t(3) reregister_def)
        from replace_client_refines [OF gu d e(1,2,3), of "wants_write e"] True rereg d t show ?thesis
          unfolding v by auto
      next
        case False
        then have v: "v = on_client k (\<lambda>_. e) u" using cu by (simp add: v_def t(3))
        from replace_client_quiet [OF gu d e(1,2,3)] e(4) False True t show ?thesis
          unfolding v by auto
      qed
    qed
  qed
  then show "refines u v" and "lock_view v = lock_view u"
    and "j \<noteq> k \<Longrightarrow> client_at v j = client_at u j \<and> registry v j = registry u j"
    and "client_at v k = Some c \<Longrightarrow> wants_write c \<Longrightarrow> k \<notin> set dd' \<Longrightarrow> registry v k = Some True"
    and "set rr' \<subseteq> insert k (set rr)" and "set dd \<subseteq> set dd'"
    by blast+
qed

lemma flush_slots:
  assumes "fold (flush_slot ans) xs (s, rr, dd) = (t, rr', dd')"
    and "good (fold reregister rr s)" and "distinct xs" and "set xs \<inter> set rr = {}"
  shows "refines (fold reregister rr s) (fold reregister rr' t) \<and>
    lock_view (fold reregister rr' t) = lock_view (fold reregister rr s) \<and>
    (\<forall>j. j \<notin> set xs \<longrightarrow> client_at t j = client_at s j \<and>
        registry (fold reregister rr' t) j = registry (fold reregister rr s) j) \<and>
    (\<forall>j c. j \<in> set xs \<longrightarrow> client_at t j = Some c \<longrightarrow> wants_write c \<longrightarrow> j \<notin> set dd' \<longrightarrow>
        registry (fold reregister rr' t) j = Some True) \<and>
    set dd \<subseteq> set dd'"
  using assms
proof (induction xs arbitrary: s rr dd)
  case Nil
  then show ?case by auto
next
  case (Cons k xs)
  obtain s1 rr1 dd1 where st: "flush_slot ans k (s, rr, dd) = (s1, rr1, dd1)" by (metis prod_cases3)
  from Cons.prems(4) have k: "k \<notin> set rr" by simp
  note F = flush_slot_step [OF st Cons.prems(2) k]
  have "set xs \<inter> set rr1 = {}" using F(5) Cons.prems(3,4) by auto
  from Cons.IH [OF _ refines_good [OF F(1)] _ this] Cons.prems(1,3) st
  have ih: "refines (fold reregister rr1 s1) (fold reregister rr' t) \<and>
    lock_view (fold reregister rr' t) = lock_view (fold reregister rr1 s1) \<and>
    (\<forall>j. j \<notin> set xs \<longrightarrow> client_at t j = client_at s1 j \<and>
        registry (fold reregister rr' t) j = registry (fold reregister rr1 s1) j) \<and>
    (\<forall>j c. j \<in> set xs \<longrightarrow> client_at t j = Some c \<longrightarrow> wants_write c \<longrightarrow> j \<notin> set dd' \<longrightarrow>
        registry (fold reregister rr' t) j = Some True) \<and>
    set dd1 \<subseteq> set dd'"
    by auto
  have kx: "k \<notin> set xs" using Cons.prems(3) by simp
  have now: "registry (fold reregister rr' t) k = Some True"
    if "client_at t k = Some c" "wants_write c" "k \<notin> set dd'" for c
    using F(4) [of c] ih kx that by auto
  have rest: "client_at t j = client_at s j \<and>
      registry (fold reregister rr' t) j = registry (fold reregister rr s) j" if "j \<notin> set (k # xs)" for j
    using F(3) [of j] ih that by auto
  show ?case
    using ih F(2,6) refines_trans [OF F(1)] now rest by auto
qed

text \<open>Output waits for a \<^verbatim>\<open>WRITABLE\<close> event at every slot outside \<open>D\<close>.\<close>

definition armed :: "nat set \<Rightarrow> server \<Rightarrow> bool" where
  "armed D s \<longleftrightarrow>
     (\<forall>k c. client_at s k = Some c \<longrightarrow> k \<notin> D \<longrightarrow> wants_write c \<longrightarrow> registry s k = Some True)"

lemma armed_locks [simp]: "armed D (s\<lparr>locks := l\<rparr>) = armed D s"
  by (simp add: armed_def)

lemma armed_promote: "armed D s \<Longrightarrow> armed D (promote_and_notify n s)"
proof (induction n s rule: promote_and_notify.induct)
  case (1 n s)
  obtain o' l where p: "promote_next n (locks s) = (o', l)" by fastforce
  show ?case
  proof (cases o')
    case None
    with p "1.prems" show ?thesis by (subst promote_and_notify.simps) simp
  next
    case (Some w)
    show ?thesis
    proof (cases "slot_of_id w (clients s)")
      case None
      with "1.IH" [OF p [symmetric] Some None] "1.prems" p Some show ?thesis
        by (subst promote_and_notify.simps) simp
    next
      case (Some k)
      with p \<open>o' = Some w\<close> "1.prems" show ?thesis
        by (subst promote_and_notify.simps) (auto simp: armed_def)
    qed
  qed
qed

lemma armed_release: "armed D s \<Longrightarrow> armed D (fold (release_held i) ns s)"
proof (induction ns arbitrary: s)
  case (Cons n ns)
  have "armed D (release_held i n s)"
    unfolding release_held_def using Cons.prems by (intro armed_promote) (simp split: option.split)
  from Cons.IH [OF this] show ?case by simp
qed simp

lemma armed_disconnect:
  assumes "armed D s" shows "armed (D - {k}) (disconnect_client k s)"
proof (cases "client_at s k")
  case None
  with assms show ?thesis by (auto simp: disconnect_client_def slab_remove_def armed_def)
next
  case (Some c)
  let ?s = "s\<lparr>clients := snd (slab_remove k (clients s)), registry := (registry s)(k := None),
              locks := drop_waiter (cid c) (locks s)\<rparr>"
  have "armed (D - {k}) ?s" using assms by (auto simp: armed_def slab_get_remove)
  from armed_release [OF this] Some show ?thesis by (simp add: disconnect_client_def slab_remove_def)
qed

lemma armed_disconnects: "armed (set dd) s \<Longrightarrow> armed {} (fold disconnect_client dd s)"
proof (induction dd arbitrary: s)
  case (Cons k dd)
  from armed_disconnect [OF Cons.prems, of k] have "armed (set dd) (disconnect_client k s)"
    by (auto simp: armed_def)
  from Cons.IH [OF this] show ?case by simp
qed simp

lemma flush_pass_ok:
  assumes g: "good s"
  shows "refines s (flush_pass ans s)" and "armed {} (flush_pass ans s)"
proof -
  obtain t rr dd where f: "fold (flush_slot ans) [0..<length (clients s)] (s, [], []) = (t, rr, dd)"
    by (metis prod_cases3)
  let ?v = "fold reregister rr t"
  have eq: "flush_pass ans s = fold disconnect_client dd ?v" by (simp add: flush_pass_def f)
  from flush_slots [OF f] g have F: "refines s ?v"
    "\<And>j. \<not> j < length (clients s) \<Longrightarrow> client_at t j = client_at s j"
    "\<And>j c. j < length (clients s) \<Longrightarrow> client_at t j = Some c \<Longrightarrow> wants_write c \<Longrightarrow> j \<notin> set dd \<Longrightarrow>
        registry ?v j = Some True" by auto
  have "armed (set dd) ?v" unfolding armed_def
  proof (intro allI impI)
    fix k c
    assume a: "client_at ?v k = Some c" "k \<notin> set dd" "wants_write c"
    then have "client_at t k = Some c" by simp
    moreover from this F(2) have "k < length (clients s)" by (cases "k < length (clients s)") (auto simp: slab_get_def)
    ultimately show "registry ?v k = Some True" using F(3) a by blast
  qed
  then show "armed {} (flush_pass ans s)" unfolding eq by (rule armed_disconnects)
  have "refines u (fold disconnect_client dd u)" if "good u" for u
    using that
  proof (induction dd arbitrary: u)
    case (Cons k dd)
    from disconnect_refines [OF Cons.prems] Cons.IH show ?case by (auto intro: refines_trans refines_good)
  qed simp
  then show "refines s (flush_pass ans s)" unfolding eq using F(1) refines_trans refines_good by blast
qed

section \<open>Reachable servers\<close>

lemma loop_body_evolves: "evolves s (loop_body evs ans s)"
proof -
  have e: "evolves s (fold handle_event evs s)" by (rule evolves_fold) (rule evolves_event)
  have a: "accepted (fold disconnect_client dd u) = accepted u" for dd u
    by (induction dd arbitrary: u) auto
  have b: "accepted (fold reregister rr u) = accepted u" for rr u
    by (induction rr arbitrary: u) (auto simp: reregister_def split: option.split)
  have "accepted (fst (flush_slot ans k p)) = accepted (fst p)" for k p
    by (auto simp: flush_slot_def split: prod.split option.split)
  then have c: "accepted (fst (fold (flush_slot ans) ks p)) = accepted (fst p)" for ks p
    by (induction ks arbitrary: p) auto
  have "accepted (flush_pass ans u) = accepted u" for u
    using c [of "[0..<length (clients u)]" "(u, [], [])"] by (auto simp: flush_pass_def a b split: prod.splits)
  then have "evolves u (flush_pass ans u)" for u
    by (rule refines_evolves) (rule flush_pass_ok)
  with e show ?thesis by (auto simp: loop_body_def intro: evolves_trans)
qed

lemma srv_ok_init: "srv_ok server_init"
  by (simp add: srv_ok_def server_init_def ids_distinct_def slab_get_def)

lemma lock_view_init: "lock_view server_init = (Map.empty, Map.empty)"
  by (auto simp: lock_view_def server_init_def sess_def slot_of_id_def tab_def fun_eq_iff)

interpretation ev: lock_server "\<lambda>s. s = server_init" loop_step "\<lambda>s. accepted s < 2 ^ 64 - 1 \<longrightarrow> srv_ok s" lock_view
proof unfold_locales
  fix s t
  assume inv: "accepted s < 2 ^ 64 - 1 \<longrightarrow> srv_ok s" and tok: "table_ok (lock_view s)" and st: "loop_step s t"
  from st obtain evs ans where t: "t = loop_body evs ans s" "accepted t < 2 ^ 64 - 1" by (auto elim: loop_stepE)
  with loop_body_evolves [of s evs ans] inv tok
  show "(accepted t < 2 ^ 64 - 1 \<longrightarrow> srv_ok t) \<and> lock_step\<^sup>*\<^sup>* (lock_view s) (lock_view t)"
    by (auto simp: evolves_def good_def)
qed (simp add: srv_ok_init lock_view_init)

abbreviation server_reach :: "server \<Rightarrow> bool" where
  "server_reach \<equiv> reach (\<lambda>s. s = server_init) loop_step"

lemma server_reach_bounded: "server_reach s \<Longrightarrow> accepted s < 2 ^ 64 - 1"
  by (induction rule: reach.induct) (auto simp: server_init_def elim: loop_stepE)

lemma server_reach_good: "server_reach s \<Longrightarrow> good s"
  using ev.reach_ok server_reach_bounded by (auto simp: good_def)


text \<open>C4. Mutual exclusion in the event-loop server: a name is in the held list of at most one client,
  once, and it is in the list of exactly the client the lock's entry names as its holder.\<close>

theorem event_server_exclusive:
  assumes "server_reach s" and "client_at s i = Some c"
  shows "distinct (held c) \<and>
    (\<forall>j d n. client_at s j = Some d \<and> n \<in> set (held c) \<and> n \<in> set (held d) \<longrightarrow> j = i) \<and>
    (\<forall>n. n \<in> set (held c) \<longleftrightarrow> (\<exists>e. map_of (locks s) n = Some e \<and> holder e = Some (cid c)))"
proof -
  note g = server_reach_good [OF assms(1)] and ex = ev.reach_promises [OF assms(1)]
  note live = view_live [OF goodD(1) [OF g]]
  have "distinct (held c)" using srv_okD(2) [OF goodD(1) [OF g] assms(2)] by (simp add: client_ok_def)
  moreover have "j = i" if "client_at s j = Some d" "n \<in> set (held c)" "n \<in> set (held d)" for j d n
  proof -
    have "cid d = cid c" using ex live [OF that(1)] live [OF assms(2)] that(2,3) unfolding exclusive_def by blast
    with srv_okD(1) [OF goodD(1) [OF g]] that(1) assms(2) show ?thesis by (auto simp: ids_distinct_def)
  qed
  moreover have "n \<in> set (held c) \<longleftrightarrow> (\<exists>ws. snd (lock_view s) n = Some (Some (cid c), ws))" for n
    using ex live [OF assms(2)] unfolding exclusive_def by auto
  then have "n \<in> set (held c) \<longleftrightarrow> (\<exists>e. map_of (locks s) n = Some e \<and> holder e = Some (cid c))" for n
    by (simp add: lock_view_def tab_Some)
  ultimately show ?thesis by blast
qed

text \<open>C25. No reply is stuck: when the loop goes back to \<^verbatim>\<open>poll\<close>, the socket of every client is registered
  for \<^verbatim>\<open>WRITABLE\<close> events exactly while bytes of a reply are still buffered for it, and no slot without a
  client is registered.\<close>

theorem event_server_no_stuck_reply:
  assumes "server_reach s" and "loop_step s t"
  shows "\<forall>k. registry t k =
    (case client_at t k of None \<Rightarrow> None | Some c \<Rightarrow> Some (\<not> write_buffer_empty (writer_of c)))"
proof
  fix k
  from assms(2) obtain evs ans where t: "t = flush_pass ans (fold handle_event evs s)" "accepted t < 2 ^ 64 - 1"
    by (auto elim!: loop_stepE simp: loop_body_def)
  have "evolves s (fold handle_event evs s)" by (rule evolves_fold) (rule evolves_event)
  moreover have acc: "accepted (fold handle_event evs s) \<le> accepted t"
  proof -
    from loop_body_evolves [of "fold handle_event evs s" "[]" ans] t show ?thesis
      by (simp add: loop_body_def evolves_def)
  qed
  ultimately have g: "good (fold handle_event evs s)"
    using server_reach_good [OF assms(1)] t(2) by (simp add: evolves_def)
  from flush_pass_ok [OF g, of ans] t(1) have ok: "srv_ok t" and arm: "armed {} t"
    by (auto dest: refines_good goodD)
  show "registry t k =
    (case client_at t k of None \<Rightarrow> None | Some c \<Rightarrow> Some (\<not> write_buffer_empty (writer_of c)))"
  proof (cases "client_at t k")
    case None
    with srv_okD(7) [OF ok] show ?thesis by simp
  next
    case (Some c)
    with srv_okD(2,5,6) [OF ok Some] arm show ?thesis
      by (cases "registry t k = Some True") (auto simp: armed_def client_ok_def pending_empty)
  qed
qed

end
