(* ===== verification/Event_Requests.thy ===== *)
theory Event_Requests
  imports Event_Locks
begin

text \<open>
  What the single requests of the event-loop server do, on every branch: the change of the lock table, the
  bytes queued for each client, and who is left alone.  \<open>good\<close> is the invariant every state of the loop
  satisfies (\<^verbatim>\<open>Event_Locks\<close>).
\<close>

section \<open>Output and entries\<close>

text \<open>Everything sent to the client in a slot so far, or still buffered for it.\<close>

definition output_at :: "server \<Rightarrow> nat \<Rightarrow> string option" where
  "output_at s k = map_option (\<lambda>c. delivered c @ pending (writer_of c)) (client_at s k)"

definition promoted :: "client_id option \<times> client_id list \<Rightarrow> client_id option \<times> client_id list" where
  "promoted e = (case snd e of [] \<Rightarrow> (None, []) | w # ws \<Rightarrow> (Some w, ws))"

lemma parse_request_verbs:
  assumes "is_valid_lock_name n"
  shows "parse_request (''ACQUIRE '' @ n) = Some (Acquire n)"
    "parse_request (''TRY_ACQUIRE '' @ n) = Some (TryAcquire n)"
    "parse_request (''RELEASE '' @ n) = Some (Release n)"
    "parse_request (''STATUS '' @ n) = Some (Status n)"
  using assms valid_name_no_space [OF assms]
  by (simp_all add: parse_request_def split_first_def split_once_Cons take_lock_name_strict_def)

lemma lookup_store_entry:
  "store_entry n l = (e, l') \<Longrightarrow>
     e = (case map_of l n of None \<Rightarrow> lock_entry_new | Some e \<Rightarrow> e) \<and> map_of l' = (map_of l)(n \<mapsto> e)"
  by (auto simp: store_entry_def update_conv' split: option.splits)

lemma output_enqueue:
  "(\<And>c. delivered (f c) @ pending (writer_of (f c)) = delivered c @ pending (writer_of c) @ bs) \<Longrightarrow>
     output_at (on_client k f s) j = (if j = k then map_option (\<lambda>out. out @ bs) (output_at s j) else output_at s j)"
  by (simp add: output_at_def option.map_comp comp_def)

lemma output_locks [simp]: "output_at (s\<lparr>locks := l\<rparr>) = output_at s" "output_at (s\<lparr>registry := r\<rparr>) = output_at s"
  by (simp_all add: output_at_def fun_eq_iff)

section \<open>ACQUIRE\<close>

text \<open>C28. \<^verbatim>\<open>ACQUIRE\<close> on every branch: a client that holds the lock or already waits for it gets
  \<^verbatim>\<open>ERR already held\<close> and the table is unchanged; a free or unknown lock is granted, recorded and answered
  at once; a lock held by another puts the client at the end of the queue with no reply.  No other client
  and no other lock is affected.\<close>

theorem acquire_outcome:
  assumes "client_at s k = Some c" and "is_valid_lock_name n"
  defines "t \<equiv> process_line k (''ACQUIRE '' @ n) s"
    and "e \<equiv> (case map_of (locks s) n of None \<Rightarrow> lock_entry_new | Some e \<Rightarrow> e)"
  shows "(\<forall>j. j \<noteq> k \<longrightarrow> client_at t j = client_at s j) \<and> registry t = registry s \<and>
    (if holder e = Some (cid c) \<or> cid c \<in> set (waiters e) then
       map_of (locks t) = (map_of (locks s))(n \<mapsto> e) \<and>
       output_at t k = map_option (\<lambda>out. out @ ''ERR already held'' @ [NL]) (output_at s k) \<and>
       map_option held (client_at t k) = Some (held c)
     else if holder e = None then
       map_of (locks t) = (map_of (locks s))(n \<mapsto> e\<lparr>holder := Some (cid c)\<rparr>) \<and>
       output_at t k = map_option (\<lambda>out. out @ ''GRANTED '' @ n @ [NL]) (output_at s k) \<and>
       map_option held (client_at t k) = Some (held c @ [n])
     else
       map_of (locks t) = (map_of (locks s))(n \<mapsto> e\<lparr>waiters := waiters e @ [cid c]\<rparr>) \<and>
       client_at t k = Some (c\<lparr>waiting_for := Some n\<rparr>))"
proof -
  obtain e' l where el: "store_entry n (locks s) = (e', l)" by fastforce
  from lookup_store_entry [OF this] have e: "e' = e" "map_of l = (map_of (locks s))(n \<mapsto> e)"
    by (simp_all add: e_def)
  show ?thesis unfolding t_def process_line_def
    using assms(1) e el parse_request_verbs(1) [OF assms(2)]
    by (simp add: process_request_def Let_def output_at_def update_conv' ERR_ALREADY_HELD_def)
qed

section \<open>RELEASE\<close>

text \<open>C13. \<^verbatim>\<open>RELEASE\<close> by the holder hands the lock to the client that has waited longest: that client
  becomes the holder, has the name added to its held list, \<^verbatim>\<open>GRANTED\<close> queued and \<^verbatim>\<open>WRITABLE\<close> interest
  registered; the releaser loses the name and gets \<^verbatim>\<open>OK\<close>; all other clients and locks stay as they are.\<close>

theorem release_hands_over:
  assumes "good s" and "client_at s k = Some c" and "is_valid_lock_name n"
    and "map_of (locks s) n = Some e" and "holder e = Some (cid c)" and "waiters e = w # ws"
  defines "t \<equiv> process_line k (''RELEASE '' @ n) s"
  shows "\<exists>j d. j \<noteq> k \<and> client_at s j = Some d \<and> cid d = w \<and>
    map_of (locks t) = (map_of (locks s))(n \<mapsto> \<lparr> holder = Some w, waiters = ws \<rparr>) \<and>
    output_at t j = map_option (\<lambda>out. out @ ''GRANTED '' @ n @ [NL]) (output_at s j) \<and>
    map_option held (client_at t j) = Some (held d @ [n]) \<and> registry t j = Some True \<and>
    output_at t k = map_option (\<lambda>out. out @ ''OK'' @ [NL]) (output_at s k) \<and>
    map_option held (client_at t k) = Some (filter (\<lambda>m. m \<noteq> n) (held c)) \<and>
    (\<forall>i. i \<noteq> j \<longrightarrow> i \<noteq> k \<longrightarrow> client_at t i = client_at s i)"
proof -
  let ?s = "on_client k (\<lambda>c. enqueue Ok (c\<lparr>held := filter (\<lambda>m. m \<noteq> n) (held c)\<rparr>)) s"
  have el: "store_entry n (locks s) = (e, locks s)" using assms(4) by (simp add: store_entry_def)
  have "snd (lock_view s) n = Some (Some (cid c), w # ws)"
    using assms(4-6) by (simp add: lock_view_def tab_Some)
  with table_okD(4) [of "fst (lock_view s)" "snd (lock_view s)" n "Some (cid c)" "w # ws" w] goodD(2) [OF assms(1)]
  have w: "w \<noteq> cid c" "fst (lock_view s) w \<noteq> None" by auto
  then obtain j d where j: "client_at s j = Some d" "cid d = w" by (auto simp: lock_view_def dest!: sess_Some)
  with w assms(2) have jk: "j \<noteq> k" by auto
  from on_client_ok(1) [OF goodD(1) [OF assms(1)] assms(2), of "\<lambda>c. enqueue Ok (c\<lparr>held := filter (\<lambda>m. m \<noteq> n) (held c)\<rparr>)"]
    srv_okD(2) [OF goodD(1) [OF assms(1)] assms(2)]
  have "srv_ok ?s" by (simp add: client_ok_def)
  from slot_of_id_live [OF srv_okD(1) [OF this], of j d] j jk have sl: "slot_of_id w (clients ?s) = Some j" by simp
  have t: "t = promote_and_notify n ?s"
    unfolding t_def process_line_def using assms(2,5) el parse_request_verbs(3) [OF assms(3)]
    by (simp add: process_request_def Let_def)
  have "map_of (locks ?s) n = Some e" using assms(4) by simp
  note p = promote_Some [OF this assms(6) sl]
  show ?thesis unfolding t p
    by (rule exI [of _ j], rule exI [of _ d])
      (use j jk assms(2) in \<open>auto simp: update_conv' output_at_def\<close>)
qed

section \<open>Disconnection\<close>

lemma release_all_table:
  assumes "srv_ok s" and "table_ok ((fst (lock_view s))(i \<mapsto> set R), snd (lock_view s))"
    and "fst (lock_view s) i = None" and "distinct R" and "\<not> queued i (snd (lock_view s))"
  shows "snd (lock_view (fold (release_held i) R s)) =
    (\<lambda>m. if m \<in> set R then map_option promoted (snd (lock_view s) m) else snd (lock_view s) m)"
  using assms
proof (induction R arbitrary: s)
  case Nil
  then show ?case by simp
next
  case (Cons n R)
  note r = release_held_refines [OF Cons.prems]
  from table_ok_step [OF r(2) Cons.prems(2)]
  have tok: "table_ok ((fst (lock_view (release_held i n s)))(i \<mapsto> set R), snd (lock_view (release_held i n s)))" .
  have d: "distinct R" "n \<notin> set R" using Cons.prems(4) by simp_all
  show ?case unfolding fold_simps Cons.IH [OF r(1) tok r(3) d(1) r(4)] r(6)
    using d(2) by (auto simp: fun_eq_iff promoted_def case_prod_beta' intro!: option.map_cong split: list.split)
qed

text \<open>The slot of a disconnected client stays free while its locks are passed on.\<close>

lemma disconnect_frees_slot:
  assumes "client_at s k = Some c"
  shows "client_at (disconnect_client k s) k = None"
proof -
  have "client_at (promote_and_notify n u) k = None" if "client_at u k = None" for n u
    using that
  proof (induction n u rule: promote_and_notify.induct)
    case (1 n u)
    from "1.prems" "1.IH" show ?case
      by (subst promote_and_notify.simps) (auto split: prod.split option.split)
  qed
  then have "client_at (release_held i n u) k = None" if "client_at u k = None" for i n u
    using that by (simp add: release_held_def split: option.split)
  then have "client_at (fold (release_held i) R u) k = None" if "client_at u k = None" for i R u
    using that by (induction R arbitrary: u) auto
  then show ?thesis using assms by (simp add: disconnect_client_def slab_remove_def slab_get_def)
qed

text \<open>Each entry after a disconnection.\<close>

lemma disconnect_entries:
  assumes g: "good s" and c: "client_at s k = Some c" and e: "map_of (locks s) n = Some e"
  shows "\<exists>e'. map_of (locks (disconnect_client k s)) n = Some e' \<and>
    (holder e', waiters e') = (if holder e = Some (cid c) then promoted (holder e, waiters e)
      else (holder e, filter (\<lambda>w. w \<noteq> cid c) (waiters e)))"
proof -
  let ?i = "cid c" and ?V = "fst (lock_view s)" and ?M = "snd (lock_view s)"
  let ?s = "s\<lparr>clients := snd (slab_remove k (clients s)), registry := (registry s)(k := None),
              locks := drop_waiter ?i (locks s)\<rparr>" and ?t = "disconnect_client k s"
  note D = srv_okD [OF goodD(1) [OF g]] and rm = sess_remove [OF srv_okD(1) [OF goodD(1) [OF g]] c]
  have tok: "table_ok (?V, ?M)" using goodD(2) [OF g] by simp
  have V: "?V ?i = Some (set (held c))" by (rule view_live [OF goodD(1) [OF g] c])
  have v: "lock_view ?s = (?V(?i := None), drop_client ?i ?M)" using rm(1) by (simp add: lock_view_def)
  have t: "?t = fold (release_held ?i) (held c) ?s"
    using c by (simp add: disconnect_client_def slab_remove_def)
  have srv: "srv_ok ?s" unfolding srv_ok_def using rm(2) D by (auto simp: slab_get_remove)
  have ghost: "(?V(?i := None))(?i \<mapsto> set (held c)) = ?V" using V by (simp add: fun_upd_idem)
  have "table_ok ((fst (lock_view ?s))(?i \<mapsto> set (held c)), snd (lock_view ?s))"
    unfolding v fst_conv snd_conv ghost using table_ok_drop [OF tok] .
  moreover have "distinct (held c)" using D(2) [OF c] by (simp add: client_ok_def)
  moreover have "\<not> queued ?i (snd (lock_view ?s))" "fst (lock_view ?s) ?i = None" unfolding v by simp_all
  ultimately have tab: "snd (lock_view ?t) =
      (\<lambda>m. if m \<in> set (held c) then map_option promoted (drop_client ?i ?M m) else drop_client ?i ?M m)"
    unfolding t v [THEN arg_cong [of _ _ snd], unfolded snd_conv, symmetric]
    by (intro release_all_table [OF srv])
  have mine: "n \<in> set (held c) \<longleftrightarrow> (\<exists>ws. ?M n = Some (Some ?i, ws))"
    using table_okD(1,2) [OF tok] V by (metis option.inject)
  have M: "?M n = Some (holder e, waiters e)" using e by (simp add: lock_view_def tab_Some)
  have keep: "filter (\<lambda>w. w \<noteq> ?i) (waiters e) = waiters e" if "holder e = Some ?i"
    using table_okD(4) [OF tok M] that by (auto simp: filter_id_conv)
  have "snd (lock_view ?t) n = Some (if holder e = Some ?i then promoted (holder e, waiters e)
      else (holder e, filter (\<lambda>w. w \<noteq> ?i) (waiters e)))"
    unfolding tab using M mine keep by (simp add: drop_client_def)
  then show ?thesis by (auto simp: lock_view_def tab_def entry_view_def)
qed

text \<open>C14. A disconnected client leaves nothing behind: its slot and its registration are free, no entry
  names it as holder or waiter, each lock it held has gone to the head of its queue (or is free when the
  queue is empty), and every other lock keeps its holder and its other waiters in order.\<close>

theorem disconnect_releases_all:
  assumes "good s" and "client_at s k = Some c"
  defines "t \<equiv> disconnect_client k s"
  shows "client_at t k = None \<and> registry t k = None \<and>
    (\<forall>n e'. map_of (locks t) n = Some e' \<longrightarrow> holder e' \<noteq> Some (cid c) \<and> cid c \<notin> set (waiters e')) \<and>
    (\<forall>n e. map_of (locks s) n = Some e \<longrightarrow> (\<exists>e'. map_of (locks t) n = Some e' \<and>
       (if holder e = Some (cid c) then
          (case waiters e of
             [] \<Rightarrow> holder e' = None \<and> waiters e' = []
           | w # ws \<Rightarrow> holder e' = Some w \<and> waiters e' = ws)
        else holder e' = holder e \<and> waiters e' = filter (\<lambda>w. w \<noteq> cid c) (waiters e))))"
proof -
  note g = assms(1) and c = assms(2)
  have gone: "fst (lock_view t) (cid c) = None"
    unfolding t_def by (rule disconnect_refines_aux(2) [OF g c])
  have gt: "good t" unfolding t_def using disconnect_refines [OF g] by (rule refines_good)
  note T = table_okD [of "fst (lock_view t)" "snd (lock_view t)"]
  have free: "holder e' \<noteq> Some (cid c) \<and> cid c \<notin> set (waiters e')" if "map_of (locks t) n = Some e'" for n e'
  proof -
    have "snd (lock_view t) n = Some (holder e', waiters e')" using that by (simp add: lock_view_def tab_Some)
    with T(1,4) goodD(2) [OF gt] gone show ?thesis by fastforce
  qed
  have slot: "client_at t k = None" unfolding t_def by (rule disconnect_frees_slot [OF c])
  then have "registry t k = None" using srv_okD(7) [OF goodD(1) [OF gt]] by blast
  moreover have "\<exists>e'. map_of (locks t) n = Some e' \<and>
       (if holder e = Some (cid c) then
          (case waiters e of
             [] \<Rightarrow> holder e' = None \<and> waiters e' = []
           | w # ws \<Rightarrow> holder e' = Some w \<and> waiters e' = ws)
        else holder e' = holder e \<and> waiters e' = filter (\<lambda>w. w \<noteq> cid c) (waiters e))"
    if e: "map_of (locks s) n = Some e" for n e
    using disconnect_entries [OF g c e] unfolding t_def by (auto simp: promoted_def split: list.splits if_splits)
  ultimately show ?thesis using slot free by blast
qed

section \<open>Errors\<close>

text \<open>An unknown command is answered with \<^verbatim>\<open>ERR ERR unknown command <verb>\<close>: the prefix constant
  already starts with \<^verbatim>\<open>ERR\<close> and, unlike the other error constants, is not cut by four bytes before
  the printer adds its own.  Clients are promised \<^verbatim>\<open>ERR unknown command <verb>\<close>.\<close>

theorem unknown_command_reply:
  assumes "parse_request line = None" and "first_word line = Some w" and "w \<notin> set known_verbs"
  shows "output_at (process_line k line s) k =
           map_option (\<lambda>out. out @ ''ERR ERR unknown command '' @ w @ [NL]) (output_at s k)"
  using assms
  by (simp add: process_line_def error_reply_def Let_def output_at_def ERR_UNKNOWN_COMMAND_PREFIX_def
      option.map_comp comp_def)

lemma disconnect_forgets:
  assumes "\<And>c. cid (f c) = cid c" "\<And>c. held (f c) = held c"
  shows "disconnect_client k (on_client k f s) = disconnect_client k s"
proof (cases "client_at s k")
  case None
  then show ?thesis by (simp add: disconnect_client_def slab_remove_def on_client_def slab_modify_def)
next
  case (Some c)
  then have "client_at (on_client k f s) k = Some (f c)" by simp
  moreover have "(clients (on_client k f s))[k := None] = (clients s)[k := None]"
    using Some by (simp add: on_client_def slab_modify_def)
  moreover have "k < length (clients s)" using Some by (simp add: slab_get_def split: if_splits)
  ultimately show ?thesis using Some assms
    by (simp add: disconnect_client_def slab_remove_def on_client_def slab_modify_def)
qed

text \<open>The \<^verbatim>\<open>ERR line too long\<close> reply is never sent: it is queued in the client's buffer and the client
  is disconnected, buffer included, before anything is flushed, so the server does exactly what it would
  do had it queued nothing.\<close>

theorem long_line_reply_lost:
  assumes "client_at s k = Some c" and "fst (next_line (reader_of c)) = Inl LineTooLong"
  shows "process_lines k s = disconnect_client k s"
proof -
  obtain r where r: "next_line (reader_of c) = (Inl LineTooLong, r)" using assms(2) by (cases "next_line (reader_of c)") auto
  have "process_lines k s = disconnect_client k
      (on_client k (enqueue (Err (drop 4 ERR_LINE_TOO_LONG))) (on_client k (\<lambda>c. c\<lparr>reader_of := r\<rparr>) s))"
    using assms(1) r by (subst process_lines.simps) simp
  then show ?thesis by (simp add: disconnect_forgets)
qed

section \<open>Witnesses\<close>

text \<open>Two clients; the first holds the lock \<open>a\<close>, the second waits for it.\<close>

definition two_clients :: server where
  "two_clients = handle_event (Listener [Accepted, Accepted]) server_init"

definition contended :: server where
  "contended = process_line 1 ''ACQUIRE a'' (process_line 0 ''ACQUIRE a'' two_clients)"

lemma two_clients_eq:
  "two_clients = \<lparr> clients = [Some (client_new 1), Some (client_new 2)], locks = [], next_client_id = 3,
     registry = [0 \<mapsto> False, 1 \<mapsto> False], accepted = 2 \<rparr>"
  by (simp add: two_clients_def handle_event_def handle_listener_def accept_client_def server_init_def
      slab_insert_def Let_def)

lemma valid_a: "is_valid_lock_name ''a''"
  by (simp add: proto_simps)

lemmas acquire_a = parse_request_verbs(1) [OF valid_a, simplified]

lemma good_two: "good two_clients"
  using evolves_event [of server_init "Listener [Accepted, Accepted]"] srv_ok_init lock_view_init table_ok_empty
  by (simp add: evolves_def two_clients_def [symmetric] good_def two_clients_eq)

lemma contended_eq:
  "client_at contended 0 = Some (enqueue (Granted ''a'') ((client_new 1)\<lparr>held := [''a'']\<rparr>))"
  "client_at contended 1 = Some ((client_new 2)\<lparr>waiting_for := Some ''a''\<rparr>)"
  "locks contended = [(''a'', \<lparr> holder = Some 1, waiters = [2] \<rparr>)]"
  by (simp_all add: contended_def two_clients_eq process_line_def acquire_a process_request_def
      store_entry_def lock_entry_new_def Let_def lock_simps client_new_def)

lemma good_contended: "good contended"
proof -
  have "client_at two_clients 0 = Some (client_new 1)" by (simp add: two_clients_eq slab_get_def)
  from process_line_refines [OF good_two this]
  have g: "good (process_line 0 ''ACQUIRE a'' two_clients)" by (rule refines_good)
  have "client_at (process_line 0 ''ACQUIRE a'' two_clients) 1 = Some (client_new 2)"
    by (simp add: two_clients_eq process_line_def acquire_a process_request_def
        store_entry_def lock_entry_new_def Let_def lock_simps client_new_def)
  from process_line_refines [OF g this] show ?thesis unfolding contended_def by (rule refines_good)
qed

theorem acquire_outcome_witness:
  "client_at (process_line 0 (''ACQUIRE '' @ ''a'') two_clients) 1 = client_at two_clients 1"
  using acquire_outcome [of two_clients 0 "client_new 1" "''a''"] valid_a
  by (simp add: two_clients_eq slab_get_def)

theorem release_hands_over_witness:
  "map_of (locks (process_line 0 (''RELEASE '' @ ''a'') contended)) ''a'' = Some \<lparr> holder = Some 2, waiters = [] \<rparr>"
  using release_hands_over [OF good_contended contended_eq(1) valid_a, of "\<lparr> holder = Some 1, waiters = [2] \<rparr>" 2 "[]"]
  by (auto simp: contended_eq(3) client_new_def)

theorem disconnect_releases_all_witness:
  "client_at (disconnect_client 0 contended) 0 = None \<and>
   (\<exists>e. map_of (locks (disconnect_client 0 contended)) ''a'' = Some e \<and> holder e = Some 2)"
proof -
  have "map_of (locks contended) ''a'' = Some \<lparr> holder = Some 1, waiters = [2] \<rparr>" by (simp add: contended_eq(3))
  with disconnect_releases_all [OF good_contended contended_eq(1)] show ?thesis
    by (fastforce simp: client_new_def)
qed

theorem unknown_command_reply_witness:
  "output_at (process_line 0 ''FOO a'' two_clients) 0 = Some (''ERR ERR unknown command FOO'' @ [NL])"
proof -
  have "parse_request ''FOO a'' = None" by (simp add: parse_request_def split_first_def split_once_Cons)
  moreover have "first_word ''FOO a'' = Some ''FOO''" by code_simp
  ultimately show ?thesis
    using unknown_command_reply [of "''FOO a''" "''FOO''" 0 two_clients]
    by (simp add: known_verbs_def two_clients_eq output_at_def slab_get_def client_new_def framer_new_def
        pending_def buf_at_def)
qed

theorem long_line_reply_lost_witness:
  "process_lines 0 (on_client 0 (\<lambda>c. c\<lparr>reader_of := \<lparr> rbuf = replicate 4096 CHR ''A'', rtail = 0 \<rparr>\<rparr>) two_clients) =
   disconnect_client 0 (on_client 0 (\<lambda>c. c\<lparr>reader_of := \<lparr> rbuf = replicate 4096 CHR ''A'', rtail = 0 \<rparr>\<rparr>) two_clients)"
proof (rule long_line_reply_lost)
  show "client_at (on_client 0 (\<lambda>c. c\<lparr>reader_of := \<lparr> rbuf = replicate 4096 CHR ''A'', rtail = 0 \<rparr>\<rparr>) two_clients) 0 =
      Some ((client_new 1)\<lparr>reader_of := \<lparr> rbuf = replicate 4096 CHR ''A'', rtail = 0 \<rparr>\<rparr>)"
    unfolding client_at_on_client by (simp add: two_clients_eq slab_get_def)
  have "position (\<lambda>b. b = NL) (replicate 4096 CHR ''A'') = None"
    by (simp add: position_None NL_def)
  then show "fst (next_line (reader_of ((client_new 1)\<lparr>reader_of := \<lparr> rbuf = replicate 4096 CHR ''A'', rtail = 0 \<rparr>\<rparr>))) =
      Inl LineTooLong"
    by (simp add: next_line_def MAX_LINE_def)
qed

text \<open>One turn of the loop in which a client connects and acquires a lock; the socket takes two bytes.\<close>

definition first_turn :: server where
  "first_turn = loop_body [Listener [Accepted], Client 0 None (Some (''ACQUIRE a'' @ [NL], Read_WouldBlock))]
     (\<lambda>_. [Wrote 2, WouldBlock]) server_init"

lemma acquire_line: "next_line \<lparr> rbuf = ''ACQUIRE a'' @ [NL], rtail = 0 \<rparr> = (Inr (Some ''ACQUIRE a''), \<lparr> rbuf = [], rtail = 0 \<rparr>)"
  by (simp add: next_line_def NL_def CR_def byte_in_def compact_def)

lemma no_line: "next_line \<lparr> rbuf = [], rtail = 0 \<rparr> = (Inr None, \<lparr> rbuf = [], rtail = 0 \<rparr>)"
  by (simp add: next_line_def MAX_LINE_def)

definition first_client :: client_state where
  "first_client = \<lparr> cid = 1, reader_of = \<lparr> rbuf = [], rtail = 0 \<rparr>,
     writer_of = \<lparr> bufs = (''GRANTED a'' @ [NL], []), active = True, cursor = 2 \<rparr>, delivered = ''GR'',
     waiting_for = None, held = [''a''], wants_write = True \<rparr>"

lemma first_turn_eq:
  "first_turn = \<lparr> clients = [Some first_client], locks = [(''a'', \<lparr> holder = Some 1, waiters = [] \<rparr>)],
     next_client_id = 2, registry = [0 \<mapsto> True], accepted = Suc 0 \<rparr>"
proof -
  let ?c = "\<lparr> cid = 1, reader_of = \<lparr> rbuf = [], rtail = 0 \<rparr>,
     writer_of = \<lparr> bufs = (''GRANTED a'' @ [NL], []), active = False, cursor = 0 \<rparr>, delivered = [],
     waiting_for = None, held = [''a''], wants_write = True \<rparr>"
  let ?s = "\<lparr> clients = [Some (client_new 1)], locks = [], next_client_id = 2, registry = [0 \<mapsto> False], accepted = Suc 0 \<rparr>"
  let ?u = "\<lparr> clients = [Some ?c], locks = [(''a'', \<lparr> holder = Some 1, waiters = [] \<rparr>)],
     next_client_id = 2, registry = [0 \<mapsto> True], accepted = Suc 0 \<rparr>"
  have trim: "trim_end CR ''ACQUIRE a'' = ''ACQUIRE a''" by (simp add: trim_end_def CR_def)
  have l: "handle_event (Listener [Accepted]) server_init = ?s"
    by (simp add: handle_event_def handle_listener_def accept_client_def server_init_def slab_insert_def Let_def)
  have r: "handle_event (Client 0 None (Some (''ACQUIRE a'' @ [NL], Read_WouldBlock))) ?s = ?u"
    using acquire_line
    by (simp add: handle_event_def handle_readable_def slab_get_def client_new_def framer_new_def refresh_def
        process_lines.simps [of 0] no_line trim process_line_def acquire_a process_request_def store_entry_def
        lock_entry_new_def Let_def on_client_def slab_modify_def enqueue_def write_all_def buf_at_def set_buf_def)
  have f: "flush_client [Wrote 2, WouldBlock] ?c = (Pending, first_client)"
    by (simp add: flush_client_def flush_nonblocking.simps buf_at_def set_buf_def first_client_def)
  show ?thesis unfolding first_turn_def loop_body_def fold_simps l r
    by (simp add: flush_pass_def flush_slot_def slab_get_def f [simplified append.simps] reregister_def on_client_def slab_modify_def)
      (simp add: first_client_def)
qed

lemma first_turn_step: "loop_step server_init first_turn"
proof (rule loop_step.turn)
  show "accepted first_turn < 2 ^ 64 - 1" by (simp add: first_turn_eq)
qed (rule first_turn_def)

lemma server_reach_init: "server_reach server_init"
  by (rule reach_start) (rule refl)

lemma first_turn_reach: "server_reach first_turn"
  by (rule reach_step [OF server_reach_init first_turn_step])


theorem event_server_exclusive_witness:
  "\<exists>e. map_of (locks first_turn) ''a'' = Some e \<and> holder e = Some 1"
  using event_server_exclusive [OF first_turn_reach, of 0 first_client]
  by (simp add: first_turn_eq slab_get_def first_client_def)

theorem event_server_no_stuck_reply_witness:
  "registry first_turn 0 = Some (\<not> write_buffer_empty (writer_of first_client))"
  using event_server_no_stuck_reply [OF server_reach_init first_turn_step, THEN spec, of 0]
  by (simp add: first_turn_eq slab_get_def)

end
