(* ===== verification/Event_Replies.thy ===== *)
theory Event_Replies
  imports Event_Requests
begin

text \<open>
  What the clients of the event-loop server see on the wire: the bytes sent to a client and those still
  buffered for it are whole reply lines, each of which the client's parser reads back as the response it
  was printed from, whatever the clients sent.
\<close>

section \<open>Replies\<close>

text \<open>A response that the other end reads back from its line; a \<^verbatim>\<open>LIST\<close> entry may be named like a verb.\<close>

definition readable :: "response \<Rightarrow> bool" where
  "readable r \<longleftrightarrow> NL \<notin> set (show_response r) \<and> valid_utf8 (show_response r) \<and>
     (parse_response (show_response r) = Some r \<or> r \<in> ListEntry ` set response_verbs)"

definition reply_bytes :: "response list \<Rightarrow> string" where
  "reply_bytes rs = concat (map (\<lambda>r. show_response r @ [NL]) rs)"

definition sent_to :: "client_state \<Rightarrow> string" where
  "sent_to c = delivered c @ pending (writer_of c)"

definition whole :: "client_state \<Rightarrow> bool" where
  "whole c \<longleftrightarrow> (\<exists>rs. sent_to c = reply_bytes rs \<and> list_all readable rs)"

lemma NL_not_name: "is_valid_lock_name n \<Longrightarrow> NL \<notin> set n"
  by (auto simp: is_valid_lock_name_def list_all_iff lock_name_char_def byte_in_def NL_def)

lemma NL_not_number [simp]: "NL \<notin> set (show_u64 w)"
  using show_u64_ascii [of w] by (auto simp: ascii_word_def list_all_iff byte_in_def NL_def)

lemma utf8_name: "is_valid_lock_name n \<Longrightarrow> valid_utf8 n"
  by (rule valid_utf8_ascii) (auto simp: is_valid_lock_name_def list_all_iff lock_name_char_def byte_in_def)

lemma utf8_number [simp]: "valid_utf8 (show_u64 w)"
  using show_u64_ascii [of w] by (intro valid_utf8_ascii) (auto simp: ascii_word_def list_all_iff byte_in_def)

lemma utf8_words [simp]:
  "valid_utf8 ''OK''" "valid_utf8 ''GRANTED ''" "valid_utf8 ''DENIED ''" "valid_utf8 ''STATUS ''" "valid_utf8 '' FREE ''"
  "valid_utf8 '' HELD ''" "valid_utf8 '' ''" "valid_utf8 ''LIST''" "valid_utf8 ''END''" "valid_utf8 ''ERR''" "valid_utf8 ''ERR ''"
  by (simp_all add: byte_in_def)

lemma utf8_response:
  assumes "wf_response r" and "\<And>m. r = Err m \<Longrightarrow> valid_utf8 m"
  shows "valid_utf8 (show_response r)"
  using assms
  by (cases r) (simp_all add: wf_response_def utf8_name valid_utf8_append del: append.append_Cons valid_utf8.simps(2))

lemma readable_wf:
  assumes "wf_response r" and "\<And>m. r = Err m \<Longrightarrow> NL \<notin> set m \<and> valid_utf8 m"
  shows "readable r"
proof -
  have "NL \<notin> set (show_response r)"
  proof (cases r)
    case (Err m)
    then show ?thesis using assms(2) [OF Err] by (simp add: NL_def)
  qed (use assms(1) NL_not_name in \<open>simp_all add: wf_response_def, simp_all add: NL_def\<close>)
  moreover have "valid_utf8 (show_response r)" using assms by (intro utf8_response) auto
  ultimately show ?thesis using parse_show [OF assms(1)] by (simp add: readable_def)
qed

lemma readable_named [simp]:
  assumes "is_valid_lock_name n"
  shows "readable (Granted n)" "readable (Denied n)" "readable (status_reply n e)" "readable (ListEntry n)"
proof -
  show "readable (ListEntry n)"
  proof (cases "n \<in> set response_verbs")
    case True
    then show ?thesis using NL_not_name [OF assms] utf8_name [OF assms] by (simp add: readable_def)
  next
    case False
    with assms show ?thesis by (intro readable_wf) (simp_all add: wf_response_def)
  qed
qed (use assms in \<open>auto intro!: readable_wf simp: wf_response_def status_reply_def split: option.splits\<close>)

lemma readable_plain [simp]: "readable Ok" "readable ListBegin" "readable ListEnd"
    "readable (Err (drop 4 ERR_ALREADY_HELD))" "readable (Err (drop 4 ERR_NOT_HELD))" "readable (Err (drop 4 ERR_LINE_TOO_LONG))"
  by (auto intro!: readable_wf simp: wf_response_def err_defs NL_def byte_in_def)

lemma whole_enqueue [intro]:
  assumes "whole c" "readable r"
  shows "whole (enqueue r c)"
proof -
  from assms(1) obtain rs where rs: "sent_to c = reply_bytes rs" "list_all readable rs" by (auto simp: whole_def)
  then have "sent_to (enqueue r c) = reply_bytes (rs @ [r])" by (simp add: sent_to_def reply_bytes_def)
  moreover have "list_all readable (rs @ [r])" using rs(2) assms(2) by simp
  ultimately show ?thesis unfolding whole_def by blast
qed

lemma whole_fields [simp]:
  "whole (c\<lparr>waiting_for := w\<rparr>) = whole c" "whole (c\<lparr>held := h\<rparr>) = whole c" "whole (c\<lparr>reader_of := r\<rparr>) = whole c"
  "whole (c\<lparr>wants_write := b\<rparr>) = whole c"
  by (simp_all add: whole_def sent_to_def)

lemma whole_entries: "whole c \<Longrightarrow> \<forall>n \<in> set ns. readable (ListEntry n) \<Longrightarrow> whole (fold (\<lambda>n. enqueue (ListEntry n)) ns c)"
  by (induction ns arbitrary: c) auto

text \<open>An error reply quotes a word of the line it answers, or all of it.\<close>

lemma set_skip_ws: "set (skip_ws s) \<subseteq> set s"
proof (induction s rule: skip_ws.induct)
  case (1 s)
  show ?case
  proof (cases "ws_len s = 0")
    case False
    with 1 show ?thesis by (subst skip_ws.simps) (auto dest: in_set_dropD)
  qed (simp add: skip_ws_id)
qed

lemma set_take_word: "set (take_word s) \<subseteq> set s"
  by (induction s) auto

lemma readable_Err: "NL \<notin> set m \<Longrightarrow> valid_utf8 m \<Longrightarrow> readable (Err m)"
  by (rule readable_wf) (simp_all add: wf_response_def)

lemma readable_error:
  assumes "NL \<notin> set l" and "valid_utf8 l"
  shows "readable (error_reply l)"
proof -
  define verb where "verb = (case first_word l of Some w \<Rightarrow> w | None \<Rightarrow> l)"
  have "set verb \<subseteq> set l \<and> valid_utf8 verb"
  proof (cases "skip_ws l")
    case Nil
    then show ?thesis using assms(2) by (simp add: verb_def first_word_def)
  next
    case (Cons a t)
    then have "verb = take_word (skip_ws l)" by (simp only: verb_def first_word_def list.case option.case)
    then show ?thesis using set_take_word [of "skip_ws l"] set_skip_ws [of l]
        valid_utf8_take_word [OF valid_utf8_skip_ws [OF assms(2)]] by blast
  qed
  then have "NL \<notin> set verb" "valid_utf8 verb" using assms by blast+
  moreover have "NL \<notin> set (drop 4 ERR_INVALID_LOCK_NAME)" "NL \<notin> set ERR_UNKNOWN_COMMAND_PREFIX"
    "valid_utf8 (drop 4 ERR_INVALID_LOCK_NAME)" "valid_utf8 ERR_UNKNOWN_COMMAND_PREFIX"
    by (simp_all add: err_defs NL_def byte_in_def)
  ultimately show ?thesis by (simp add: error_reply_def Let_def readable_Err valid_utf8_append flip: verb_def)
qed

section \<open>Servers\<close>

definition replies_ok :: "server \<Rightarrow> bool" where
  "replies_ok s \<longleftrightarrow> (\<forall>n \<in> fst ` set (locks s). is_valid_lock_name n) \<and> (\<forall>k c. client_at s k = Some c \<longrightarrow> whole c)"

lemma replies_okD:
  assumes "replies_ok s"
  shows "map_of (locks s) n = Some e \<Longrightarrow> is_valid_lock_name n" "client_at s k = Some c \<Longrightarrow> whole c"
    "n \<in> set (held_names (locks s)) \<Longrightarrow> is_valid_lock_name n"
proof -
  have names: "is_valid_lock_name m" if "m \<in> fst ` set (locks s)" for m using assms that unfolding replies_ok_def by blast
  show "map_of (locks s) n = Some e \<Longrightarrow> is_valid_lock_name n" by (rule names) (force dest: map_of_SomeD)
  show "n \<in> set (held_names (locks s)) \<Longrightarrow> is_valid_lock_name n" by (rule names) (auto simp: held_names_def)
  show "client_at s k = Some c \<Longrightarrow> whole c" using assms by (simp add: replies_ok_def)
qed

lemma replies_on_client:
  "replies_ok s \<Longrightarrow> (\<And>c. client_at s k = Some c \<Longrightarrow> whole c \<Longrightarrow> whole (f c)) \<Longrightarrow> replies_ok (on_client k f s)"
  unfolding replies_ok_def by (auto split: if_splits)

lemma replies_update [simp]:
  "replies_ok (s\<lparr>registry := r\<rparr>) = replies_ok s"
  "is_valid_lock_name n \<Longrightarrow> replies_ok s \<Longrightarrow> replies_ok (s\<lparr>locks := AList.update n e (locks s)\<rparr>)"
  by (auto simp: replies_ok_def dom_update)

section \<open>Every operation queues whole replies\<close>

lemma replies_promote: "replies_ok s \<Longrightarrow> replies_ok (promote_and_notify n s)"
proof (induction n s rule: promote_and_notify.induct)
  case (1 n s)
  note ok = "1.prems"
  obtain x l where pn: "promote_next n (locks s) = (x, l)" by (cases "promote_next n (locks s)")
  show ?case
  proof (cases "map_of (locks s) n")
    case None
    then have "promote_and_notify n s = s" by (subst promote_and_notify.simps) (simp add: promote_next_def)
    with ok show ?thesis by simp
  next
    case (Some e)
    have v: "is_valid_lock_name n" by (rule replies_okD(1) [OF ok Some])
    then have l: "replies_ok (s\<lparr>locks := l\<rparr>)"
      using ok pn Some by (auto simp: promote_next_def split: list.splits)
    show ?thesis
    proof (cases x)
      case None
      then show ?thesis using l pn by (subst promote_and_notify.simps) simp
    next
      case x: (Some i)
      show ?thesis
      proof (cases "slot_of_id i (clients s)")
        case None
        from "1.IH" [OF pn [symmetric] x None l] show ?thesis
          by (subst promote_and_notify.simps) (simp add: pn x None)
      next
        case (Some k)
        have "replies_ok (on_client k (\<lambda>c. enqueue (Granted n) (c\<lparr>waiting_for := None, held := held c @ [n]\<rparr>)) (s\<lparr>locks := l\<rparr>))"
          by (rule replies_on_client [OF l]) (rule whole_enqueue, simp_all add: v)
        then show ?thesis by (subst promote_and_notify.simps) (simp add: pn x Some)
      qed
    qed
  qed
qed

lemma replies_release: "replies_ok s \<Longrightarrow> replies_ok (release_held i n s)"
  by (auto simp: release_held_def intro!: replies_promote replies_update(2) dest: replies_okD(1) split: option.split)

lemma replies_disconnect: "replies_ok s \<Longrightarrow> replies_ok (disconnect_client k s)"
proof -
  assume ok: "replies_ok s"
  have fold: "replies_ok (fold (release_held i) ns u)" if "replies_ok u" for i ns u
    using that by (induction ns arbitrary: u) (simp_all add: replies_release)
  have names: "fst ` set (drop_waiter i l) = fst ` set l" for i l
    by (simp add: drop_waiter_def image_image case_prod_beta)
  have "replies_ok (s\<lparr>clients := snd (slab_remove k (clients s)), registry := r, locks := drop_waiter i (locks s)\<rparr>)" for r i
    using ok by (auto simp: replies_ok_def names slab_get_remove)
  from fold [OF this] have "replies_ok (fold (release_held i) ns
      (s\<lparr>clients := snd (slab_remove k (clients s)), registry := r, locks := drop_waiter i (locks s)\<rparr>))" for i ns r .
  then show ?thesis
    unfolding disconnect_client_def using ok by (cases "client_at s k") (simp_all add: slab_remove_def split: if_splits)
qed

lemma replies_entry:
  assumes "replies_ok s" "is_valid_lock_name n" "store_entry n (locks s) = (e, l)"
  shows "replies_ok (s\<lparr>locks := l\<rparr>)"
  using assms by (auto simp: store_entry_def split: option.splits)

lemma replies_request:
  assumes ok: "replies_ok s" and v: "valid_request req"
  shows "replies_ok (process_request k i req s)"
proof (cases "request_name req")
  case None
  then have "req = List_Locks" by (cases req) simp_all
  then show ?thesis
    by (auto simp: process_request_def intro!: replies_on_client [OF ok] whole_enqueue whole_entries dest: replies_okD(3) [OF ok])
next
  case (Some n)
  with v have n: "is_valid_lock_name n" by (simp add: valid_request_def)
  obtain e l where e: "store_entry n (locks s) = (e, l)" by (cases "store_entry n (locks s)")
  note l = replies_entry [OF ok n e] and put = replies_update(2) [OF n replies_entry [OF ok n e]]
  show ?thesis
    using Some n e l put
    by (cases req)
      (auto simp: process_request_def Let_def intro!: replies_promote replies_on_client whole_enqueue)
qed

lemma replies_line: "replies_ok s \<Longrightarrow> NL \<notin> set l \<Longrightarrow> valid_utf8 l \<Longrightarrow> replies_ok (process_line k l s)"
  by (auto simp: process_line_def Let_def parse_request_printed intro!: replies_request replies_on_client whole_enqueue readable_error
      split: option.split)

section \<open>The loop\<close>

text \<open>A line has no newline in it and is text.\<close>

lemma line_utf8: "next_line r = (Inr (Some l), r') \<Longrightarrow> valid_utf8 l"
  by (auto simp: next_line_def Let_def split: option.splits if_splits)

lemma line_no_NL: "next_line r = (Inr (Some l), r') \<Longrightarrow> NL \<notin> set l"
proof -
  assume n: "next_line r = (Inr (Some l), r')"
  let ?u = "drop (rtail r) (rbuf r)"
  obtain idx where i: "position (\<lambda>b. b = NL) ?u = Some idx"
    using n by (auto simp: next_line_def Let_def split: option.splits if_splits)
  then obtain m where m: "l = take m ?u" "m \<le> idx"
    using n by (auto simp: next_line_def Let_def split: if_splits)
  have "x \<noteq> NL" if "x \<in> set l" for x
  proof -
    from that obtain j where "j < length l" "x = l ! j" by (auto simp: in_set_conv_nth)
    then have "j < idx" "x = ?u ! j" using m by auto
    then show ?thesis using i by (auto simp: position_Some)
  qed
  then show ?thesis by blast
qed

lemma replies_lines: "replies_ok s \<Longrightarrow> replies_ok (process_lines k s)"
proof (induction k s rule: process_lines.induct)
  case (1 k s)
  show ?case
  proof (cases "client_at s k")
    case None
    then show ?thesis using "1.prems" by (subst process_lines.simps) simp
  next
    case (Some c)
    obtain res r where nl: "next_line (reader_of c) = (res, r)" by (cases "next_line (reader_of c)")
    let ?s = "on_client k (\<lambda>c. c\<lparr>reader_of := r\<rparr>) s"
    have ok: "replies_ok ?s" by (rule replies_on_client [OF "1.prems"]) simp
    have bye: "replies_ok (disconnect_client k (on_client k (enqueue (Err (drop 4 ERR_LINE_TOO_LONG))) ?s))"
      by (intro replies_disconnect replies_on_client [OF ok] whole_enqueue) simp_all
    show ?thesis
    proof (cases res)
      case (Inl e)
      then show ?thesis using Some nl bye ok
        by (subst process_lines.simps) (cases e, simp_all add: replies_disconnect)
    next
      case (Inr x)
      show ?thesis
      proof (cases x)
        case None
        then show ?thesis using Some nl Inr ok by (subst process_lines.simps) simp
      next
        case x: (Some l)
        have "NL \<notin> set l" "valid_utf8 l" using line_no_NL line_utf8 nl Inr x by simp_all
        then have "NL \<notin> set (trim_end CR l)" "valid_utf8 (trim_end CR l)"
          by (auto simp: trim_end_def dest: set_dropWhileD) (simp add: valid_utf8_trim_end CR_def byte_in_def flip: trim_end_def)
        then have line: "replies_ok (process_line k (trim_end CR l) ?s)" by (rule replies_line [OF ok])
        show ?thesis
        proof (cases "trim_end CR l = []")
          case True
          with "1.IH"(1) [OF Some nl [symmetric] Inr x refl refl True ok] show ?thesis
            by (subst process_lines.simps) (simp add: Some nl Inr x Let_def)
        next
          case False
          with "1.IH"(2) [OF Some nl [symmetric] Inr x refl refl False line] show ?thesis
            by (subst process_lines.simps) (simp add: Some nl Inr x Let_def)
        qed
      qed
    qed
  qed
qed

lemma replies_accept: "replies_ok s \<Longrightarrow> replies_ok (accept_client s)"
proof -
  assume ok: "replies_ok s"
  obtain k sl where i: "slab_insert (client_new (next_client_id s)) (clients s) = (k, sl)"
    by (cases "slab_insert (client_new (next_client_id s)) (clients s)")
  have "whole (client_new (next_client_id s))"
    unfolding whole_def by (intro exI [of _ "[]"]) (simp add: sent_to_def reply_bytes_def client_new_def framer_new_def pending_def buf_at_def)
  then show ?thesis using ok by (auto simp: accept_client_def Let_def i replies_ok_def slab_get_insert(2) [OF i])
qed

lemma whole_flush: "flush_client ans c = (r, c') \<Longrightarrow> whole c' = whole c"
  using flush_pending [of "writer_of c" ans]
  by (auto simp: flush_client_def whole_def sent_to_def split: prod.splits)

lemma replies_readable: "replies_ok s \<Longrightarrow> replies_ok (handle_readable k bs e s)"
  by (auto simp: handle_readable_def Let_def intro!: replies_lines replies_disconnect replies_on_client split: option.split prod.split)

lemma replies_writable: "replies_ok s \<Longrightarrow> replies_ok (snd (handle_writable k ans s))"
  using whole_flush replies_okD(2)
  by (auto simp: handle_writable_def Let_def intro!: replies_disconnect replies_on_client split: option.split prod.split)

lemma replies_event: "replies_ok s \<Longrightarrow> replies_ok (handle_event ev s)"
proof (cases ev)
  case (Listener as)
  have "replies_ok s \<Longrightarrow> replies_ok (handle_listener as s)" for s
    unfolding handle_listener_def by (induction as arbitrary: s) (auto simp: replies_accept split: accept_answer.split)
  then show "replies_ok s \<Longrightarrow> ?thesis" by (simp add: handle_event_def Listener)
next
  case (Client k w r)
  assume ok: "replies_ok s"
  have "replies_ok (snd (case w of None \<Rightarrow> (False, s) | Some ans \<Rightarrow> handle_writable k ans s))"
    using ok replies_writable by (simp split: option.split)
  then show ?thesis
    by (auto simp: handle_event_def Client replies_readable split: prod.splits bool.splits option.splits)
qed

lemma replies_flush_slot: "replies_ok (fst acc) \<Longrightarrow> replies_ok (fst (flush_slot ans k acc))"
  using whole_flush
  by (cases acc) (auto simp: flush_slot_def intro!: replies_on_client split: option.split prod.split)

lemma replies_flush_pass: "replies_ok s \<Longrightarrow> replies_ok (flush_pass ans s)"
proof -
  assume ok: "replies_ok s"
  have slots: "replies_ok (fst (fold (flush_slot ans) ks acc))" if "replies_ok (fst acc)" for ks acc
    using that by (induction ks arbitrary: acc) (simp_all add: replies_flush_slot)
  have rereg: "replies_ok (fold reregister ks u)" if "replies_ok u" for ks u
    using that by (induction ks arbitrary: u) (simp_all add: reregister_def split: option.split)
  have bye: "replies_ok (fold disconnect_client ks u)" if "replies_ok u" for ks u
    using that by (induction ks arbitrary: u) (simp_all add: replies_disconnect)
  show ?thesis using slots [of "(s, [], [])" "[0..<length (clients s)]"] ok rereg bye
    by (auto simp: flush_pass_def split: prod.split)
qed

lemma replies_loop: "replies_ok s \<Longrightarrow> replies_ok (loop_body evs ans s)"
proof -
  assume "replies_ok s"
  then have "replies_ok (fold handle_event evs s)" by (induction evs arbitrary: s) (simp_all add: replies_event)
  then show ?thesis by (simp add: loop_body_def replies_flush_pass)
qed

lemma server_replies: "server_reach s \<Longrightarrow> replies_ok s"
proof (induction rule: reach.induct)
  case (reach_start s)
  then show ?case by (simp add: replies_ok_def server_init_def slab_get_def)
next
  case (reach_step s t)
  then show ?case by (auto elim!: loop_stepE simp: replies_loop)
qed



end
