(* ===== verification/Lock_Client.thy ===== *)
theory Lock_Client
  imports Event_Replies "HOL-Library.Sublist"
begin

text \<open>
  The text client, \<^verbatim>\<open>locks/src/bin/client.rs\<close>: the main thread sends the lines typed at the terminal to the
  server, a second thread prints the lines the server sends, and the two are joined at the end.  Both read with
  \<^verbatim>\<open>BufRead::lines\<close> from a \<open>stream\<close>: all bytes that ever arrived, those not consumed yet, and whether the other
  end has closed it.  Printing is taken to succeed; how a write to the socket ends is an argument.
\<close>

section \<open>Lines of a stream\<close>

datatype line_item = Line string | Bad_Line | No_Line

text \<open>What \<^verbatim>\<open>lines().next()\<close> returns with the bytes \<open>s\<close> at hand, and the rest: nothing yet, while no newline has
  arrived and the stream is open; the text before the newline, less one carriage return; at the end of the
  stream what is left without a newline, if anything.\<close>

definition lines_next :: "bool \<Rightarrow> string \<Rightarrow> (line_item \<times> string) option" where
  "lines_next closed s =
     (case split_once NL s of
        Some (l, rest) \<Rightarrow> Some (if valid_utf8 l then Line (strip_cr l) else Bad_Line, rest)
      | None \<Rightarrow>
          if \<not> closed then None
          else if s = [] then Some (No_Line, [])
          else Some (if valid_utf8 s then Line s else Bad_Line, []))"

record stream =
  arrived :: string
  backlog :: string
  closed :: bool

definition stream_new :: stream where
  "stream_new = \<lparr> arrived = [], backlog = [], closed = False \<rparr>"

definition feed :: "string \<Rightarrow> stream \<Rightarrow> stream" where
  "feed bs S = S\<lparr>arrived := arrived S @ bs, backlog := backlog S @ bs\<rparr>"

definition take_line :: "stream \<Rightarrow> (line_item \<times> stream) option" where
  "take_line S =
     (case lines_next (closed S) (backlog S) of None \<Rightarrow> None | Some (i, rest) \<Rightarrow> Some (i, S\<lparr>backlog := rest\<rparr>))"

section \<open>The client\<close>

datatype client_phase = Typing | Closing | Joining | Exited

record lock_client =
  keyboard :: stream
  network :: stream
  phase :: client_phase
  sent :: string
  reading :: bool
  screen :: "string list"

definition client_addr :: "string list \<Rightarrow> string" where
  "client_addr args = (case args of _ # a # _ \<Rightarrow> a | _ \<Rightarrow> ''127.0.0.1:8000'')"

text \<open>\<^verbatim>\<open>main\<close> up to its loops: \<open>None\<close> when the connection is refused.\<close>

definition client_connect :: "(string \<Rightarrow> bool) \<Rightarrow> string list \<Rightarrow> lock_client option" where
  "client_connect reachable args =
     (if reachable (client_addr args)
      then Some \<lparr> keyboard = stream_new, network = stream_new, phase = Typing, sent = [], reading = True, screen = [] \<rparr>
      else None)"

text \<open>One turn of the main loop; \<open>torn\<close> is the number of bytes that went out before a write failed, if one did.\<close>

definition client_type :: "nat option \<Rightarrow> lock_client \<Rightarrow> lock_client option" where
  "client_type torn c =
     (case take_line (keyboard c) of
        None \<Rightarrow> None
      | Some (Line l, S) \<Rightarrow>
          Some (case torn of
             None \<Rightarrow> c\<lparr>keyboard := S, sent := sent c @ l @ [NL]\<rparr>
           | Some n \<Rightarrow> c\<lparr>keyboard := S, sent := sent c @ take n (l @ [NL]), phase := Closing\<rparr>)
      | Some (_, S) \<Rightarrow> Some (c\<lparr>keyboard := S, phase := Closing\<rparr>))"

text \<open>One turn of the reader thread's loop.\<close>

definition client_print :: "lock_client \<Rightarrow> lock_client option" where
  "client_print c =
     (case take_line (network c) of
        None \<Rightarrow> None
      | Some (Line l, S) \<Rightarrow> Some (c\<lparr>network := S, screen := screen c @ [''< '' @ l]\<rparr>)
      | Some (_, S) \<Rightarrow> Some (c\<lparr>network := S, reading := False\<rparr>))"

text \<open>\<^verbatim>\<open>shutdown(Shutdown::Write)\<close> and then \<^verbatim>\<open>join\<close>, which returns once the reader thread has ended.\<close>

definition client_shutdown :: "lock_client \<Rightarrow> lock_client" where
  "client_shutdown c = c\<lparr>phase := Joining\<rparr>"

definition client_join :: "lock_client \<Rightarrow> lock_client option" where
  "client_join c = (if reading c then None else Some (c\<lparr>phase := Exited\<rparr>))"

text \<open>The two threads, the user and the server interleave; a failed read ends the reader thread.\<close>

inductive client_step :: "lock_client \<Rightarrow> lock_client \<Rightarrow> bool" where
  key: "\<not> closed (keyboard c) \<Longrightarrow> client_step c (c\<lparr>keyboard := feed bs (keyboard c)\<rparr>)"
| end_input: "\<not> closed (keyboard c) \<Longrightarrow> client_step c (c\<lparr>keyboard := (keyboard c)\<lparr>closed := True\<rparr>\<rparr>)"
| arrive: "\<not> closed (network c) \<Longrightarrow> client_step c (c\<lparr>network := feed bs (network c)\<rparr>)"
| hang_up: "\<not> closed (network c) \<Longrightarrow> client_step c (c\<lparr>network := (network c)\<lparr>closed := True\<rparr>\<rparr>)"
| type_line: "phase c = Typing \<Longrightarrow> client_type torn c = Some d \<Longrightarrow> client_step c d"
| print_line: "reading c \<Longrightarrow> client_print c = Some d \<Longrightarrow> client_step c d"
| reset: "reading c \<Longrightarrow> client_step c (c\<lparr>reading := False\<rparr>)"
| shut: "phase c = Closing \<Longrightarrow> client_step c (client_shutdown c)"
| join: "phase c = Joining \<Longrightarrow> client_join c = Some d \<Longrightarrow> client_step c d"

inductive_cases client_stepE: "client_step c d"

abbreviation client_reach :: "lock_client \<Rightarrow> bool" where
  "client_reach \<equiv> reach (\<lambda>c. \<exists>up args. client_connect up args = Some c) client_step"

section \<open>All lines of a stream\<close>

text \<open>The lines of a stream with the bytes \<open>s\<close>, up to the first that is not text.\<close>

lemma lines_next_shorter: "lines_next cl s = Some (Line l, rest) \<Longrightarrow> length rest < length s"
  by (auto simp: lines_next_def split_once_Some split: option.splits if_splits)

function text_lines :: "bool \<Rightarrow> string \<Rightarrow> string list" where
  "text_lines cl s =
     (case lines_next cl s of Some (Line l, rest) \<Rightarrow> l # text_lines cl rest | _ \<Rightarrow> [])"
  by pat_completeness auto
termination
  by (relation "measure (length \<circ> snd)") (auto dest: lines_next_shorter)

declare text_lines.simps [simp del]

text \<open>The lines \<open>ls\<close> were taken from the stream, and the rest of its lines are still to come; or \<open>ls\<close> was taken and
  the stream is read no longer.\<close>

definition consumed :: "stream \<Rightarrow> string list \<Rightarrow> bool" where
  "consumed S ls \<longleftrightarrow> (\<forall>cl ext. (closed S \<longrightarrow> cl \<and> ext = []) \<longrightarrow> text_lines cl (arrived S @ ext) = ls @ text_lines cl (backlog S @ ext))"

definition began :: "stream \<Rightarrow> string list \<Rightarrow> bool" where
  "began S ls \<longleftrightarrow> (\<forall>cl ext. (closed S \<longrightarrow> cl \<and> ext = []) \<longrightarrow> prefix ls (text_lines cl (arrived S @ ext)))"

lemma consumed_began: "consumed S ls \<Longrightarrow> began S ls"
  by (simp add: consumed_def began_def)

lemma consumed_new: "consumed stream_new []"
  by (simp add: consumed_def stream_new_def)

lemma consumed_grow:
  assumes "\<not> closed S"
  shows "consumed S ls \<Longrightarrow> consumed (feed bs S) ls" "consumed S ls \<Longrightarrow> consumed (S\<lparr>closed := True\<rparr>) ls"
    "began S ls \<Longrightarrow> began (feed bs S) ls" "began S ls \<Longrightarrow> began (S\<lparr>closed := True\<rparr>) ls"
proof -
  show "consumed S ls \<Longrightarrow> consumed (feed bs S) ls" "began S ls \<Longrightarrow> began (feed bs S) ls"
    using assms by (simp_all add: consumed_def began_def feed_def)
  have at: "P (arrived S) (backlog S)" if "\<forall>ext. P (arrived S @ ext) (backlog S @ ext)" for P
    using spec [OF that, of "[]"] by simp
  show "consumed S ls \<Longrightarrow> consumed (S\<lparr>closed := True\<rparr>) ls" "began S ls \<Longrightarrow> began (S\<lparr>closed := True\<rparr>) ls"
    using assms by (auto simp: consumed_def began_def intro: at)
qed

lemma lines_next_ext:
  assumes "lines_next (closed S) (backlog S) = Some (Line l, rest)" and "closed S \<longrightarrow> cl \<and> ext = []"
  shows "text_lines cl (backlog S @ ext) = l # text_lines cl (rest @ ext)"
proof -
  have "lines_next cl (backlog S @ ext) = Some (Line l, rest @ ext)"
  proof (cases "split_once NL (backlog S)")
    case None
    then have "closed S" using assms(1) by (auto simp: lines_next_def split: if_splits)
    then show ?thesis using assms by simp
  next
    case (Some p)
    then obtain h where h: "backlog S = h @ NL # rest" "NL \<notin> set h"
      using assms(1) by (cases p) (simp add: lines_next_def split_once_Some)
    then have "split_once NL (backlog S @ ext) = Some (h, rest @ ext)" "split_once NL (backlog S) = Some (h, rest)" by simp_all
    then show ?thesis using assms(1) by (simp add: lines_next_def)
  qed
  then show ?thesis by (subst text_lines.simps) simp
qed

lemma consumed_take:
  assumes "take_line S = Some (Line l, S')" and "consumed S ls"
  shows "consumed S' (ls @ [l])"
proof -
  obtain rest where r: "lines_next (closed S) (backlog S) = Some (Line l, rest)" "S' = S\<lparr>backlog := rest\<rparr>"
    using assms(1) by (auto simp: take_line_def split: option.splits)
  then show ?thesis using assms(2) lines_next_ext [OF r(1)] by (simp add: consumed_def)
qed

lemma began_take: "take_line S = Some (i, S') \<Longrightarrow> began S ls \<Longrightarrow> began S' ls"
proof -
  assume "take_line S = Some (i, S')" and b: "began S ls"
  then have "arrived S' = arrived S" "closed S' = closed S" by (auto simp: take_line_def split: option.splits)
  then show "began S' ls" using b by (simp add: began_def)
qed

lemma consumed_all:
  assumes "consumed S ls" and "take_line S = None"
  shows "text_lines (closed S) (arrived S) = ls"
proof -
  have "text_lines (closed S) (arrived S @ []) = ls @ text_lines (closed S) (backlog S @ [])"
    using assms(1) unfolding consumed_def by blast
  moreover have "text_lines (closed S) (backlog S) = []"
    using assms(2) by (subst text_lines.simps) (simp add: take_line_def split: option.splits prod.splits)
  ultimately show ?thesis by simp
qed

lemma began_prefix: "began S ls \<Longrightarrow> prefix ls (text_lines (closed S) (arrived S))"
  unfolding began_def using append_Nil2 by metis

section \<open>What the client keeps\<close>

definition wire :: "string list \<Rightarrow> string" where
  "wire ls = concat (map (\<lambda>l. l @ [NL]) ls)"

definition marked :: "string list \<Rightarrow> string list" where
  "marked ls = map (\<lambda>l. ''< '' @ l) ls"

definition client_ok :: "lock_client \<Rightarrow> bool" where
  "client_ok c \<longleftrightarrow>
     (\<exists>ls. began (keyboard c) ls \<and> prefix (sent c) (wire ls) \<and> (phase c = Typing \<longrightarrow> consumed (keyboard c) ls \<and> sent c = wire ls)) \<and>
     (\<exists>ls. began (network c) ls \<and> screen c = marked ls \<and> (reading c \<longrightarrow> consumed (network c) ls))"

lemma client_okI:
  "began (keyboard c) ks \<Longrightarrow> prefix (sent c) (wire ks) \<Longrightarrow> (phase c = Typing \<Longrightarrow> consumed (keyboard c) ks \<and> sent c = wire ks) \<Longrightarrow>
     began (network c) ls \<Longrightarrow> screen c = marked ls \<Longrightarrow> (reading c \<Longrightarrow> consumed (network c) ls) \<Longrightarrow> client_ok c"
  unfolding client_ok_def by blast

lemma client_okE:
  assumes "client_ok c"
  obtains ks ls where "began (keyboard c) ks" "prefix (sent c) (wire ks)"
    "phase c = Typing \<Longrightarrow> consumed (keyboard c) ks \<and> sent c = wire ks"
    "began (network c) ls" "screen c = marked ls" "reading c \<Longrightarrow> consumed (network c) ls"
  using assms unfolding client_ok_def by blast

lemma wire_snoc: "wire (ls @ [l]) = wire ls @ l @ [NL]"
  by (simp add: wire_def)

lemma client_start_ok: "client_connect up args = Some c \<Longrightarrow> client_ok c"
  by (rule client_okI [of _ "[]" "[]"])
    (auto simp: client_connect_def wire_def marked_def consumed_new intro: consumed_began consumed_new split: if_splits)

lemma type_ok:
  assumes ok: "client_ok c" and ph: "phase c = Typing" and t: "client_type torn c = Some d"
  shows "client_ok d"
proof -
  from ok obtain ks ls where k: "consumed (keyboard c) ks" "sent c = wire ks"
    and n: "began (network c) ls" "screen c = marked ls" "reading c \<Longrightarrow> consumed (network c) ls"
    using ph by (auto elim!: client_okE)
  from t obtain i S where i: "take_line (keyboard c) = Some (i, S)" by (auto simp: client_type_def split: option.splits)
  show ?thesis
  proof (cases "\<exists>l. i = Line l")
    case True
    then obtain l where l: "i = Line l" by blast
    note s = consumed_take [OF i [unfolded l] k(1)]
    show ?thesis
    proof (cases torn)
      case None
      then have "d = c\<lparr>keyboard := S, sent := sent c @ l @ [NL]\<rparr>" using t i l by (simp add: client_type_def)
      then show ?thesis using s k(2) n
        by (intro client_okI [of _ "ks @ [l]" ls]) (auto simp: wire_snoc intro: consumed_began)
    next
      case (Some m)
      then have "d = c\<lparr>keyboard := S, sent := sent c @ take m (l @ [NL]), phase := Closing\<rparr>"
        using t i l by (simp add: client_type_def)
      moreover have "prefix (sent c @ take m (l @ [NL])) (wire (ks @ [l]))"
        unfolding k(2) wire_snoc by (simp only: same_prefix_prefix take_is_prefix)
      ultimately show ?thesis using s n by (intro client_okI [of _ "ks @ [l]" ls]) (auto intro: consumed_began)
    qed
  next
    case False
    then have "d = c\<lparr>keyboard := S, phase := Closing\<rparr>" using t i by (cases i) (simp_all add: client_type_def)
    then show ?thesis using began_take [OF i consumed_began [OF k(1)]] k(2) n
      by (intro client_okI [of _ ks ls]) auto
  qed
qed

lemma print_ok:
  assumes ok: "client_ok c" and rd: "reading c" and p: "client_print c = Some d"
  shows "client_ok d"
proof -
  from ok obtain ks ls where k: "began (keyboard c) ks" "prefix (sent c) (wire ks)"
      "phase c = Typing \<Longrightarrow> consumed (keyboard c) ks \<and> sent c = wire ks"
    and n: "screen c = marked ls" "consumed (network c) ls"
    using rd by (elim client_okE) blast
  from p obtain i S where i: "take_line (network c) = Some (i, S)" by (auto simp: client_print_def split: option.splits)
  show ?thesis
  proof (cases "\<exists>l. i = Line l")
    case True
    then obtain l where l: "i = Line l" by blast
    then have "d = c\<lparr>network := S, screen := screen c @ [''< '' @ l]\<rparr>" using p i by (simp add: client_print_def)
    then show ?thesis using consumed_take [OF i [unfolded l] n(2)] n(1) k
      by (intro client_okI [of _ ks "ls @ [l]"]) (auto simp: marked_def intro: consumed_began)
  next
    case False
    then have "d = c\<lparr>network := S, reading := False\<rparr>" using p i by (cases i) (simp_all add: client_print_def)
    then show ?thesis using began_take [OF i consumed_began [OF n(2)]] n(1) k by (intro client_okI [of _ ks ls]) auto
  qed
qed

lemma client_step_ok:
  assumes ok: "client_ok c" and st: "client_step c d"
  shows "client_ok d"
proof -
  from ok obtain ks ls where k: "began (keyboard c) ks" "prefix (sent c) (wire ks)"
      "phase c = Typing \<Longrightarrow> consumed (keyboard c) ks \<and> sent c = wire ks"
    and n: "began (network c) ls" "screen c = marked ls" "reading c \<Longrightarrow> consumed (network c) ls"
    by (elim client_okE) blast
  from st show ?thesis
  proof (cases rule: client_step.cases)
    case (key bs)
    then show ?thesis using k n consumed_grow [OF key(2)] by (intro client_okI [of _ ks ls]) auto
  next
    case end_input
    then show ?thesis using k n consumed_grow [OF end_input(2)] by (intro client_okI [of _ ks ls]) auto
  next
    case (arrive bs)
    then show ?thesis using k n consumed_grow [OF arrive(2)] by (intro client_okI [of _ ks ls]) auto
  next
    case hang_up
    then show ?thesis using k n consumed_grow [OF hang_up(2)] by (intro client_okI [of _ ks ls]) auto
  next
    case (type_line torn)
    show ?thesis by (rule type_ok [OF ok type_line])
  next
    case print_line
    show ?thesis by (rule print_ok [OF ok print_line])
  qed (use k n in \<open>auto simp: client_shutdown_def client_join_def split: if_splits intro!: client_okI [of _ ks ls]\<close>)
qed

interpretation client: invariant_system "\<lambda>c. \<exists>up args. client_connect up args = Some c" client_step client_ok
  by unfold_locales (auto intro: client_start_ok client_step_ok)

lemma prefix_wire: "prefix ls ms \<Longrightarrow> prefix (wire ls) (wire ms)"
  by (auto simp: prefix_def wire_def)

text \<open>Nothing typed is changed, reordered or lost before a write fails, and nothing the server sent is, up to the
  first line that is not text: the bytes sent are the lines typed so far, perhaps cut short by the failure, and
  the lines on the screen are the lines received so far, each marked.\<close>

lemma client_transparent:
  assumes "client_reach c"
  shows "prefix (sent c) (wire (text_lines (closed (keyboard c)) (arrived (keyboard c))))"
    "phase c = Typing \<Longrightarrow> take_line (keyboard c) = None \<Longrightarrow>
       sent c = wire (text_lines (closed (keyboard c)) (arrived (keyboard c)))"
    "prefix (screen c) (marked (text_lines (closed (network c)) (arrived (network c))))"
    "reading c \<Longrightarrow> take_line (network c) = None \<Longrightarrow>
       screen c = marked (text_lines (closed (network c)) (arrived (network c)))"
proof -
  obtain ks ls where k: "began (keyboard c) ks" "prefix (sent c) (wire ks)"
      "phase c = Typing \<Longrightarrow> consumed (keyboard c) ks \<and> sent c = wire ks"
    and n: "began (network c) ls" "screen c = marked ls" "reading c \<Longrightarrow> consumed (network c) ls"
    using client.reach_inv [OF assms] by (elim client_okE) blast
  show "prefix (sent c) (wire (text_lines (closed (keyboard c)) (arrived (keyboard c))))"
    using k(2) prefix_wire [OF began_prefix [OF k(1)]] by (rule prefix_order.trans)
  show "phase c = Typing \<Longrightarrow> take_line (keyboard c) = None \<Longrightarrow>
      sent c = wire (text_lines (closed (keyboard c)) (arrived (keyboard c)))"
    using k(3) consumed_all by auto
  show "prefix (screen c) (marked (text_lines (closed (network c)) (arrived (network c))))"
    using began_prefix [OF n(1)] unfolding n(2) marked_def by (rule map_mono_prefix)
  show "reading c \<Longrightarrow> take_line (network c) = None \<Longrightarrow>
      screen c = marked (text_lines (closed (network c)) (arrived (network c)))"
    using n(2,3) consumed_all by auto
qed

section \<open>A client of the event-loop server\<close>

lemma text_lines_line:
  assumes "NL \<notin> set l" and "valid_utf8 l"
  shows "text_lines cl (l @ NL # t) = strip_cr l # text_lines cl t"
  using assms by (subst text_lines.simps) (simp add: lines_next_def)

lemma text_lines_part: "NL \<notin> set s \<Longrightarrow> text_lines False s = []"
  by (subst text_lines.simps) (simp add: lines_next_def split_once_None [THEN iffD2])

lemma text_lines_wire:
  "\<forall>l \<in> set ls. NL \<notin> set l \<and> valid_utf8 l \<Longrightarrow> text_lines False (wire ls) = map strip_cr ls"
  by (induction ls) (simp_all add: wire_def text_lines_part text_lines_line)

lemma text_lines_prefix:
  assumes "\<forall>l \<in> set ls. NL \<notin> set l \<and> valid_utf8 l" and "prefix s (wire ls)"
  shows "\<exists>m. text_lines False s = map strip_cr (take m ls)"
  using assms
proof (induction ls arbitrary: s)
  case Nil
  then show ?case by (simp add: wire_def text_lines_part)
next
  case (Cons l ls)
  have "prefix s ((l @ [NL]) @ wire ls)" using Cons.prems(2) by (simp add: wire_def)
  then consider (short) "prefix s (l @ [NL])" | (long) t where "s = (l @ [NL]) @ t" "prefix t (wire ls)"
    unfolding prefix_append by blast
  then show ?case
  proof cases
    case short
    then have "s = l @ [NL] \<or> prefix s l" by (simp add: prefix_snoc)
    then show ?thesis
    proof
      assume "s = l @ [NL]"
      then have "text_lines False s = map strip_cr (take 1 (l # ls))"
        using text_lines_line [of l False "[]"] Cons.prems(1) by (simp add: text_lines_part)
      then show ?thesis by blast
    next
      assume "prefix s l"
      then have "NL \<notin> set s" using Cons.prems(1) set_mono_prefix by fastforce
      then have "text_lines False s = map strip_cr (take 0 (l # ls))" by (simp add: text_lines_part)
      then show ?thesis by blast
    qed
  next
    case (long t)
    from Cons.IH [OF _ long(2)] Cons.prems(1) obtain m where "text_lines False t = map strip_cr (take m ls)" by auto
    then have "text_lines False s = map strip_cr (take (Suc m) (l # ls))"
      using long(1) Cons.prems(1) text_lines_line [of l False t] by simp
    then show ?thesis by blast
  qed
qed

text \<open>C23. What the user of the client sees of the event-loop server: however the network cuts and delays the bytes,
  and however many have arrived, the screen shows the printed forms of the first replies the server queued for the
  connection, in order, each marked and on a line of its own, and nothing else; once the socket has delivered
  everything and the client has read it, it shows all of them.\<close>

theorem client_shows_replies:
  assumes "server_reach s" and "client_at s k = Some p"
    and "client_reach c" and "\<not> closed (network c)" and "prefix (arrived (network c)) (delivered p)"
  shows "\<exists>rs m. delivered p @ pending (writer_of p) = concat (map (\<lambda>r. show_response r @ [NL]) rs) \<and>
    screen c = map (\<lambda>r. ''< '' @ strip_cr (show_response r)) (take m rs) \<and>
    (reading c \<and> take_line (network c) = None \<and> arrived (network c) = delivered p \<and> pending (writer_of p) = [] \<longrightarrow>
       m = length rs)"
proof -
  from replies_okD(2) [OF server_replies [OF assms(1)] assms(2)] obtain rs where
    rs: "delivered p @ pending (writer_of p) = reply_bytes rs" "list_all readable rs" by (auto simp: whole_def sent_to_def)
  let ?ls = "map show_response rs"
  have lines: "\<forall>l \<in> set ?ls. NL \<notin> set l \<and> valid_utf8 l" using rs(2) by (simp add: list_all_iff readable_def)
  have w: "wire ?ls = reply_bytes rs" by (simp add: wire_def reply_bytes_def comp_def)
  note ct = client_transparent [OF assms(3)]
  have e: "closed (network c) = False" using assms(4) by simp
  show ?thesis
  proof (cases "reading c \<and> take_line (network c) = None \<and> arrived (network c) = delivered p \<and> pending (writer_of p) = []")
    case True
    then have "arrived (network c) = wire ?ls" using rs(1) w by simp
    then have "screen c = marked (map strip_cr ?ls)" using ct(4) True text_lines_wire [OF lines] e by simp
    then show ?thesis using rs(1) by (intro exI [of _ rs] exI [of _ "length rs"]) (simp add: reply_bytes_def marked_def)
  next
    case False
    have "prefix (arrived (network c)) (wire ?ls)" using assms(5) unfolding w rs(1) [symmetric] by simp
    from text_lines_prefix [OF lines this] obtain m where "text_lines False (arrived (network c)) = map strip_cr (take m ?ls)" ..
    then obtain n where "screen c = take n (marked (map strip_cr (take m ?ls)))"
      using ct(3) unfolding e by (metis prefix_def append_eq_conv_conj)
    then have "screen c = map (\<lambda>r. ''< '' @ strip_cr (show_response r)) (take (min n m) rs)"
      by (simp add: marked_def take_map comp_def)
    moreover have "delivered p @ pending (writer_of p) = concat (map (\<lambda>r. show_response r @ [NL]) rs)"
      using rs(1) by (simp add: reply_bytes_def)
    ultimately show ?thesis using False by blast
  qed
qed

section \<open>The end of a session\<close>

definition client_work :: "lock_client \<Rightarrow> nat" where
  "client_work c =
     (case phase c of Typing \<Rightarrow> 3 | Closing \<Rightarrow> 2 | Joining \<Rightarrow> 1 | Exited \<Rightarrow> 0) +
     length (backlog (network c)) + (if reading c then 1 else 0)"

lemma lines_next_length: "lines_next cl s = Some (i, rest) \<Longrightarrow> length rest \<le> length s \<and> (\<forall>l. i = Line l \<longrightarrow> length rest < length s)"
  by (auto simp: lines_next_def split_once_Some split: option.splits if_splits)

lemma print_work:
  assumes "reading c" and "client_print c = Some d"
  shows "client_work d < client_work c" "phase d = phase c" "closed (network d) = closed (network c)"
proof -
  from assms(2) obtain i rest where i: "lines_next (closed (network c)) (backlog (network c)) = Some (i, rest)"
    and d: "d = (case i of Line l \<Rightarrow> c\<lparr>network := (network c)\<lparr>backlog := rest\<rparr>, screen := screen c @ [''< '' @ l]\<rparr>
      | _ \<Rightarrow> c\<lparr>network := (network c)\<lparr>backlog := rest\<rparr>, reading := False\<rparr>)"
    by (auto simp: client_print_def take_line_def split: option.splits line_item.splits)
  show "client_work d < client_work c" "phase d = phase c" "closed (network d) = closed (network c)"
    using lines_next_length [OF i] assms(1) unfolding d by (cases i; simp add: client_work_def)+
qed

lemma closed_prints: "closed (network c) \<Longrightarrow> client_print c \<noteq> None"
  by (auto simp: client_print_def take_line_def lines_next_def split: option.splits line_item.splits)

lemma client_proceeds:
  assumes "phase c \<noteq> Typing" and "phase c \<noteq> Exited" and "closed (network c)"
  shows "\<exists>d. client_step c d \<and> client_work d < client_work c \<and> phase d \<noteq> Typing \<and> closed (network d)"
proof (cases "reading c")
  case True
  from closed_prints [OF assms(3)] obtain d where d: "client_print c = Some d" by blast
  from print_line [OF True d] print_work [OF True d] assms show ?thesis by (intro exI [of _ d]) simp
next
  case False
  show ?thesis
  proof (cases "phase c")
    case Closing
    have "client_work (client_shutdown c) < client_work c" using Closing by (simp add: client_work_def client_shutdown_def)
    with shut [OF Closing] show ?thesis using assms(3) by (auto simp: client_shutdown_def)
  next
    case Joining
    have "client_join c = Some (c\<lparr>phase := Exited\<rparr>)" using False by (simp add: client_join_def)
    note join [OF Joining this]
    moreover have "client_work (c\<lparr>phase := Exited\<rparr>) < client_work c" using Joining by (simp add: client_work_def)
    ultimately show ?thesis using assms(3) by (intro exI [of _ "c\<lparr>phase := Exited\<rparr>"]) simp
  qed (use assms in auto)
qed

text \<open>C39. The client ends: once its input has ended or a write has failed and the server has closed the
  connection, every step of its own brings it closer to the exit, other steps only add to the keyboard's input, and
  it is never stuck before the exit, so it gets there.\<close>

theorem client_exits:
  assumes "phase c \<noteq> Typing" and "closed (network c)"
  shows "(\<exists>d. client_step\<^sup>*\<^sup>* c d \<and> phase d = Exited) \<and>
    (\<forall>d. client_step c d \<longrightarrow> phase d \<noteq> Typing \<and> closed (network d) \<and>
       (client_work d < client_work c \<or> (\<exists>S. d = c\<lparr>keyboard := S\<rparr>)))"
proof (intro conjI allI impI)
  show "\<exists>d. client_step\<^sup>*\<^sup>* c d \<and> phase d = Exited"
    using assms
  proof (induction "client_work c" arbitrary: c rule: less_induct)
    case less
    show ?case
    proof (cases "phase c = Exited")
      case False
      from client_proceeds [OF less.prems(1) this less.prems(2)] obtain d where
        d: "client_step c d" "client_work d < client_work c" "phase d \<noteq> Typing" "closed (network d)" by blast
      from less.hyps [OF d(2-4)] d(1) show ?thesis by (meson converse_rtranclp_into_rtranclp)
    qed blast
  qed
next
  fix d assume st: "client_step c d"
  have "phase d \<noteq> Typing \<and> closed (network d) \<and> (client_work d < client_work c \<or> (\<exists>S. d = c\<lparr>keyboard := S\<rparr>))"
    using st
  proof (cases rule: client_step.cases)
    case print_line
    from print_work [OF this] assms show ?thesis by simp
  qed (use assms in \<open>auto simp: client_work_def client_shutdown_def client_join_def split: if_splits\<close>)
  then show "phase d \<noteq> Typing" "closed (network d)" "client_work d < client_work c \<or> (\<exists>S. d = c\<lparr>keyboard := S\<rparr>)"
    by blast+
qed

section \<open>Witnesses\<close>

text \<open>The server's socket takes the rest of the reply, and the client prints it.\<close>

definition second_turn :: server where
  "second_turn = loop_body [] (\<lambda>_. [Wrote 8]) first_turn"

definition second_client :: client_state where
  "second_client = first_client\<lparr>writer_of := \<lparr> bufs = (''GRANTED a'' @ [NL], []), active = True, cursor = 10 \<rparr>,
     delivered := ''GRANTED a'' @ [NL], wants_write := False\<rparr>"

lemma second_turn_eq: "second_turn = first_turn\<lparr>clients := [Some second_client], registry := [0 \<mapsto> False]\<rparr>"
proof -
  have f: "flush_client [Wrote 8] first_client = (Flushed, second_client\<lparr>wants_write := True\<rparr>)"
    by (simp add: flush_client_def flush_nonblocking.simps buf_at_def set_buf_def first_client_def second_client_def Let_def)
  have w: "wants_write first_client" by (simp add: first_client_def)
  show ?thesis
    unfolding second_turn_def loop_body_def fold_simps first_turn_eq
    by (simp add: flush_pass_def flush_slot_def slab_get_def f w reregister_def on_client_def slab_modify_def second_client_def)
qed

lemma second_turn_reach: "server_reach second_turn"
proof (rule reach_step [OF first_turn_reach loop_step.turn])
  show "second_turn = loop_body [] (\<lambda>_. [Wrote 8]) first_turn" by (rule second_turn_def)
qed (simp add: second_turn_eq first_turn_eq)

lemma second_client_at: "client_at second_turn 0 = Some second_client"
  by (simp add: second_turn_eq slab_get_def)

lemma second_client_output: "delivered second_client = ''GRANTED a'' @ [NL]" "pending (writer_of second_client) = []"
  by (simp_all add: second_client_def pending_def buf_at_def)

definition demo_client :: lock_client where
  "demo_client = \<lparr> keyboard = stream_new, network = \<lparr> arrived = ''GRANTED a'' @ [NL], backlog = [], closed = False \<rparr>,
     phase = Typing, sent = [], reading = True, screen = [''< GRANTED a''] \<rparr>"

lemma demo_client_reach: "client_reach demo_client"
proof -
  let ?c = "\<lparr> keyboard = stream_new, network = stream_new, phase = Typing, sent = [], reading = True, screen = [] \<rparr>"
  let ?d = "?c\<lparr>network := feed (''GRANTED a'' @ [NL]) (network ?c)\<rparr>"
  have l: "lines_next False (''GRANTED a'' @ [NL]) = Some (Line ''GRANTED a'', [])"
    by (simp add: lines_next_def split_once_def NL_def strip_cr_def CR_def byte_in_def)
  have "client_connect (\<lambda>_. True) [] = Some ?c" by (simp add: client_connect_def)
  then have c: "client_reach ?c" by (intro reach_start) blast
  have d: "client_step ?c ?d" by (rule arrive) (simp add: stream_new_def)
  have "client_step ?d demo_client"
  proof (rule print_line)
    have tl: "take_line (network ?d) =
        Some (Line ''GRANTED a'', \<lparr> arrived = ''GRANTED a'' @ [NL], backlog = [], closed = False \<rparr>)"
      using l by (simp add: take_line_def feed_def stream_new_def)
    show "client_print ?d = Some demo_client"
      unfolding client_print_def tl by (simp add: demo_client_def)
  qed simp
  note printed = this
  have "client_reach ?d" using c d by (rule reach_step)
  then show ?thesis using printed by (rule reach_step)
qed

theorem client_shows_replies_witness:
  "\<exists>rs. ''GRANTED a'' @ [NL] = concat (map (\<lambda>r. show_response r @ [NL]) rs) \<and>
     screen demo_client = map (\<lambda>r. ''< '' @ strip_cr (show_response r)) rs"
proof -
  have net: "arrived (network demo_client) = ''GRANTED a'' @ [NL]" "\<not> closed (network demo_client)" "reading demo_client"
    "take_line (network demo_client) = None"
    by (simp_all add: demo_client_def take_line_def lines_next_def split_once_def)
  have "prefix (arrived (network demo_client)) (delivered second_client)" unfolding net(1) second_client_output(1) by simp
  from client_shows_replies [OF second_turn_reach second_client_at demo_client_reach net(2) this] obtain rs m where
    "''GRANTED a'' @ [NL] = concat (map (\<lambda>r. show_response r @ [NL]) rs)"
    "screen demo_client = map (\<lambda>r. ''< '' @ strip_cr (show_response r)) (take m rs)" "m = length rs"
    unfolding second_client_output net(1) using net(3,4) by auto
  then show ?thesis by auto
qed

theorem client_exits_witness:
  "\<exists>d. client_step\<^sup>*\<^sup>* (demo_client\<lparr>phase := Closing, network := (network demo_client)\<lparr>closed := True\<rparr>\<rparr>) d \<and> phase d = Exited"
proof -
  let ?c = "demo_client\<lparr>phase := Closing, network := (network demo_client)\<lparr>closed := True\<rparr>\<rparr>"
  have "phase ?c \<noteq> Typing" "closed (network ?c)" by simp_all
  from client_exits [OF this] show ?thesis by blast
qed

end
