(* ===== verification/Thread_Server.thy ===== *)
theory Thread_Server
  imports Event_Server
begin

text \<open>
  The multi-threaded lock server, \<^verbatim>\<open>locks/src/bin/thread_server.rs\<close>: one thread per connection, a store behind
  one mutex, and a condition variable per waiting \<^verbatim>\<open>ACQUIRE\<close>.

  A step of a thread is what it does while it holds the store's mutex, or between two uses of shared data, so
  the threads interleave at every point where one can see what another did.  The pairs of mutex and
  condition variable are the list \<open>cells\<close>, and a waiter's handle is its index; \<open>asleep\<close> are the threads in
  \<^verbatim>\<open>Condvar::wait\<close> on it, in the order in which they went to sleep.  As in the event server, a hash map is an
  association list, a hash set a list without repetition.  \<open>started\<close> counts the threads that have run
  \<^verbatim>\<open>alloc_id\<close>.
\<close>

section \<open>Shared state\<close>

datatype wake_state = W_Waiting | W_Granted | W_Evicted

record wake_cell =
  wake :: wake_state
  asleep :: "nat list"

record shared_entry =
  t_holder :: "client_id option"
  t_waiters :: "(client_id \<times> nat) list"

definition shared_entry_new :: shared_entry where
  "shared_entry_new = \<lparr> t_holder = None, t_waiters = [] \<rparr>"

record shared =
  t_locks :: "(string \<times> shared_entry) list"
  t_next_id :: client_id
  cells :: "wake_cell list"

definition shared_new :: shared where
  "shared_new = \<lparr> t_locks = [], t_next_id = 1, cells = [] \<rparr>"

definition alloc_id :: "shared \<Rightarrow> client_id \<times> shared" where
  "alloc_id s = (t_next_id s, s\<lparr>t_next_id := t_next_id s + 1\<rparr>)"

definition shared_entry_of :: "string \<Rightarrow> shared \<Rightarrow> shared_entry \<times> shared" where
  "shared_entry_of name s =
     (case map_of (t_locks s) name of
        Some e \<Rightarrow> (e, s)
      | None \<Rightarrow> (shared_entry_new, s\<lparr>t_locks := AList.update name shared_entry_new (t_locks s)\<rparr>))"

text \<open>Setting a waiter's state under its mutex, and \<^verbatim>\<open>notify_one\<close>, which wakes one sleeping thread.\<close>

definition set_wake :: "wake_state \<Rightarrow> nat \<Rightarrow> shared \<Rightarrow> shared" where
  "set_wake st h s = s\<lparr>cells := (cells s)[h := \<lparr> wake = st, asleep = tl (asleep (cells s ! h)) \<rparr>]\<rparr>"

definition promote_waiter :: "string \<Rightarrow> shared_entry \<Rightarrow> shared \<Rightarrow> shared" where
  "promote_waiter name e s =
     (case t_waiters e of
        (next_id, h) # ws \<Rightarrow>
          set_wake W_Granted h (s\<lparr>t_locks := AList.update name \<lparr> t_holder = Some next_id, t_waiters = ws \<rparr> (t_locks s)\<rparr>)
      | [] \<Rightarrow> s\<lparr>t_locks := AList.update name (e\<lparr>t_holder := None\<rparr>) (t_locks s)\<rparr>)"

definition evict_waiter :: "client_id \<Rightarrow> string \<Rightarrow> shared_entry \<Rightarrow> shared \<Rightarrow> bool \<times> shared" where
  "evict_waiter client_id name e s =
     (case position (\<lambda>(i, _). i = client_id) (t_waiters e) of
        Some k \<Rightarrow>
          (True, set_wake W_Evicted (snd (t_waiters e ! k))
             (s\<lparr>t_locks := AList.update name
                 (e\<lparr>t_waiters := take k (t_waiters e) @ drop (Suc k) (t_waiters e)\<rparr>) (t_locks s)\<rparr>))
      | None \<Rightarrow> (False, s))"

section \<open>Threads\<close>

text \<open>Where a thread is: before it has its identifier, at the next line, with a request and about to lock the
  store, in the loop around \<^verbatim>\<open>Condvar::wait\<close>, after the store's mutex was released with work left to do, at the
  cleanup, or finished.\<close>

datatype thread_pc =
    Starting
  | Reading
  | Requesting request
  | Sleeping string nat
  | Acquired string
  | Released string
  | Replying "response list"
  | Cleaning
  | Gone

record thread =
  t_pc :: thread_pc
  t_id :: client_id
  t_held :: "string list"
  t_out :: string

definition thread_new :: thread where
  "thread_new = \<lparr> t_pc = Starting, t_id = 0, t_held = [], t_out = [] \<rparr>"

record thread_server =
  store_of :: shared
  threads :: "thread list"
  started :: nat

definition thread_server_init :: thread_server where
  "thread_server_init = \<lparr> store_of = shared_new, threads = [], started = 0 \<rparr>"

definition send :: "response \<Rightarrow> thread \<Rightarrow> thread" where
  "send resp t = t\<lparr>t_out := t_out t @ show_response resp @ [NL]\<rparr>"

text \<open>One line: \<^verbatim>\<open>lines()\<close> fails on bytes that are not UTF-8.\<close>

definition thread_line :: "string \<Rightarrow> thread \<Rightarrow> thread" where
  "thread_line raw t =
     (if \<not> valid_utf8 raw then t\<lparr>t_pc := Cleaning\<rparr>
      else let line = trim_end CR raw in
        if line = [] then t
        else (case parse_request line of
          None \<Rightarrow> send (error_reply line) t
        | Some req \<Rightarrow> t\<lparr>t_pc := Requesting req\<rparr>))"

definition thread_status :: "string \<Rightarrow> shared_entry \<Rightarrow> response" where
  "thread_status name e =
     (case t_holder e of
        None \<Rightarrow> StatusFree name (of_nat (length (t_waiters e)))
      | Some h \<Rightarrow> StatusHeld name h (of_nat (length (t_waiters e))))"

definition thread_held_names :: "shared \<Rightarrow> string list" where
  "thread_held_names s = map fst (filter (\<lambda>(_, e). t_holder e \<noteq> None) (t_locks s))"

text \<open>A request, from locking the store to unlocking it.\<close>

definition thread_request :: "request \<Rightarrow> thread \<times> shared \<Rightarrow> thread \<times> shared" where
  "thread_request req ts =
     (let t = fst ts in
      case req of
        Acquire name \<Rightarrow>
          (case shared_entry_of name (snd ts) of (e, s) \<Rightarrow>
             if t_holder e = Some (t_id t) then (send (Err (drop 4 ERR_ALREADY_HELD)) (t\<lparr>t_pc := Reading\<rparr>), s)
             else if t_id t \<in> fst ` set (t_waiters e) then
               (send (Err (drop 4 ERR_ALREADY_HELD)) (t\<lparr>t_pc := Reading\<rparr>), s)
             else if t_holder e = None then
               (t\<lparr>t_held := List.insert name (t_held t), t_pc := Replying [Granted name]\<rparr>,
                s\<lparr>t_locks := AList.update name (e\<lparr>t_holder := Some (t_id t)\<rparr>) (t_locks s)\<rparr>)
             else
               (t\<lparr>t_pc := Sleeping name (length (cells s))\<rparr>,
                s\<lparr>t_locks := AList.update name (e\<lparr>t_waiters := t_waiters e @ [(t_id t, length (cells s))]\<rparr>) (t_locks s),
                  cells := cells s @ [\<lparr> wake = W_Waiting, asleep = [] \<rparr>]\<rparr>))
      | TryAcquire name \<Rightarrow>
          (case shared_entry_of name (snd ts) of (e, s) \<Rightarrow>
             if t_holder e = None then
               (t\<lparr>t_pc := Acquired name\<rparr>,
                s\<lparr>t_locks := AList.update name (e\<lparr>t_holder := Some (t_id t)\<rparr>) (t_locks s)\<rparr>)
             else (t\<lparr>t_pc := Replying [Denied name]\<rparr>, s))
      | Release name \<Rightarrow>
          (case shared_entry_of name (snd ts) of (e, s) \<Rightarrow>
             if t_holder e \<noteq> Some (t_id t) then (t\<lparr>t_pc := Replying [Err (drop 4 ERR_NOT_HELD)]\<rparr>, s)
             else (t\<lparr>t_pc := Released name\<rparr>, promote_waiter name e s))
      | Status name \<Rightarrow>
          (case shared_entry_of name (snd ts) of (e, s) \<Rightarrow> (t\<lparr>t_pc := Replying [thread_status name e]\<rparr>, s))
      | List_Locks \<Rightarrow>
          (t\<lparr>t_pc := Replying ([ListBegin] @ map ListEntry (thread_held_names (snd ts)) @ [ListEnd])\<rparr>, snd ts))"

text \<open>The loop around \<^verbatim>\<open>wait\<close>, with the waiter's mutex held: to sleep while nothing was decided, then on.\<close>

definition thread_check :: "nat \<Rightarrow> string \<Rightarrow> nat \<Rightarrow> thread \<times> shared \<Rightarrow> thread \<times> shared" where
  "thread_check k name h ts =
     (let t = fst ts; s = snd ts in
      case wake (cells s ! h) of
        W_Waiting \<Rightarrow> (t, s\<lparr>cells := (cells s)[h := (cells s ! h)\<lparr>asleep := asleep (cells s ! h) @ [k]\<rparr>]\<rparr>)
      | W_Granted \<Rightarrow> (t\<lparr>t_held := List.insert name (t_held t), t_pc := Replying [Granted name]\<rparr>, s)
      | W_Evicted \<Rightarrow> (t\<lparr>t_pc := Reading\<rparr>, s))"

definition spurious_wake :: "nat \<Rightarrow> nat \<Rightarrow> shared \<Rightarrow> shared" where
  "spurious_wake k h s = s\<lparr>cells := (cells s)[h := (cells s ! h)\<lparr>asleep := remove1 k (asleep (cells s ! h))\<rparr>]\<rparr>"

text \<open>What is left after the store was unlocked.\<close>

fun thread_finish :: "thread \<Rightarrow> thread" where
  "thread_finish t =
     (case t_pc t of
        Acquired name \<Rightarrow> send (Granted name) (t\<lparr>t_held := List.insert name (t_held t), t_pc := Reading\<rparr>)
      | Released name \<Rightarrow> send Ok (t\<lparr>t_held := removeAll name (t_held t), t_pc := Reading\<rparr>)
      | Replying rs \<Rightarrow> fold send rs (t\<lparr>t_pc := Reading\<rparr>)
      | _ \<Rightarrow> t)"

definition evict_step :: "client_id \<Rightarrow> string \<Rightarrow> shared \<Rightarrow> shared" where
  "evict_step i name s = (case map_of (t_locks s) name of None \<Rightarrow> s | Some e \<Rightarrow> snd (evict_waiter i name e s))"

definition release_step :: "client_id \<Rightarrow> string \<Rightarrow> shared \<Rightarrow> shared" where
  "release_step i name s =
     (case map_of (t_locks s) name of
        None \<Rightarrow> s
      | Some e \<Rightarrow> if t_holder e = Some i then promote_waiter name e s else s)"

definition thread_cleanup :: "thread \<times> shared \<Rightarrow> thread \<times> shared" where
  "thread_cleanup ts =
     (let t = fst ts; s = snd ts;
          s1 = fold (evict_step (t_id t)) (map fst (t_locks s)) s
      in (t\<lparr>t_pc := Gone\<rparr>, fold (release_step (t_id t)) (t_held t) s1))"

section \<open>Steps\<close>

definition thread_at :: "thread_server \<Rightarrow> nat \<Rightarrow> thread option" where
  "thread_at S k = (if k < length (threads S) then Some (threads S ! k) else None)"

definition put_thread :: "nat \<Rightarrow> thread \<times> shared \<Rightarrow> thread_server \<Rightarrow> thread_server" where
  "put_thread k ts S = S\<lparr>threads := (threads S)[k := fst ts], store_of := snd ts\<rparr>"

inductive thread_step :: "thread_server \<Rightarrow> thread_server \<Rightarrow> bool" where
  accept: "thread_step S (S\<lparr>threads := threads S @ [thread_new]\<rparr>)"
| start: "thread_at S k = Some t \<Longrightarrow> t_pc t = Starting \<Longrightarrow> started S < 2 ^ 64 - 2 \<Longrightarrow> alloc_id (store_of S) = (i, s) \<Longrightarrow>
    thread_step S ((put_thread k (t\<lparr>t_id := i, t_held := [], t_pc := Reading\<rparr>, s) S)\<lparr>started := started S + 1\<rparr>)"
| line: "thread_at S k = Some t \<Longrightarrow> t_pc t = Reading \<Longrightarrow>
    thread_step S (put_thread k (thread_line raw t, store_of S) S)"
| hang_up: "thread_at S k = Some t \<Longrightarrow> t_pc t = Reading \<Longrightarrow>
    thread_step S (put_thread k (t\<lparr>t_pc := Cleaning\<rparr>, store_of S) S)"
| request: "thread_at S k = Some t \<Longrightarrow> t_pc t = Requesting req \<Longrightarrow>
    thread_step S (put_thread k (thread_request req (t, store_of S)) S)"
| check: "thread_at S k = Some t \<Longrightarrow> t_pc t = Sleeping name h \<Longrightarrow> k \<notin> set (asleep (cells (store_of S) ! h)) \<Longrightarrow>
    thread_step S (put_thread k (thread_check k name h (t, store_of S)) S)"
| spurious: "thread_at S k = Some t \<Longrightarrow> t_pc t = Sleeping name h \<Longrightarrow> k \<in> set (asleep (cells (store_of S) ! h)) \<Longrightarrow>
    thread_step S (put_thread k (t, spurious_wake k h (store_of S)) S)"
| finish: "thread_at S k = Some t \<Longrightarrow> t_pc t \<in> {Acquired name, Released name, Replying rs} \<Longrightarrow>
    thread_step S (put_thread k (thread_finish t, store_of S) S)"
| cleanup: "thread_at S k = Some t \<Longrightarrow> t_pc t = Cleaning \<Longrightarrow>
    thread_step S (put_thread k (thread_cleanup (t, store_of S)) S)"

inductive_cases thread_stepE: "thread_step S T"

end
