(* ===== verification/Thread_Locks.thy ===== *)
theory Thread_Locks
  imports Thread_Server
begin

text \<open>
  The multi-threaded server refines the lock service.  \<open>thread_view\<close> reads the service's state off the store:
  what a thread is about to enter into its own list, or about to take out of it, counts as what the store
  says.  \<open>threads_ok\<close> ties the threads' positions to the queues and to the cells they sleep on.
\<close>

section \<open>View and invariant\<close>

definition live :: "thread \<Rightarrow> bool" where
  "live t \<longleftrightarrow> t_pc t \<noteq> Starting \<and> t_pc t \<noteq> Gone"

text \<open>What a thread owns: its list, corrected by the entry or removal it has still to make.\<close>

definition owns :: "shared \<Rightarrow> thread \<Rightarrow> string set" where
  "owns s t =
     (case t_pc t of
        Acquired n \<Rightarrow> insert n (set (t_held t))
      | Released n \<Rightarrow> set (t_held t) - {n}
      | Sleeping n h \<Rightarrow> if wake (cells s ! h) = W_Granted then insert n (set (t_held t)) else set (t_held t)
      | _ \<Rightarrow> set (t_held t))"

abbreviation entry_at :: "shared \<Rightarrow> string \<Rightarrow> shared_entry option" where
  "entry_at s \<equiv> map_of (t_locks s)"

definition holds :: "shared \<Rightarrow> client_id \<Rightarrow> string \<Rightarrow> bool" where
  "holds s i n \<longleftrightarrow> map_option t_holder (entry_at s n) = Some (Some i)"

definition live_id :: "thread_server \<Rightarrow> client_id \<Rightarrow> bool" where
  "live_id S i \<longleftrightarrow> (\<exists>k t. thread_at S k = Some t \<and> live t \<and> t_id t = i)"

definition thread_view :: "thread_server \<Rightarrow> lock_state" where
  "thread_view S =
     ((\<lambda>i. if live_id S i then Some {n. holds (store_of S) i n} else None),
      (\<lambda>n. map_option (\<lambda>e. (t_holder e, map fst (t_waiters e))) (entry_at (store_of S) n)))"

definition ids_fresh :: "thread_server \<Rightarrow> bool" where
  "ids_fresh S \<longleftrightarrow> started S < 2 ^ 64 - 1 \<and> t_next_id (store_of S) = of_nat (started S + 1) \<and>
     (\<forall>k t. thread_at S k = Some t \<longrightarrow> t_pc t \<noteq> Starting \<longrightarrow> (\<exists>j. j \<le> started S \<and> t_id t = of_nat j)) \<and>
     (\<forall>k t k' t'. thread_at S k = Some t \<longrightarrow> thread_at S k' = Some t' \<longrightarrow> live t \<longrightarrow> live t' \<longrightarrow> t_id t = t_id t' \<longrightarrow> k = k')"

definition queues_ok :: "thread_server \<Rightarrow> bool" where
  "queues_ok S \<longleftrightarrow>
     (\<forall>n e. entry_at (store_of S) n = Some e \<longrightarrow> distinct (map fst (t_waiters e)) \<and> (t_holder e = None \<longrightarrow> t_waiters e = []) \<and>
        (\<forall>w h. (w, h) \<in> set (t_waiters e) \<longrightarrow>
           wake (cells (store_of S) ! h) = W_Waiting \<and>
           (\<exists>k t. thread_at S k = Some t \<and> t_pc t = Sleeping n h \<and> t_id t = w)))"

definition sleepers_ok :: "thread_server \<Rightarrow> bool" where
  "sleepers_ok S \<longleftrightarrow>
     (\<forall>k t n h. thread_at S k = Some t \<longrightarrow> t_pc t = Sleeping n h \<longrightarrow>
        h < length (cells (store_of S)) \<and> wake (cells (store_of S) ! h) \<noteq> W_Evicted \<and>
        asleep (cells (store_of S) ! h) \<in> {[], [k]} \<and>
        (wake (cells (store_of S) ! h) = W_Granted \<longrightarrow> asleep (cells (store_of S) ! h) = []) \<and>
        (wake (cells (store_of S) ! h) = W_Waiting \<longrightarrow>
           (\<exists>e. entry_at (store_of S) n = Some e \<and> (t_id t, h) \<in> set (t_waiters e))) \<and>
        (\<forall>k' t' n'. thread_at S k' = Some t' \<longrightarrow> t_pc t' = Sleeping n' h \<longrightarrow> k' = k))"

definition owners_ok :: "thread_server \<Rightarrow> bool" where
  "owners_ok S \<longleftrightarrow>
     (\<forall>k t. thread_at S k = Some t \<longrightarrow> live t \<longrightarrow> owns (store_of S) t = {n. holds (store_of S) (t_id t) n}) \<and>
     (\<forall>i n. holds (store_of S) i n \<longrightarrow> live_id S i)"

definition threads_ok :: "thread_server \<Rightarrow> bool" where
  "threads_ok S \<longleftrightarrow> ids_fresh S \<and> queues_ok S \<and> sleepers_ok S \<and> owners_ok S"

lemma threads_okI: "ids_fresh S \<Longrightarrow> queues_ok S \<Longrightarrow> sleepers_ok S \<Longrightarrow> owners_ok S \<Longrightarrow> threads_ok S"
  by (simp add: threads_ok_def)

lemma threads_okD:
  assumes "threads_ok S"
  shows "ids_fresh S" "queues_ok S" "sleepers_ok S" "owners_ok S"
  using assms by (simp_all add: threads_ok_def)

lemma same_id:
  assumes "ids_fresh S" and "thread_at S k = Some t" "thread_at S k' = Some t'" "live t" "live t'" "t_id t = t_id t'"
  shows "k = k'"
  using assms unfolding ids_fresh_def by blast

lemma queues_okD:
  assumes "queues_ok S" and "entry_at (store_of S) n = Some e"
  shows "distinct (map fst (t_waiters e))" "t_holder e = None \<Longrightarrow> t_waiters e = []"
    "(w, h) \<in> set (t_waiters e) \<Longrightarrow> wake (cells (store_of S) ! h) = W_Waiting"
    "(w, h) \<in> set (t_waiters e) \<Longrightarrow> \<exists>k t. thread_at S k = Some t \<and> t_pc t = Sleeping n h \<and> t_id t = w"
  using assms unfolding queues_ok_def by blast+

lemma sleepers_okD:
  assumes "sleepers_ok S" and "thread_at S k = Some t" "t_pc t = Sleeping n h"
  shows "h < length (cells (store_of S))" "wake (cells (store_of S) ! h) \<noteq> W_Evicted"
    "asleep (cells (store_of S) ! h) \<in> {[], [k]}"
    "wake (cells (store_of S) ! h) = W_Granted \<Longrightarrow> asleep (cells (store_of S) ! h) = []"
    "wake (cells (store_of S) ! h) = W_Waiting \<Longrightarrow> \<exists>e. entry_at (store_of S) n = Some e \<and> (t_id t, h) \<in> set (t_waiters e)"
    "thread_at S k' = Some t' \<Longrightarrow> t_pc t' = Sleeping n' h \<Longrightarrow> k' = k"
  using assms unfolding sleepers_ok_def by blast+

lemma owners_okD:
  assumes "owners_ok S"
  shows "thread_at S k = Some t \<Longrightarrow> live t \<Longrightarrow> owns (store_of S) t = {n. holds (store_of S) (t_id t) n}"
    "holds (store_of S) i n \<Longrightarrow> live_id S i"
  using assms unfolding owners_ok_def by blast+

section \<open>Replacing one thread\<close>

lemma thread_at_put [simp]:
  "thread_at (put_thread k ts S) j = (if j = k \<and> k < length (threads S) then Some (fst ts) else thread_at S j)"
  by (simp add: thread_at_def put_thread_def)

lemma thread_at_Some: "thread_at S k = Some t \<Longrightarrow> k < length (threads S)"
  by (simp add: thread_at_def split: if_splits)

lemma put_thread_store [simp]: "store_of (put_thread k ts S) = snd ts" "started (put_thread k ts S) = started S"
  by (simp_all add: put_thread_def)

lemma put_live_id:
  assumes "thread_at S k = Some t" "live t" "live t'" "t_id t' = t_id t"
  shows "live_id (put_thread k (t', s) S) = live_id S"
proof
  fix i
  have at: "thread_at (put_thread k (t', s) S) j = (if j = k then Some t' else thread_at S j)" for j
    using thread_at_Some [OF assms(1)] by simp
  show "live_id (put_thread k (t', s) S) i = live_id S i"
  proof
    assume "live_id (put_thread k (t', s) S) i"
    then show "live_id S i" using assms unfolding live_id_def at by (auto split: if_splits)
  next
    assume "live_id S i"
    then obtain j u where u: "thread_at S j = Some u" "live u" "t_id u = i" by (auto simp: live_id_def)
    show "live_id (put_thread k (t', s) S) i"
    proof (cases "j = k")
      case True
      then show ?thesis using assms u unfolding live_id_def at by (intro exI [of _ k] exI [of _ t']) simp
    next
      case False
      then show ?thesis using u unfolding live_id_def at by (intro exI [of _ j] exI [of _ u]) simp
    qed
  qed
qed

lemma put_ids_fresh:
  assumes fresh: "ids_fresh S" and t: "thread_at S k = Some t" "live t" "live t'" "t_id t' = t_id t"
    and s: "t_next_id s = t_next_id (store_of S)"
  shows "ids_fresh (put_thread k (t', s) S)"
proof -
  let ?S = "put_thread k (t', s) S"
  have at: "thread_at ?S j = (if j = k then Some t' else thread_at S j)" for j using thread_at_Some [OF t(1)] by simp
  have ns: "t_pc t \<noteq> Starting" using t(2) by (simp add: live_def)
  have "k1 = k2" if "thread_at ?S k1 = Some u1" "thread_at ?S k2 = Some u2" "live u1" "live u2" "t_id u1 = t_id u2" for k1 u1 k2 u2
    using that t same_id [OF fresh, of k1 _ k2] unfolding at by (auto split: if_splits)
  moreover have "\<exists>j. j \<le> started S \<and> t_id u = of_nat j" if "thread_at ?S k1 = Some u" "t_pc u \<noteq> Starting" for k1 u
    using that t ns fresh unfolding at ids_fresh_def by (auto split: if_splits)
  ultimately show ?thesis using fresh s unfolding ids_fresh_def put_thread_store snd_conv by metis
qed

text \<open>Threads that do not sleep come and go without the queues noticing.\<close>

lemma put_sleeping:
  assumes "thread_at S k = Some t" and "\<And>n h. t_pc t \<noteq> Sleeping n h" "\<And>n h. t_pc t' \<noteq> Sleeping n h"
  shows "(thread_at (put_thread k (t', s) S) j = Some u \<and> t_pc u = Sleeping n h) \<longleftrightarrow>
    (thread_at S j = Some u \<and> t_pc u = Sleeping n h)"
  using assms thread_at_Some [OF assms(1)] by auto

text \<open>The other threads own what they owned if the cells they sleep on stay.\<close>

lemma owns_cong:
  "(\<And>n h. t_pc t = Sleeping n h \<Longrightarrow> wake (cells s' ! h) = wake (cells s ! h)) \<Longrightarrow> owns s' t = owns s t"
  by (simp add: owns_def split: thread_pc.split)

lemma sleepers_cong:
  assumes "sleepers_ok S"
    and "\<And>j u n h. thread_at S' j = Some u \<and> t_pc u = Sleeping n h \<longleftrightarrow> thread_at S j = Some u \<and> t_pc u = Sleeping n h"
    and "cells (store_of S') = cells (store_of S)"
    and "\<And>n e w h. entry_at (store_of S) n = Some e \<Longrightarrow> (w, h) \<in> set (t_waiters e) \<Longrightarrow>
      \<exists>e'. entry_at (store_of S') n = Some e' \<and> (w, h) \<in> set (t_waiters e')"
  shows "sleepers_ok S'"
  unfolding sleepers_ok_def
proof (intro allI impI conjI)
  fix k t n h assume "thread_at S' k = Some t" "t_pc t = Sleeping n h"
  then have t: "thread_at S k = Some t" "t_pc t = Sleeping n h" using assms(2) by blast+
  note d = sleepers_okD [OF assms(1) t]
  show "h < length (cells (store_of S'))" "wake (cells (store_of S') ! h) \<noteq> W_Evicted"
    "asleep (cells (store_of S') ! h) \<in> {[], [k]}" using d(1-3) assms(3) by simp_all
  show "asleep (cells (store_of S') ! h) = []" if "wake (cells (store_of S') ! h) = W_Granted" using d(4) that assms(3) by simp
  show "\<exists>e. entry_at (store_of S') n = Some e \<and> (t_id t, h) \<in> set (t_waiters e)"
    if "wake (cells (store_of S') ! h) = W_Waiting" using d(5) that assms(3,4) by metis
  fix k' t' n' assume "thread_at S' k' = Some t'" "t_pc t' = Sleeping n' h"
  then have "thread_at S k' = Some t'" "t_pc t' = Sleeping n' h" using assms(2) by blast+
  then show "k' = k" by (rule d(6))
qed

lemma queues_cong:
  assumes "queues_ok S"
    and "\<And>j u n h. thread_at S' j = Some u \<and> t_pc u = Sleeping n h \<longleftrightarrow> thread_at S j = Some u \<and> t_pc u = Sleeping n h"
    and "cells (store_of S') = cells (store_of S)"
    and "\<And>n e'. entry_at (store_of S') n = Some e' \<Longrightarrow> t_waiters e' = [] \<or>
      (\<exists>e. entry_at (store_of S) n = Some e \<and> t_waiters e' = t_waiters e \<and> (t_holder e' = None \<longrightarrow> t_holder e = None))"
  shows "queues_ok S'"
  unfolding queues_ok_def
proof (intro allI impI)
  fix n e' assume e': "entry_at (store_of S') n = Some e'"
  show "distinct (map fst (t_waiters e')) \<and> (t_holder e' = None \<longrightarrow> t_waiters e' = []) \<and>
      (\<forall>w h. (w, h) \<in> set (t_waiters e') \<longrightarrow> wake (cells (store_of S') ! h) = W_Waiting \<and>
         (\<exists>k t. thread_at S' k = Some t \<and> t_pc t = Sleeping n h \<and> t_id t = w))"
  proof (cases "t_waiters e' = []")
    case False
    obtain e where e: "entry_at (store_of S) n = Some e" "t_waiters e' = t_waiters e"
      "t_holder e' = None \<longrightarrow> t_holder e = None"
      using assms(4) [OF e'] False by (elim disjE exE conjE) (simp, rule that)
    note q = queues_okD [OF assms(1) e(1)]
    have asleep: "wake (cells (store_of S') ! h) = W_Waiting \<and>
        (\<exists>k t. thread_at S' k = Some t \<and> t_pc t = Sleeping n h \<and> t_id t = w)" if w: "(w, h) \<in> set (t_waiters e)" for w h
    proof -
      from q(4) [OF w] obtain k t where kt: "thread_at S k = Some t" "t_pc t = Sleeping n h" "t_id t = w"
        by (elim exE conjE) (rule that)
      have "thread_at S' k = Some t" by (rule assms(2) [THEN iffD2, OF conjI [OF kt(1,2)], THEN conjunct1])
      with kt q(3) [OF w] assms(3) show ?thesis by auto
    qed
    show ?thesis
    proof (intro conjI impI allI)
      show "distinct (map fst (t_waiters e'))" using q(1) e(2) by simp
      show "t_waiters e' = []" if "t_holder e' = None" using q(2) that e(2,3) by simp
    qed (use asleep e(2) in auto)
  qed simp
qed

text \<open>A step that leaves locks and cells alone and turns a live thread that does not sleep into another such
  thread that owns the same.\<close>

lemma quiet_thread:
  assumes ok: "threads_ok S" and t: "thread_at S k = Some t" and l: "live t" "live t'" and id: "t_id t' = t_id t"
    and own: "owns (store_of S) t' = owns (store_of S) t"
    and awake: "\<And>n h. t_pc t \<noteq> Sleeping n h" "\<And>n h. t_pc t' \<noteq> Sleeping n h"
  shows "threads_ok (put_thread k (t', store_of S) S) \<and> thread_view (put_thread k (t', store_of S) S) = thread_view S"
proof -
  let ?S = "put_thread k (t', store_of S) S"
  have at: "thread_at ?S j = (if j = k then Some t' else thread_at S j)" for j using thread_at_Some [OF t] by simp
  note sl = put_sleeping [OF t awake, of "store_of S"] and lv = put_live_id [OF t l id, of "store_of S"]
  have "ids_fresh ?S" by (rule put_ids_fresh [OF threads_okD(1) [OF ok] t l id refl])
  moreover have "queues_ok ?S" by (rule queues_cong [OF threads_okD(2) [OF ok] sl]) auto
  moreover have "sleepers_ok ?S"
    by (rule sleepers_cong [OF threads_okD(3) [OF ok] sl]) auto
  moreover have "owners_ok ?S"
    unfolding owners_ok_def put_thread_store snd_conv lv
    using owners_okD [OF threads_okD(4) [OF ok]] t l id own unfolding at by (auto split: if_splits)
  moreover have "thread_view ?S = thread_view S" unfolding thread_view_def lv put_thread_store snd_conv ..
  ultimately show ?thesis by (simp add: threads_ok_def)
qed

section \<open>Entries\<close>

lemma entry_at_update [simp]:
  "entry_at (s\<lparr>t_locks := AList.update n e (t_locks s)\<rparr>) = (entry_at s)(n \<mapsto> e)"
  by (simp add: update_conv')

lemma shared_entry_of_facts:
  assumes "shared_entry_of n s = (e, s')"
  shows "entry_at s' = (entry_at s)(n \<mapsto> e)" "cells s' = cells s" "t_next_id s' = t_next_id s"
    "entry_at s n = None \<and> e = shared_entry_new \<or> entry_at s n = Some e \<and> s' = s"
  using assms by (auto simp: shared_entry_of_def update_conv' split: option.splits)

text \<open>Looking a name up may create its entry.\<close>

lemma touch_store:
  assumes ok: "threads_ok S" and e: "shared_entry_of n (store_of S) = (e, s)"
  shows "threads_ok (S\<lparr>store_of := s\<rparr>) \<and> lock_step\<^sup>*\<^sup>* (thread_view S) (thread_view (S\<lparr>store_of := s\<rparr>)) \<and> entry_at s n = Some e"
proof -
  let ?S = "S\<lparr>store_of := s\<rparr>"
  note f = shared_entry_of_facts [OF e]
  show ?thesis
  proof (cases "entry_at (store_of S) n")
    case (Some e0)
    then have "?S = S" using f(4) by simp
    then show ?thesis using ok f(1) by simp
  next
    case None
    then have new: "e = shared_entry_new" using f(4) by simp
    have at: "thread_at ?S = thread_at S" by (simp add: thread_at_def fun_eq_iff)
    have h: "holds s = holds (store_of S)" using None by (simp add: holds_def f(1) new shared_entry_new_def fun_eq_iff)
    have lv: "live_id ?S = live_id S" by (simp add: live_id_def at fun_eq_iff)
    have own: "owns s u = owns (store_of S) u" for u by (rule owns_cong) (simp add: f(2))
    have "ids_fresh ?S" using threads_okD(1) [OF ok] f(3) by (simp add: ids_fresh_def at)
    moreover have "queues_ok ?S"
      by (rule queues_cong [OF threads_okD(2) [OF ok]]) (auto simp: at f(1,2) new shared_entry_new_def split: if_splits)
    moreover have "sleepers_ok ?S"
      by (rule sleepers_cong [OF threads_okD(3) [OF ok]]) (use None in \<open>auto simp: at f(1,2)\<close>)
    moreover have "owners_ok ?S" using threads_okD(4) [OF ok] by (simp add: owners_ok_def at h lv own)
    moreover have "lock_step (thread_view S) (thread_view ?S)"
    proof -
      have "thread_view ?S = (fst (thread_view S), (snd (thread_view S))(n \<mapsto> (None, [])))"
        by (auto simp: thread_view_def lv h f(1) new shared_entry_new_def fun_eq_iff)
      moreover have "snd (thread_view S) n = None" using None by (simp add: thread_view_def)
      ultimately show ?thesis using touch [of "snd (thread_view S)" n "fst (thread_view S)"] by simp
    qed
    ultimately show ?thesis using f(1) by (simp add: threads_ok_def)
  qed
qed

lemma thread_view_live:
  "thread_at S k = Some t \<Longrightarrow> live t \<Longrightarrow> fst (thread_view S) (t_id t) = Some {n. holds (store_of S) (t_id t) n}"
  by (auto simp: thread_view_def live_id_def)

lemma thread_view_entry:
  "entry_at (store_of S) n = Some e \<Longrightarrow> snd (thread_view S) n = Some (t_holder e, map fst (t_waiters e))"
  by (simp add: thread_view_def)

text \<open>A free lock is granted to a thread that is awake.\<close>

lemma put_owners:
  assumes ok: "threads_ok S" and t: "thread_at S k = Some t" and l: "live t" "live t'" and id: "t_id t' = t_id t"
    and free: "\<And>i. \<not> holds (store_of S) i n"
    and h: "\<And>i m. holds s i m \<longleftrightarrow> m = n \<and> i = t_id t \<or> m \<noteq> n \<and> holds (store_of S) i m"
    and cs: "cells s = cells (store_of S)" and own: "owns s t' = insert n (owns (store_of S) t)"
  shows "owners_ok (put_thread k (t', s) S)"
proof -
  note lv = put_live_id [OF t l id, of s] and o = owners_okD [OF threads_okD(4) [OF ok]]
  have oc: "owns s u = owns (store_of S) u" for u by (rule owns_cong) (simp add: cs)
  have "owns s u = {m. holds s (t_id u) m}" if u: "thread_at (put_thread k (t', s) S) j = Some u" "live u" for j u
  proof (cases "j = k")
    case True
    then have "u = t'" using u(1) thread_at_Some [OF t] by simp
    then show ?thesis using own o(1) [OF t l(1)] id free by (auto simp: h)
  next
    case False
    then have u': "thread_at S j = Some u" using u(1) thread_at_Some [OF t] by simp
    then have "t_id u \<noteq> t_id t" using same_id [OF threads_okD(1) [OF ok] u' t u(2) l(1)] False by blast
    then show ?thesis using o(1) [OF u' u(2)] free by (auto simp: h oc)
  qed
  moreover have "live_id S i" if "holds s i m" for i m using that o(2) t l(1) by (auto simp: h live_id_def)
  ultimately show ?thesis unfolding owners_ok_def put_thread_store snd_conv lv by blast
qed

lemma grant_view:
  assumes t: "thread_at S k = Some t" and l: "live t" "live t'" and id: "t_id t' = t_id t"
    and e: "entry_at (store_of S) n = Some e" "t_holder e = None"
    and ent: "entry_at s = (entry_at (store_of S))(n \<mapsto> e\<lparr>t_holder := Some (t_id t)\<rparr>)"
    and h: "\<And>i m. holds s i m \<longleftrightarrow> m = n \<and> i = t_id t \<or> m \<noteq> n \<and> holds (store_of S) i m"
  shows "lock_step (thread_view S) (thread_view (put_thread k (t', s) S))"
proof -
  let ?S = "put_thread k (t', s) S" and ?own = "{m. holds (store_of S) (t_id t) m}"
  have free: "\<not> holds (store_of S) i n" for i using e by (simp add: holds_def)
  have "live_id S (t_id t)" using t l(1) by (auto simp: live_id_def)
  then have f: "fst (thread_view ?S) = (fst (thread_view S))(t_id t \<mapsto> insert n ?own)"
    using free by (auto simp: fun_eq_iff thread_view_def put_live_id [OF t l id, of s] h)
  have g: "snd (thread_view ?S) = (snd (thread_view S))(n \<mapsto> (Some (t_id t), map fst (t_waiters e)))"
    by (simp add: thread_view_def ent fun_eq_iff)
  have m: "snd (thread_view S) n = Some (None, map fst (t_waiters e))" using thread_view_entry [OF e(1)] e(2) by simp
  have "lock_step (fst (thread_view S), snd (thread_view S)) (fst (thread_view ?S), snd (thread_view ?S))"
    unfolding f g by (rule lock_step.grant [of "fst (thread_view S)" "t_id t" ?own "snd (thread_view S)" n])
      (fact thread_view_live [OF t l(1)] m)+
  then show ?thesis by simp
qed

lemma grant_thread:
  assumes ok: "threads_ok S" and t: "thread_at S k = Some t" and l: "live t" "live t'" and id: "t_id t' = t_id t"
    and awake: "\<And>n h. t_pc t \<noteq> Sleeping n h" "\<And>n h. t_pc t' \<noteq> Sleeping n h"
    and e: "entry_at (store_of S) n = Some e" "t_holder e = None"
    and s: "s = (store_of S)\<lparr>t_locks := AList.update n (e\<lparr>t_holder := Some (t_id t)\<rparr>) (t_locks (store_of S))\<rparr>"
    and own: "owns s t' = insert n (owns (store_of S) t)"
  shows "threads_ok (put_thread k (t', s) S) \<and> lock_step (thread_view S) (thread_view (put_thread k (t', s) S))"
proof -
  let ?S = "put_thread k (t', s) S"
  note sl = put_sleeping [OF t awake, of s]
  have ent: "entry_at s = (entry_at (store_of S))(n \<mapsto> e\<lparr>t_holder := Some (t_id t)\<rparr>)" and cs: "cells s = cells (store_of S)"
    unfolding s by (simp_all add: update_conv')
  have h: "holds s i m \<longleftrightarrow> m = n \<and> i = t_id t \<or> m \<noteq> n \<and> holds (store_of S) i m" for i m
    by (auto simp: holds_def ent)
  have free: "\<not> holds (store_of S) i n" for i using e by (simp add: holds_def)
  have "ids_fresh ?S" by (rule put_ids_fresh [OF threads_okD(1) [OF ok] t l id]) (simp add: s)
  moreover have "queues_ok ?S"
    by (rule queues_cong [OF threads_okD(2) [OF ok] sl]) (use e in \<open>auto simp: ent cs split: if_splits\<close>)
  moreover have "sleepers_ok ?S"
    by (rule sleepers_cong [OF threads_okD(3) [OF ok] sl]) (use e in \<open>auto simp: ent cs\<close>)
  moreover have "owners_ok ?S" by (rule put_owners [OF ok t l id free h cs own])
  moreover have "lock_step (thread_view S) (thread_view ?S)" by (rule grant_view [OF t l id e ent h])
  ultimately show ?thesis by (simp add: threads_ok_def)
qed

section \<open>Passing a lock on\<close>

lemma owners_put:
  assumes "thread_at S k = Some t" "live t" "live t'" "t_id t' = t_id t"
    and "owns s t' = {m. holds s (t_id t) m}"
    and "\<And>j u. thread_at S j = Some u \<Longrightarrow> live u \<Longrightarrow> j \<noteq> k \<Longrightarrow> owns s u = {m. holds s (t_id u) m}"
    and "\<And>i m. holds s i m \<Longrightarrow> live_id S i"
  shows "owners_ok (put_thread k (t', s) S)"
proof -
  have at: "thread_at (put_thread k (t', s) S) j = (if j = k then Some t' else thread_at S j)" for j
    using thread_at_Some [OF assms(1)] by simp
  show ?thesis
    unfolding owners_ok_def put_thread_store snd_conv put_live_id [OF assms(1-4)] at
    using assms(4-7) by (auto split: if_splits)
qed

text \<open>Two waiters never share a cell.\<close>

lemma cell_unique:
  assumes ok: "threads_ok S" and e: "entry_at (store_of S) m = Some e" "(w, h) \<in> set (t_waiters e)"
    and u: "thread_at S k = Some u" "t_pc u = Sleeping n h"
  shows "m = n \<and> w = t_id u"
proof -
  from queues_okD(4) [OF threads_okD(2) [OF ok] e] obtain j v
    where v: "thread_at S j = Some v" "t_pc v = Sleeping m h" "t_id v = w" by (elim exE conjE) (rule that)
  from sleepers_okD(6) [OF threads_okD(3) [OF ok] u v(1,2)] have "j = k" .
  with u v show ?thesis by simp
qed

lemma release_view:
  assumes "fst v i = Some ns" "snd v n = Some (Some i, ws)"
    and "v' = hand_over n ws ((fst v)(i \<mapsto> ns - {n}), snd v)"
  shows "lock_step v v'"
  using lock_step.release [of "fst v" i ns "snd v" n ws] assms by simp

text \<open>Nobody waits: the lock becomes free.\<close>

lemma free_thread:
  assumes ok: "threads_ok S" and t: "thread_at S k = Some t" and l: "live t" "live t'" and id: "t_id t' = t_id t"
    and awake: "\<And>n h. t_pc t \<noteq> Sleeping n h" "\<And>n h. t_pc t' \<noteq> Sleeping n h"
    and e: "entry_at (store_of S) n = Some e" "t_holder e = Some (t_id t)" "t_waiters e = []"
    and own: "owns (store_of S) t' = owns (store_of S) t - {n}"
    and s: "s = promote_waiter n e (store_of S)"
  shows "threads_ok (put_thread k (t', s) S) \<and> lock_step (thread_view S) (thread_view (put_thread k (t', s) S))"
proof -
  let ?S = "put_thread k (t', s) S"
  note sl = put_sleeping [OF t awake, of s] and lv = put_live_id [OF t l id, of s]
  have ent: "entry_at s = (entry_at (store_of S))(n \<mapsto> e\<lparr>t_holder := None\<rparr>)" and cs: "cells s = cells (store_of S)"
    and nid: "t_next_id s = t_next_id (store_of S)"
    unfolding s promote_waiter_def e(3) by (simp_all add: update_conv')
  have h: "holds s i m \<longleftrightarrow> m \<noteq> n \<and> holds (store_of S) i m" for i m by (auto simp: holds_def ent)
  have mine: "holds (store_of S) i n \<longleftrightarrow> i = t_id t" for i using e by (auto simp: holds_def)
  have oc: "owns s u = owns (store_of S) u" for u by (rule owns_cong) (simp add: cs)
  note o = owners_okD [OF threads_okD(4) [OF ok]]
  have "ids_fresh ?S" by (rule put_ids_fresh [OF threads_okD(1) [OF ok] t l id nid])
  moreover have "queues_ok ?S"
    by (rule queues_cong [OF threads_okD(2) [OF ok] sl]) (use e in \<open>auto simp: ent cs split: if_splits\<close>)
  moreover have "sleepers_ok ?S"
    by (rule sleepers_cong [OF threads_okD(3) [OF ok] sl]) (use e in \<open>auto simp: ent cs\<close>)
  moreover have "owners_ok ?S"
  proof (rule owners_put [OF t l id])
    show "owns s t' = {m. holds s (t_id t) m}" using o(1) [OF t l(1)] own by (auto simp: oc h)
    show "owns s u = {m. holds s (t_id u) m}" if u: "thread_at S j = Some u" "live u" "j \<noteq> k" for j u
    proof -
      have "t_id u \<noteq> t_id t" using same_id [OF threads_okD(1) [OF ok] u(1) t u(2) l(1)] u(3) by blast
      then show ?thesis using o(1) [OF u(1,2)] mine by (auto simp: oc h)
    qed
    show "live_id S i" if "holds s i m" for i m using that by (intro o(2) [of i m]) (simp add: h)
  qed
  moreover have "lock_step (thread_view S) (thread_view ?S)"
  proof -
    have lt: "live_id S (t_id t)" using t l(1) by (auto simp: live_id_def)
    have f: "fst (thread_view ?S) = (fst (thread_view S))(t_id t \<mapsto> {m. holds (store_of S) (t_id t) m} - {n})"
    proof
      show "fst (thread_view ?S) i = ((fst (thread_view S))(t_id t \<mapsto> {m. holds (store_of S) (t_id t) m} - {n})) i" for i
        using lt by (cases "i = t_id t") (auto simp: thread_view_def lv h mine)
    qed
    have g: "snd (thread_view ?S) = (snd (thread_view S))(n \<mapsto> (None, []))"
      using e(3) by (simp add: thread_view_def ent fun_eq_iff)
    have m: "snd (thread_view S) n = Some (Some (t_id t), [])" using thread_view_entry [OF e(1)] e by simp
    show ?thesis by (rule release_view [OF thread_view_live [OF t l(1)] m]) (simp add: hand_over_def prod_eq_iff f g)
  qed
  ultimately show ?thesis by (simp add: threads_ok_def)
qed

text \<open>The oldest waiter gets the lock: its cell says so, and it owns the name before it wakes up.\<close>

lemma handed_cells:
  assumes ok: "threads_ok S" and e: "entry_at (store_of S) n = Some e" "t_waiters e = (w, h) # ws"
  obtains k u where "thread_at S k = Some u" "t_pc u = Sleeping n h" "t_id u = w"
    "cells (promote_waiter n e (store_of S)) = (cells (store_of S))[h := \<lparr> wake = W_Granted, asleep = [] \<rparr>]"
    "h < length (cells (store_of S))" "wake (cells (store_of S) ! h) = W_Waiting"
proof -
  have i: "(w, h) \<in> set (t_waiters e)" using e(2) by simp
  from queues_okD(4) [OF threads_okD(2) [OF ok] e(1) i] obtain k u
    where u: "thread_at S k = Some u" "t_pc u = Sleeping n h" "t_id u = w" by (elim exE conjE) (rule that)
  note d = sleepers_okD [OF threads_okD(3) [OF ok] u(1,2)]
  have "tl (asleep (cells (store_of S) ! h)) = []" using d(3) by auto
  then have "cells (promote_waiter n e (store_of S)) = (cells (store_of S))[h := \<lparr> wake = W_Granted, asleep = [] \<rparr>]"
    by (simp add: promote_waiter_def e(2) set_wake_def)
  then show ?thesis using that u d(1) queues_okD(3) [OF threads_okD(2) [OF ok] e(1) i] by blast
qed

lemma hand_queues:
  assumes ok: "threads_ok S" and e: "entry_at (store_of S) n = Some e" "t_waiters e = (w, h) # ws"
    and sl: "\<And>j u n h. thread_at S' j = Some u \<and> t_pc u = Sleeping n h \<longleftrightarrow> thread_at S j = Some u \<and> t_pc u = Sleeping n h"
    and s: "store_of S' = promote_waiter n e (store_of S)"
  shows "queues_ok S'"
proof -
  obtain k u where u: "thread_at S k = Some u" "t_pc u = Sleeping n h" "t_id u = w"
    "cells (promote_waiter n e (store_of S)) = (cells (store_of S))[h := \<lparr> wake = W_Granted, asleep = [] \<rparr>]"
    by (rule handed_cells [OF ok e])
  have ent: "entry_at (store_of S') = (entry_at (store_of S))(n \<mapsto> \<lparr> t_holder = Some w, t_waiters = ws \<rparr>)"
    by (simp add: s promote_waiter_def e(2) set_wake_def update_conv')
  have old: "\<exists>e0. entry_at (store_of S) m = Some e0 \<and> set (t_waiters e') \<subseteq> set (t_waiters e0) \<and>
      (m = n \<longrightarrow> w \<notin> fst ` set (t_waiters e')) \<and> distinct (map fst (t_waiters e')) \<and> (t_holder e' = None \<longrightarrow> t_waiters e' = [])"
    if e': "entry_at (store_of S') m = Some e'" for m e'
    using e' queues_okD(1,2) [OF threads_okD(2) [OF ok]] queues_okD(1) [OF threads_okD(2) [OF ok] e(1)] e
    unfolding ent by (cases "m = n") auto
  show ?thesis
    unfolding queues_ok_def
  proof (intro allI impI conjI)
    fix m e' assume "entry_at (store_of S') m = Some e'"
    from old [OF this] obtain e0 where e0: "entry_at (store_of S) m = Some e0" "set (t_waiters e') \<subseteq> set (t_waiters e0)"
      "m = n \<longrightarrow> w \<notin> fst ` set (t_waiters e')" "distinct (map fst (t_waiters e'))" "t_holder e' = None \<longrightarrow> t_waiters e' = []"
      by (elim exE conjE) (rule that)
    show "distinct (map fst (t_waiters e'))" by (rule e0(4))
    show "t_waiters e' = []" if "t_holder e' = None" using e0(5) that by simp
    fix w' h' assume i: "(w', h') \<in> set (t_waiters e')"
    then have i0: "(w', h') \<in> set (t_waiters e0)" using e0(2) by blast
    have "h' \<noteq> h"
    proof
      assume "h' = h"
      with cell_unique [OF ok e0(1) _ u(1,2)] i0 u(3) have "m = n" "w' = w" by auto
      with e0(3) i show False by force
    qed
    then show "wake (cells (store_of S') ! h') = W_Waiting"
      using queues_okD(3) [OF threads_okD(2) [OF ok] e0(1) i0] by (simp add: s u(4))
    from queues_okD(4) [OF threads_okD(2) [OF ok] e0(1) i0] obtain j v
      where v: "thread_at S j = Some v" "t_pc v = Sleeping m h'" "t_id v = w'" by (elim exE conjE) (rule that)
    from sl [THEN iffD2, OF conjI [OF v(1,2)]] v
    show "\<exists>k t. thread_at S' k = Some t \<and> t_pc t = Sleeping m h' \<and> t_id t = w'" by blast
  qed
qed

lemma hand_sleepers:
  assumes ok: "threads_ok S" and e: "entry_at (store_of S) n = Some e" "t_waiters e = (w, h) # ws"
    and sl: "\<And>j u n h. thread_at S' j = Some u \<and> t_pc u = Sleeping n h \<longleftrightarrow> thread_at S j = Some u \<and> t_pc u = Sleeping n h"
    and s: "store_of S' = promote_waiter n e (store_of S)"
  shows "sleepers_ok S'"
proof -
  obtain k u where u: "thread_at S k = Some u" "t_pc u = Sleeping n h" "t_id u = w"
    "cells (promote_waiter n e (store_of S)) = (cells (store_of S))[h := \<lparr> wake = W_Granted, asleep = [] \<rparr>]"
    "h < length (cells (store_of S))"
    by (rule handed_cells [OF ok e])
  have ent: "entry_at (store_of S') = (entry_at (store_of S))(n \<mapsto> \<lparr> t_holder = Some w, t_waiters = ws \<rparr>)"
    by (simp add: s promote_waiter_def e(2) set_wake_def update_conv')
  note cs = s u(4)
  show ?thesis
    unfolding sleepers_ok_def
  proof (intro allI impI conjI)
    fix j v m h' assume "thread_at S' j = Some v" "t_pc v = Sleeping m h'"
    then have v: "thread_at S j = Some v" "t_pc v = Sleeping m h'" using sl [THEN iffD1, OF conjI] by auto
    note d = sleepers_okD [OF threads_okD(3) [OF ok] v]
    show "h' < length (cells (store_of S'))" using d(1) by (simp add: cs)
    show "wake (cells (store_of S') ! h') \<noteq> W_Evicted" "asleep (cells (store_of S') ! h') \<in> {[], [j]}"
      using d(2,3) u(5) by (simp_all add: cs nth_list_update)
    show "asleep (cells (store_of S') ! h') = []" if "wake (cells (store_of S') ! h') = W_Granted"
      using d(4) u(5) that by (simp add: cs nth_list_update split: if_splits)
    show "\<exists>e. entry_at (store_of S') m = Some e \<and> (t_id v, h') \<in> set (t_waiters e)"
      if "wake (cells (store_of S') ! h') = W_Waiting"
    proof -
      have ne: "h' \<noteq> h" and "wake (cells (store_of S) ! h') = W_Waiting" using that u(5) by (auto simp: cs nth_list_update split: if_splits)
      with d(5) obtain e0 where e0: "entry_at (store_of S) m = Some e0" "(t_id v, h') \<in> set (t_waiters e0)" by blast
      then show ?thesis using e ne by (cases "m = n") (auto simp: ent)
    qed
    show "k' = j" if "thread_at S' k' = Some t'" "t_pc t' = Sleeping n' h'" for k' t' n'
      using d(6) sl [THEN iffD1, OF conjI [OF that]] by blast
  qed
qed

lemma hand_view:
  assumes t: "thread_at S k = Some t" and l: "live t" "live t'" and id: "t_id t' = t_id t"
    and e: "entry_at (store_of S) n = Some e" "t_holder e = Some (t_id t)" "t_waiters e = (w, h) # ws"
    and lw: "live_id S w" and wt: "w \<noteq> t_id t"
    and ent: "entry_at s = (entry_at (store_of S))(n \<mapsto> \<lparr> t_holder = Some w, t_waiters = ws \<rparr>)"
  shows "lock_step (thread_view S) (thread_view (put_thread k (t', s) S))"
proof -
  let ?S = "put_thread k (t', s) S" and ?V = "(fst (thread_view S))(t_id t \<mapsto> {m. holds (store_of S) (t_id t) m} - {n})"
  have hn: "holds s i m \<longleftrightarrow> m = n \<and> i = w \<or> m \<noteq> n \<and> holds (store_of S) i m" for i m by (auto simp: holds_def ent)
  have mine: "holds (store_of S) i n \<longleftrightarrow> i = t_id t" for i using e by (auto simp: holds_def)
  have lt: "live_id S (t_id t)" using t l(1) by (auto simp: live_id_def)
  have f: "fst (thread_view ?S) = ?V(w := map_option (insert n) (?V w))"
  proof
    show "fst (thread_view ?S) i = (?V(w := map_option (insert n) (?V w))) i" for i
      using lt lw wt by (cases "i = t_id t"; cases "i = w") (auto simp: thread_view_def put_live_id [OF t l id, of s] hn mine)
  qed
  have g: "snd (thread_view ?S) = (snd (thread_view S))(n \<mapsto> (Some w, map fst ws))"
    by (simp add: thread_view_def ent fun_eq_iff)
  have m: "snd (thread_view S) n = Some (Some (t_id t), map fst ((w, h) # ws))" using thread_view_entry [OF e(1)] e by simp
  show ?thesis
    by (rule release_view [OF thread_view_live [OF t l(1)] m]) (simp add: hand_over_def prod_eq_iff f g)
qed

lemma hand_owners:
  assumes ok: "threads_ok S" and t: "thread_at S k = Some t" and l: "live t" "live t'" and id: "t_id t' = t_id t"
    and mine: "\<And>i. holds (store_of S) i n \<longleftrightarrow> i = t_id t"
    and u0: "thread_at S j0 = Some u0" "live u0" "t_id u0 \<noteq> t_id t"
    and hn: "\<And>i m. holds s i m \<longleftrightarrow> m = n \<and> i = t_id u0 \<or> m \<noteq> n \<and> holds (store_of S) i m"
    and ow: "owns s u0 = insert n (owns (store_of S) u0)" "owns s t' = owns (store_of S) t - {n}"
    and oc: "\<And>j u. thread_at S j = Some u \<Longrightarrow> j \<noteq> j0 \<Longrightarrow> owns s u = owns (store_of S) u"
  shows "owners_ok (put_thread k (t', s) S)"
proof (rule owners_put [OF t l id])
  note o = owners_okD [OF threads_okD(4) [OF ok]] and same = same_id [OF threads_okD(1) [OF ok]]
  show "owns s t' = {m. holds s (t_id t) m}" using o(1) [OF t l(1)] ow(2) u0(3) by (auto simp: hn)
  show "owns s u = {m. holds s (t_id u) m}" if u: "thread_at S j = Some u" "live u" "j \<noteq> k" for j u
  proof (cases "j = j0")
    case True
    then have "u = u0" using u(1) u0(1) by simp
    then show ?thesis using o(1) [OF u0(1,2)] mine u0(3) by (auto simp: ow(1) hn)
  next
    case False
    have "t_id u \<noteq> t_id t" using same [OF u(1) t u(2) l(1)] u(3) by blast
    moreover have "t_id u \<noteq> t_id u0" using same [OF u(1) u0(1) u(2) u0(2)] False by blast
    ultimately show ?thesis using o(1) [OF u(1,2)] mine by (auto simp: oc [OF u(1) False] hn)
  qed
  show "live_id S i" if "holds s i m" for i m
    using that u0 by (cases "m = n") (auto simp: hn live_id_def [of S "t_id u0"] intro: o(2))
qed

lemma hand_thread:
  assumes ok: "threads_ok S" and t: "thread_at S k = Some t" and l: "live t" "live t'" and id: "t_id t' = t_id t"
    and awake: "\<And>n h. t_pc t \<noteq> Sleeping n h" "\<And>n h. t_pc t' \<noteq> Sleeping n h"
    and e: "entry_at (store_of S) n = Some e" "t_holder e = Some (t_id t)" "t_waiters e = (w, h) # ws"
    and own: "owns (store_of S) t' = owns (store_of S) t - {n}"
    and s: "s = promote_waiter n e (store_of S)"
  shows "threads_ok (put_thread k (t', s) S) \<and> lock_step (thread_view S) (thread_view (put_thread k (t', s) S))"
proof -
  let ?S = "put_thread k (t', s) S"
  obtain j0 u0 where u0: "thread_at S j0 = Some u0" "t_pc u0 = Sleeping n h" "t_id u0 = w"
    "cells (promote_waiter n e (store_of S)) = (cells (store_of S))[h := \<lparr> wake = W_Granted, asleep = [] \<rparr>]"
    "h < length (cells (store_of S))" "wake (cells (store_of S) ! h) = W_Waiting"
    by (rule handed_cells [OF ok e(1,3)])
  have l0: "live u0" using u0(2) by (simp add: live_def)
  have "u0 \<noteq> t" using u0(2) awake(1) by auto
  then have "j0 \<noteq> k" using u0(1) t by auto
  then have wt: "w \<noteq> t_id t" using same_id [OF threads_okD(1) [OF ok] u0(1) t l0 l(1)] u0(3) by blast
  have lw: "live_id S w" using u0 l0 by (auto simp: live_id_def)
  note sl = put_sleeping [OF t awake, of s]
  have ent: "entry_at s = (entry_at (store_of S))(n \<mapsto> \<lparr> t_holder = Some w, t_waiters = ws \<rparr>)"
    and nid: "t_next_id s = t_next_id (store_of S)"
    by (simp_all add: s promote_waiter_def e(3) set_wake_def update_conv')
  have cs: "cells s = (cells (store_of S))[h := \<lparr> wake = W_Granted, asleep = [] \<rparr>]" using u0(4) by (simp add: s)
  have hn: "holds s i m \<longleftrightarrow> m = n \<and> i = t_id u0 \<or> m \<noteq> n \<and> holds (store_of S) i m" for i m
    by (auto simp: holds_def ent u0(3))
  have mine: "holds (store_of S) i n \<longleftrightarrow> i = t_id t" for i using e by (auto simp: holds_def)
  have ow: "owns s u0 = insert n (owns (store_of S) u0)" using u0(2,5,6) by (simp add: owns_def cs)
  have oc: "owns s u = owns (store_of S) u" if u: "thread_at S j = Some u" "j \<noteq> j0" for j u
  proof (rule owns_cong)
    fix n' h' assume "t_pc u = Sleeping n' h'"
    with sleepers_okD(6) [OF threads_okD(3) [OF ok] u0(1,2) u(1)] u(2) have "h' \<noteq> h" by blast
    then show "wake (cells s ! h') = wake (cells (store_of S) ! h')" by (simp add: cs)
  qed
  have oc': "owns s t' = owns (store_of S) t - {n}"
    unfolding own [symmetric] by (rule owns_cong) (simp add: awake(2))
  have "ids_fresh ?S" by (rule put_ids_fresh [OF threads_okD(1) [OF ok] t l id nid])
  moreover have "queues_ok ?S" by (rule hand_queues [OF ok e(1,3) sl]) (simp add: s)
  moreover have "sleepers_ok ?S" by (rule hand_sleepers [OF ok e(1,3) sl]) (simp add: s)
  moreover have "owners_ok ?S"
    using ok t l id mine u0(1) l0 _ hn ow oc' oc by (rule hand_owners) (use wt u0(3) in simp)
  moreover have "lock_step (thread_view S) (thread_view ?S)" by (rule hand_view [OF t l id e lw wt ent])
  ultimately show ?thesis by (simp add: threads_ok_def)
qed

lemma promote_thread:
  assumes "threads_ok S" "thread_at S k = Some t" "live t" "live t'" "t_id t' = t_id t"
    and "\<And>n h. t_pc t \<noteq> Sleeping n h" "\<And>n h. t_pc t' \<noteq> Sleeping n h"
    and "entry_at (store_of S) n = Some e" "t_holder e = Some (t_id t)"
    and "owns (store_of S) t' = owns (store_of S) t - {n}" and "s = promote_waiter n e (store_of S)"
  shows "threads_ok (put_thread k (t', s) S) \<and> lock_step (thread_view S) (thread_view (put_thread k (t', s) S))"
proof (cases "t_waiters e")
  case Nil
  show ?thesis by (rule free_thread [OF assms(1-9) Nil assms(10,11)])
next
  case (Cons p ws)
  then have "t_waiters e = (fst p, snd p) # ws" by simp
  then show ?thesis by (rule hand_thread [OF assms(1-9) _ assms(10,11)])
qed

section \<open>Waiting\<close>

text \<open>A client joins the queue of a lock that somebody else holds, with a cell nobody else knows.\<close>

abbreviation enqueued :: "string \<Rightarrow> shared_entry \<Rightarrow> client_id \<Rightarrow> shared \<Rightarrow> shared" where
  "enqueued n e i s \<equiv>
     s\<lparr>t_locks := AList.update n (e\<lparr>t_waiters := t_waiters e @ [(i, length (cells s))]\<rparr>) (t_locks s),
       cells := cells s @ [\<lparr> wake = W_Waiting, asleep = [] \<rparr>]\<rparr>"

lemma wait_queues:
  assumes ok: "threads_ok S" and t: "thread_at S k = Some t" and l: "live t" and awake: "\<And>n h. t_pc t \<noteq> Sleeping n h"
    and plain: "owns (store_of S) t = set (t_held t)"
    and e: "entry_at (store_of S) n = Some e" "t_holder e = Some h0" "h0 \<noteq> t_id t" "t_id t \<notin> fst ` set (t_waiters e)"
    and t': "t' = t\<lparr>t_pc := Sleeping n (length (cells (store_of S)))\<rparr>"
    and s: "s = enqueued n e (t_id t) (store_of S)"
  shows "queues_ok (put_thread k (t', s) S)"
proof -
  let ?S = "put_thread k (t', s) S" and ?c = "length (cells (store_of S))"
  have at: "thread_at ?S j = (if j = k then Some t' else thread_at S j)" for j using thread_at_Some [OF t] by simp
  have id: "t_id t' = t_id t" by (simp add: t')
  have ent: "entry_at s = (entry_at (store_of S))(n \<mapsto> e\<lparr>t_waiters := t_waiters e @ [(t_id t, ?c)]\<rparr>)"
    and cs: "cells s = cells (store_of S) @ [\<lparr> wake = W_Waiting, asleep = [] \<rparr>]" by (simp_all add: s update_conv')
  note lt = sleepers_okD(1) [OF threads_okD(3) [OF ok]]
  have cell: "cells s ! h = cells (store_of S) ! h" if "h < ?c" for h using that by (simp add: cs nth_append)
  have other: "j \<noteq> k" if "thread_at S j = Some u" "t_pc u = Sleeping m h" for j u m h using that t awake [of m h] by auto
  note q = queues_okD [OF threads_okD(2) [OF ok]]
  show ?thesis
    unfolding queues_ok_def put_thread_store snd_conv
  proof (intro allI impI conjI)
    fix m e' assume e': "entry_at s m = Some e'"
    show "distinct (map fst (t_waiters e'))" using e' q(1) q(1) [OF e(1)] e(4) by (auto simp: ent split: if_splits)
    show "t_waiters e' = []" if "t_holder e' = None" using e' q(2) that e(2) by (auto simp: ent split: if_splits)
    fix w h assume i: "(w, h) \<in> set (t_waiters e')"
    have new: "m = n \<and> w = t_id t \<and> h = ?c \<or> (\<exists>e0. entry_at (store_of S) m = Some e0 \<and> (w, h) \<in> set (t_waiters e0))"
      using i e' e(1) by (auto simp: ent split: if_splits)
    then show "wake (cells s ! h) = W_Waiting"
    proof (elim disjE exE conjE)
      fix e0 assume e0: "entry_at (store_of S) m = Some e0" "(w, h) \<in> set (t_waiters e0)"
      from q(4) [OF this] obtain j u where "thread_at S j = Some u" "t_pc u = Sleeping m h" by (elim exE conjE) (rule that)
      from cell [OF lt [OF this]] q(3) [OF e0] show ?thesis by simp
    qed (simp add: cs)
    from new show "\<exists>k t. thread_at ?S k = Some t \<and> t_pc t = Sleeping m h \<and> t_id t = w"
    proof (elim disjE exE conjE)
      fix e0 assume "entry_at (store_of S) m = Some e0" "(w, h) \<in> set (t_waiters e0)"
      from q(4) [OF this] obtain j u where u: "thread_at S j = Some u" "t_pc u = Sleeping m h" "t_id u = w" by (elim exE conjE) (rule that)
      then have "thread_at ?S j = Some u" using other [OF u(1,2)] unfolding at by simp
      with u show ?thesis by blast
    next
      assume "m = n" "w = t_id t" "h = ?c"
      then show ?thesis unfolding at by (intro exI [of _ k] exI [of _ t']) (simp add: t')
    qed
  qed
qed

lemma wait_sleepers:
  assumes ok: "threads_ok S" and t: "thread_at S k = Some t" and l: "live t" and awake: "\<And>n h. t_pc t \<noteq> Sleeping n h"
    and plain: "owns (store_of S) t = set (t_held t)"
    and e: "entry_at (store_of S) n = Some e" "t_holder e = Some h0" "h0 \<noteq> t_id t" "t_id t \<notin> fst ` set (t_waiters e)"
    and t': "t' = t\<lparr>t_pc := Sleeping n (length (cells (store_of S)))\<rparr>"
    and s: "s = enqueued n e (t_id t) (store_of S)"
  shows "sleepers_ok (put_thread k (t', s) S)"
proof -
  let ?S = "put_thread k (t', s) S" and ?c = "length (cells (store_of S))"
  have at: "thread_at ?S j = (if j = k then Some t' else thread_at S j)" for j using thread_at_Some [OF t] by simp
  have id: "t_id t' = t_id t" by (simp add: t')
  have ent: "entry_at s = (entry_at (store_of S))(n \<mapsto> e\<lparr>t_waiters := t_waiters e @ [(t_id t, ?c)]\<rparr>)"
    and cs: "cells s = cells (store_of S) @ [\<lparr> wake = W_Waiting, asleep = [] \<rparr>]" by (simp_all add: s update_conv')
  note lt = sleepers_okD(1) [OF threads_okD(3) [OF ok]]
  have cell: "cells s ! h = cells (store_of S) ! h" if "h < ?c" for h using that by (simp add: cs nth_append)
  show ?thesis
    unfolding sleepers_ok_def put_thread_store snd_conv
  proof (intro allI impI conjI)
    fix j u m h assume u: "thread_at ?S j = Some u" "t_pc u = Sleeping m h"
    have new: "j = k \<and> u = t' \<and> m = n \<and> h = ?c \<or> j \<noteq> k \<and> thread_at S j = Some u \<and> h < ?c"
      using u lt [of j u m h] unfolding at by (auto simp: t' split: if_splits)
    show "h < length (cells s)" using new by (auto simp: cs)
    show "wake (cells s ! h) \<noteq> W_Evicted" "asleep (cells s ! h) \<in> {[], [j]}"
      using new sleepers_okD(2,3) [OF threads_okD(3) [OF ok] _ u(2)] by (auto simp: cs nth_append)
    show "asleep (cells s ! h) = []" if "wake (cells s ! h) = W_Granted"
      using new that sleepers_okD(4) [OF threads_okD(3) [OF ok] _ u(2)] by (auto simp: cs nth_append)
    show "\<exists>e. entry_at s m = Some e \<and> (t_id u, h) \<in> set (t_waiters e)" if "wake (cells s ! h) = W_Waiting"
      using new that
    proof (elim disjE conjE)
      assume j: "thread_at S j = Some u" "h < ?c"
      with sleepers_okD(5) [OF threads_okD(3) [OF ok] j(1) u(2)] that cell
      obtain e0 where "entry_at (store_of S) m = Some e0" "(t_id u, h) \<in> set (t_waiters e0)" by auto
      with e(1) show ?thesis by (cases "m = n") (auto simp: ent)
    qed (simp add: ent id)
    show "k' = j" if u': "thread_at ?S k' = Some u'" "t_pc u' = Sleeping m' h" for k' u' m'
    proof -
      have "k' = k \<and> h = ?c \<or> k' \<noteq> k \<and> thread_at S k' = Some u' \<and> h < ?c"
        using u' lt [of k' u' m' h] unfolding at by (auto simp: t' split: if_splits)
      with new sleepers_okD(6) [OF threads_okD(3) [OF ok] _ u(2) _ u'(2)] show ?thesis by auto
    qed
  qed
qed

lemma wait_thread:
  assumes ok: "threads_ok S" and t: "thread_at S k = Some t" and l: "live t" and awake: "\<And>n h. t_pc t \<noteq> Sleeping n h"
    and plain: "owns (store_of S) t = set (t_held t)"
    and e: "entry_at (store_of S) n = Some e" "t_holder e = Some h0" "h0 \<noteq> t_id t" "t_id t \<notin> fst ` set (t_waiters e)"
    and t': "t' = t\<lparr>t_pc := Sleeping n (length (cells (store_of S)))\<rparr>"
    and s: "s = enqueued n e (t_id t) (store_of S)"
  shows "threads_ok (put_thread k (t', s) S) \<and> lock_step (thread_view S) (thread_view (put_thread k (t', s) S))"
proof -
  let ?S = "put_thread k (t', s) S" and ?c = "length (cells (store_of S))"
  have l': "live t'" and id: "t_id t' = t_id t" by (simp_all add: t' live_def)
  note lv = put_live_id [OF t l l' id, of s]
  have ent: "entry_at s = (entry_at (store_of S))(n \<mapsto> e\<lparr>t_waiters := t_waiters e @ [(t_id t, ?c)]\<rparr>)"
    and cs: "cells s = cells (store_of S) @ [\<lparr> wake = W_Waiting, asleep = [] \<rparr>]" and nid: "t_next_id s = t_next_id (store_of S)"
    by (simp_all add: s update_conv')
  have hn: "holds s i m \<longleftrightarrow> holds (store_of S) i m" for i m using e(1) by (auto simp: holds_def ent)
  have lt: "h < ?c" if "thread_at S j = Some u" "t_pc u = Sleeping m h" for j u m h
    by (rule sleepers_okD(1) [OF threads_okD(3) [OF ok] that])
  have cell: "cells s ! h = cells (store_of S) ! h" if "h < ?c" for h using that by (simp add: cs nth_append)
  have oc: "owns s u = owns (store_of S) u" if "thread_at S j = Some u" for j u
    by (rule owns_cong) (use lt [OF that] cell in auto)
  have "ids_fresh ?S" by (rule put_ids_fresh [OF threads_okD(1) [OF ok] t l l' id nid])
  moreover have "queues_ok ?S" by (rule wait_queues [OF assms])
  moreover have "sleepers_ok ?S" by (rule wait_sleepers [OF assms])
  moreover have "owners_ok ?S"
  proof (rule owners_put [OF t l l' id])
    show "owns s t' = {m. holds s (t_id t) m}"
      using owners_okD(1) [OF threads_okD(4) [OF ok] t l] plain by (simp add: hn owns_def t' cs)
    show "owns s u = {m. holds s (t_id u) m}" if "thread_at S j = Some u" "live u" "j \<noteq> k" for j u
      using owners_okD(1) [OF threads_okD(4) [OF ok] that(1,2)] by (simp add: hn oc [OF that(1)])
    show "live_id S i" if "holds s i m" for i m using that owners_okD(2) [OF threads_okD(4) [OF ok]] by (simp add: hn)
  qed
  moreover have "lock_step (thread_view S) (thread_view ?S)"
  proof -
    have f: "fst (thread_view ?S) = fst (thread_view S)" by (rule ext) (auto simp: thread_view_def lv hn)
    have g: "snd (thread_view ?S) = (snd (thread_view S))(n \<mapsto> (Some h0, map fst (t_waiters e) @ [t_id t]))"
      using e(2) by (simp add: thread_view_def ent fun_eq_iff)
    have m: "snd (thread_view S) n = Some (Some h0, map fst (t_waiters e))" using thread_view_entry [OF e(1)] e(2) by simp
    have "lock_step (fst (thread_view S), snd (thread_view S)) (fst (thread_view ?S), snd (thread_view ?S))"
      unfolding f g by (rule lock_step.wait [of _ "t_id t" "{m. holds (store_of S) (t_id t) m}"])
        (use thread_view_live [OF t l] m e(3,4) in auto)
    then show ?thesis by simp
  qed
  ultimately show ?thesis by (simp add: threads_ok_def)
qed

text \<open>Going to sleep on a cell and waking up from it change nothing else.\<close>

lemma doze_thread:
  assumes ok: "threads_ok S" and t: "thread_at S k = Some t" "t_pc t = Sleeping n h"
    and x: "x \<in> {[], [k]}" "wake (cells (store_of S) ! h) = W_Granted \<Longrightarrow> x = []"
    and s: "s = (store_of S)\<lparr>cells := (cells (store_of S))[h := (cells (store_of S) ! h)\<lparr>asleep := x\<rparr>]\<rparr>"
  shows "threads_ok (put_thread k (t, s) S) \<and> thread_view (put_thread k (t, s) S) = thread_view S"
proof -
  let ?S = "put_thread k (t, s) S"
  have at: "thread_at ?S j = thread_at S j" for j using t(1) thread_at_Some [OF t(1)] by simp
  have lv: "live_id ?S = live_id S" by (simp add: live_id_def at fun_eq_iff del: thread_at_put)
  have hl: "h < length (cells (store_of S))" by (rule sleepers_okD(1) [OF threads_okD(3) [OF ok] t])
  have wk: "wake (cells s ! j) = wake (cells (store_of S) ! j)" for j using hl by (cases "j = h") (simp_all add: s)
  have as: "asleep (cells s ! j) = (if j = h then x else asleep (cells (store_of S) ! j))" for j using hl by (simp add: s)
  have ln: "length (cells s) = length (cells (store_of S))" and en: "entry_at s = entry_at (store_of S)"
    and nid: "t_next_id s = t_next_id (store_of S)" by (simp_all add: s)
  have hn: "holds s = holds (store_of S)" by (simp add: holds_def en fun_eq_iff)
  have oc: "owns s u = owns (store_of S) u" for u by (rule owns_cong) (rule wk)
  have "ids_fresh ?S" using threads_okD(1) [OF ok] by (simp add: ids_fresh_def at nid del: thread_at_put)
  moreover have "queues_ok ?S"
    using threads_okD(2) [OF ok] by (simp add: queues_ok_def at en wk del: thread_at_put)
  moreover have "sleepers_ok ?S"
    unfolding sleepers_ok_def put_thread_store snd_conv at en wk as ln
  proof (intro allI impI conjI)
    fix j u m h' assume u: "thread_at S j = Some u" "t_pc u = Sleeping m h'"
    note d = sleepers_okD [OF threads_okD(3) [OF ok] u]
    show "h' < length (cells (store_of S))" "wake (cells (store_of S) ! h') \<noteq> W_Evicted" by (rule d(1), rule d(2))
    have "j = k" if "h' = h" using sleepers_okD(6) [OF threads_okD(3) [OF ok] t u(1)] u(2) that by simp
    then show "(if h' = h then x else asleep (cells (store_of S) ! h')) \<in> {[], [j]}" using d(3) x(1) by auto
    show "(if h' = h then x else asleep (cells (store_of S) ! h')) = []" if "wake (cells (store_of S) ! h') = W_Granted"
      using d(4) x(2) that by auto
    show "\<exists>e. entry_at (store_of S) m = Some e \<and> (t_id u, h') \<in> set (t_waiters e)"
      if "wake (cells (store_of S) ! h') = W_Waiting" by (rule d(5) [OF that])
    show "k' = j" if "thread_at S k' = Some t'" "t_pc t' = Sleeping n' h'" for k' t' n' by (rule d(6) [OF that])
  qed
  moreover have "owners_ok ?S"
    using threads_okD(4) [OF ok] by (simp add: owners_ok_def at lv hn oc del: thread_at_put)
  moreover have "thread_view ?S = thread_view S" unfolding thread_view_def lv put_thread_store snd_conv hn en ..
  ultimately show ?thesis by (simp add: threads_ok_def)
qed

text \<open>A thread whose cell says granted takes the name into its list.\<close>

lemma wake_thread:
  assumes ok: "threads_ok S" and t: "thread_at S k = Some t" "t_pc t = Sleeping n h"
    and g: "wake (cells (store_of S) ! h) = W_Granted"
    and t': "t' = t\<lparr>t_held := List.insert n (t_held t), t_pc := Replying rs\<rparr>"
  shows "threads_ok (put_thread k (t', store_of S) S) \<and> thread_view (put_thread k (t', store_of S) S) = thread_view S"
proof -
  let ?S = "put_thread k (t', store_of S) S"
  have at: "thread_at ?S j = (if j = k then Some t' else thread_at S j)" for j using thread_at_Some [OF t(1)] by simp
  have l: "live t" "live t'" and id: "t_id t' = t_id t" using t(2) by (simp_all add: t' live_def)
  note lv = put_live_id [OF t(1) l id, of "store_of S"] and o = owners_okD [OF threads_okD(4) [OF ok]]
  have sl: "j \<noteq> k \<and> thread_at S j = Some u" if "thread_at ?S j = Some u" "t_pc u = Sleeping m h'" for j u m h'
    using that unfolding at by (auto simp: t' split: if_splits)
  have "ids_fresh ?S" by (rule put_ids_fresh [OF threads_okD(1) [OF ok] t(1) l id refl])
  moreover have "queues_ok ?S"
    unfolding queues_ok_def put_thread_store snd_conv
  proof (intro allI impI conjI)
    fix m e assume e: "entry_at (store_of S) m = Some e"
    note q = queues_okD [OF threads_okD(2) [OF ok] e]
    show "distinct (map fst (t_waiters e))" "t_holder e = None \<Longrightarrow> t_waiters e = []" using q(1,2) by simp_all
    fix w h' assume i: "(w, h') \<in> set (t_waiters e)"
    show "wake (cells (store_of S) ! h') = W_Waiting" by (rule q(3) [OF i])
    from q(4) [OF i] obtain j u where u: "thread_at S j = Some u" "t_pc u = Sleeping m h'" "t_id u = w" by (elim exE conjE) (rule that)
    have "j \<noteq> k" using u(1,2) t q(3) [OF i] g by auto
    then have "thread_at ?S j = Some u" using u(1) unfolding at by simp
    with u show "\<exists>k t. thread_at ?S k = Some t \<and> t_pc t = Sleeping m h' \<and> t_id t = w" by blast
  qed
  moreover have "sleepers_ok ?S"
    unfolding sleepers_ok_def put_thread_store snd_conv
  proof (intro allI impI, goal_cases)
    case (1 j u m h')
    note d = sleepers_okD [OF threads_okD(3) [OF ok] conjunct2 [OF sl [OF 1]] 1(2)]
    show ?case using d(1-5) d(6) [OF conjunct2 [OF sl]] by (intro conjI allI impI) auto
  qed
  moreover have "owners_ok ?S"
    by (rule owners_put [OF t(1) l id]) (use o o(1) [OF t(1) l(1)] t g in \<open>auto simp: owns_def t'\<close>)
  moreover have "thread_view ?S = thread_view S" unfolding thread_view_def lv put_thread_store snd_conv ..
  ultimately show ?thesis by (simp add: threads_ok_def)
qed

section \<open>Coming and going\<close>

lemma started_id_new:
  assumes "ids_fresh S" "thread_at S j = Some u" "live u"
  shows "t_id u \<noteq> t_next_id (store_of S)"
proof
  assume eq: "t_id u = t_next_id (store_of S)"
  have "t_pc u \<noteq> Starting" using assms(3) by (simp add: live_def)
  with assms(1,2) obtain m where m: "m \<le> started S" "t_id u = of_nat m" unfolding ids_fresh_def by blast
  have "started S < 2 ^ 64 - 1" "t_next_id (store_of S) = of_nat (started S + 1)" using assms(1) by (simp_all add: ids_fresh_def)
  with m eq have "unat (of_nat m :: client_id) = unat (of_nat (started S + 1) :: client_id)" "m < 2 ^ 64" "started S + 1 < 2 ^ 64" by simp_all
  then have "m = started S + 1"
    using unat_of_nat_small [where 'a = 64, of m] unat_of_nat_small [where 'a = 64, of "started S + 1"] by (simp del: of_nat_add of_nat_Suc)
  with m(1) show False by simp
qed

lemma start_live:
  assumes at: "\<And>j. thread_at S' j = (if j = k then Some t' else thread_at S j)" and t: "thread_at S k = Some t"
    and l: "\<not> live t" "live t'"
  shows "live_id S' j \<longleftrightarrow> j = t_id t' \<or> live_id S j"
proof
  show "live_id S' j \<Longrightarrow> j = t_id t' \<or> live_id S j" unfolding live_id_def at by (auto split: if_splits)
  assume "j = t_id t' \<or> live_id S j"
  then show "live_id S' j"
  proof
    assume "j = t_id t'"
    then show ?thesis unfolding live_id_def at using l(2) by (intro exI [of _ k] exI [of _ t']) simp
  next
    assume "live_id S j"
    then obtain j' u where u: "thread_at S j' = Some u" "live u" "t_id u = j" by (auto simp: live_id_def)
    then have "j' \<noteq> k" using t l(1) by auto
    with u show ?thesis unfolding live_id_def at by (intro exI [of _ j'] exI [of _ u]) simp
  qed
qed

lemma start_ids_fresh:
  assumes fr: "ids_fresh S" and at: "\<And>j. thread_at S' j = (if j = k then Some t' else thread_at S j)"
    and lim: "started S < 2 ^ 64 - 2" and i: "t_id t' = t_next_id (store_of S)"
    and st: "t_next_id (store_of S') = t_id t' + 1" "started S' = started S + 1"
  shows "ids_fresh S'"
  unfolding ids_fresh_def st
proof (intro conjI allI impI)
  show "started S + 1 < 2 ^ 64 - 1" using lim by simp
  show "t_id t' + 1 = of_nat (started S + 1 + 1)" using fr by (simp add: i ids_fresh_def)
  show "\<exists>m. m \<le> started S + 1 \<and> t_id u = of_nat m" if "thread_at S' j = Some u" "t_pc u \<noteq> Starting" for j u
  proof (cases "j = k")
    case True
    then show ?thesis using that fr i unfolding at by (intro exI [of _ "started S + 1"]) (auto simp: ids_fresh_def)
  next
    case False
    with that have "thread_at S j = Some u" "t_pc u \<noteq> Starting" unfolding at by simp_all
    then obtain m where "m \<le> started S" "t_id u = of_nat m" using fr unfolding ids_fresh_def by blast
    then show ?thesis by (intro exI [of _ m]) simp
  qed
  have new: "t_id u \<noteq> t_id t'" if "thread_at S j = Some u" "live u" for j u using started_id_new [OF fr that] i by simp
  show "j1 = j2" if "thread_at S' j1 = Some u1" "thread_at S' j2 = Some u2" "live u1" "live u2" "t_id u1 = t_id u2" for j1 u1 j2 u2
    using that new [of j1 u1] new [of j2 u2] same_id [OF fr, of j1 u1 j2 u2] unfolding at by (auto split: if_splits)
qed

lemma start_thread:
  assumes ok: "threads_ok S" and t: "thread_at S k = Some t" "t_pc t = Starting" and lim: "started S < 2 ^ 64 - 2"
    and i: "alloc_id (store_of S) = (i, s)"
    and S': "S' = (put_thread k (t\<lparr>t_id := i, t_held := [], t_pc := Reading\<rparr>, s) S)\<lparr>started := started S + 1\<rparr>"
  shows "threads_ok S' \<and> lock_step (thread_view S) (thread_view S')"
proof -
  let ?t = "t\<lparr>t_id := i, t_held := [], t_pc := Reading\<rparr>"
  have st: "store_of S' = s" "started S' = started S + 1" by (simp_all add: S')
  have at: "thread_at S' j = (if j = k then Some ?t else thread_at S j)" for j
    using thread_at_Some [OF t(1)] by (simp add: S' thread_at_def put_thread_def)
  have s: "s = (store_of S)\<lparr>t_next_id := i + 1\<rparr>" and iv: "i = t_next_id (store_of S)" using i by (auto simp: alloc_id_def)
  note fr = threads_okD(1) [OF ok] and o = owners_okD [OF threads_okD(4) [OF ok]]
  have lnew: "\<not> live_id S i" using started_id_new [OF fr] iv by (auto simp: live_id_def)
  have lv: "live_id S' j \<longleftrightarrow> j = i \<or> live_id S j" for j
    using start_live [OF at t(1)] t(2) by (simp add: live_def)
  have sl: "thread_at S' j = Some u \<and> t_pc u = Sleeping n h \<longleftrightarrow> thread_at S j = Some u \<and> t_pc u = Sleeping n h" for j u n h
    using t unfolding at by auto
  have hn: "holds s = holds (store_of S)" and es: "entry_at s = entry_at (store_of S)" by (simp_all add: holds_def s fun_eq_iff)
  have ni: "\<not> holds (store_of S) i m" for m using o(2) lnew by blast
  have oc: "owns s u = owns (store_of S) u" for u by (rule owns_cong) (simp add: s)
  have "ids_fresh S'" by (rule start_ids_fresh [OF fr at lim]) (simp_all add: st s iv)
  moreover have "queues_ok S'"
    by (rule queues_cong [OF threads_okD(2) [OF ok] sl]) (auto simp: st s)
  moreover have "sleepers_ok S'"
    by (rule sleepers_cong [OF threads_okD(3) [OF ok] sl]) (auto simp: st s)
  moreover have "owners_ok S'"
    unfolding owners_ok_def st hn
  proof (intro conjI allI impI)
    show "owns s u = {m. holds (store_of S) (t_id u) m}" if "thread_at S' j = Some u" "live u" for j u
      using that o(1) ni oc unfolding at by (cases "j = k") (auto simp: owns_def)
    show "live_id S' j" if "holds (store_of S) j m" for j m unfolding lv using o(2) [OF that] by simp
  qed
  moreover have "lock_step (thread_view S) (thread_view S')"
  proof -
    have "thread_view S' = ((fst (thread_view S))(i \<mapsto> {}), snd (thread_view S))"
      using ni by (auto simp: thread_view_def st hn lv es fun_eq_iff)
    moreover have "fst (thread_view S) i = None" using lnew by (simp add: thread_view_def)
    ultimately show ?thesis using join [of "fst (thread_view S)" i "snd (thread_view S)"] by simp
  qed
  ultimately show ?thesis by (simp add: threads_ok_def)
qed

lemma accept_thread:
  assumes ok: "threads_ok S" and S': "S' = S\<lparr>threads := threads S @ [thread_new]\<rparr>"
  shows "threads_ok S' \<and> thread_view S' = thread_view S"
proof -
  have at: "thread_at S' j = (if j = length (threads S) then Some thread_new else thread_at S j)" for j
    by (auto simp: S' thread_at_def nth_append)
  have out: "thread_at S (length (threads S)) = None" by (simp add: thread_at_def)
  have st: "store_of S' = store_of S" "started S' = started S" by (simp_all add: S')
  have new: "\<not> live thread_new" "t_pc thread_new = Starting" by (simp_all add: thread_new_def live_def)
  have sl: "thread_at S' j = Some u \<and> t_pc u = Sleeping n h \<longleftrightarrow> thread_at S j = Some u \<and> t_pc u = Sleeping n h" for j u n h
    using out new unfolding at by auto
  have act: "thread_at S' j = Some u \<and> t_pc u \<noteq> Starting \<longleftrightarrow> thread_at S j = Some u \<and> t_pc u \<noteq> Starting" for j u
    using out new unfolding at by auto
  have lu: "thread_at S' j = Some u \<and> live u \<longleftrightarrow> thread_at S j = Some u \<and> live u" for j u
    using act [of j u] by (auto simp: live_def)
  have lv: "live_id S' = live_id S" unfolding live_id_def using lu by (intro ext) metis
  have "ids_fresh S'"
    using threads_okD(1) [OF ok] act lu unfolding ids_fresh_def st by metis
  moreover have "queues_ok S'" by (rule queues_cong [OF threads_okD(2) [OF ok] sl]) (auto simp: st)
  moreover have "sleepers_ok S'" by (rule sleepers_cong [OF threads_okD(3) [OF ok] sl]) (auto simp: st)
  moreover have "owners_ok S'" using threads_okD(4) [OF ok] lu unfolding owners_ok_def st lv by metis
  moreover have "thread_view S' = thread_view S" unfolding thread_view_def lv st ..
  ultimately show ?thesis by (simp add: threads_ok_def)
qed

text \<open>A thread at the cleanup is in no queue, so it evicts nobody.\<close>

lemma awake_not_queued:
  assumes ok: "threads_ok S" and t: "thread_at S k = Some t" "live t" and awake: "\<And>n h. t_pc t \<noteq> Sleeping n h"
    and e: "entry_at (store_of S) n = Some e"
  shows "t_id t \<notin> fst ` set (t_waiters e)"
proof
  assume "t_id t \<in> fst ` set (t_waiters e)"
  then obtain h where h: "(t_id t, h) \<in> set (t_waiters e)" by auto
  from queues_okD(4) [OF threads_okD(2) [OF ok] e h] obtain j u
    where u: "thread_at S j = Some u" "t_pc u = Sleeping n h" "t_id u = t_id t" by (elim exE conjE) (rule that)
  have "j = k" by (rule same_id [OF threads_okD(1) [OF ok] u(1) t(1) _ t(2) u(3)]) (simp add: live_def u(2))
  with u t(1) awake show False by auto
qed

lemma cleanup_evicts_nobody:
  assumes "threads_ok S" "thread_at S k = Some t" "t_pc t = Cleaning"
  shows "fold (evict_step (t_id t)) ns (store_of S) = store_of S"
proof (induction ns)
  case (Cons n ns)
  have l: "live t" using assms(3) by (simp add: live_def)
  have "evict_step (t_id t) n (store_of S) = store_of S"
  proof (cases "entry_at (store_of S) n")
    case (Some e)
    have "t_id t \<notin> fst ` set (t_waiters e)"
      by (rule awake_not_queued [OF assms(1,2) l _ Some]) (simp add: assms(3))
    then have "position (\<lambda>(i, _). i = t_id t) (t_waiters e) = None"
      by (force simp: position_None)
    then show ?thesis by (simp add: evict_step_def evict_waiter_def Some)
  qed (simp add: evict_step_def)
  with Cons show ?case by simp
qed simp

text \<open>It passes on what it holds, name by name.\<close>

lemma put_put [simp]: "put_thread k ts (put_thread k ts' S) = put_thread k ts S"
  by (simp add: put_thread_def)

lemma cleanup_releases:
  assumes "threads_ok S" "thread_at S k = Some t" "t_pc t = Cleaning"
    and "T = put_thread k (t\<lparr>t_held := filter (\<lambda>n. n \<notin> set ns) (t_held t)\<rparr>, fold (release_step (t_id t)) ns (store_of S)) S"
  shows "threads_ok T \<and> lock_step\<^sup>*\<^sup>* (thread_view S) (thread_view T)"
  using assms
proof (induction ns arbitrary: S t)
  case Nil
  then have "put_thread k (t, store_of S) S = S" by (auto simp: put_thread_def thread_at_def split: if_splits)
  then show ?case using Nil by simp
next
  case (Cons n ns)
  let ?t = "t\<lparr>t_held := filter (\<lambda>m. m \<noteq> n) (t_held t)\<rparr>"
  let ?s = "release_step (t_id t) n (store_of S)"
  let ?S = "put_thread k (?t, ?s) S"
  have l: "live t" "live ?t" using Cons.prems(3) by (simp_all add: live_def)
  have awake: "t_pc t \<noteq> Sleeping m h" "t_pc ?t \<noteq> Sleeping m h" for m h using Cons.prems(3) by simp_all
  have own: "owns s ?t = owns s t - {n}" for s using Cons.prems(3) by (auto simp: owns_def)
  have step: "threads_ok ?S \<and> lock_step\<^sup>*\<^sup>* (thread_view S) (thread_view ?S)"
  proof (cases "holds (store_of S) (t_id t) n")
    case True
    then obtain e where e: "entry_at (store_of S) n = Some e" "t_holder e = Some (t_id t)" by (auto simp: holds_def)
    have "?s = promote_waiter n e (store_of S)" using e by (simp add: release_step_def)
    from promote_thread [OF Cons.prems(1,2) l _ awake e own this] show ?thesis by auto
  next
    case False
    have s: "?s = store_of S" using False by (auto simp: release_step_def holds_def split: option.split)
    have "n \<notin> owns (store_of S) t" using owners_okD(1) [OF threads_okD(4) [OF Cons.prems(1)] Cons.prems(2) l(1)] False by simp
    then have "n \<notin> set (t_held t)" using Cons.prems(3) by (simp add: owns_def)
    then have "filter (\<lambda>m. m \<noteq> n) (t_held t) = t_held t" by (auto simp: filter_id_conv)
    then have "?t = t" by simp
    then have "?S = S" using Cons.prems(2) s by (auto simp: put_thread_def thread_at_def split: if_splits)
    then show ?thesis using Cons.prems(1) by simp
  qed
  have at: "thread_at ?S k = Some ?t" using thread_at_Some [OF Cons.prems(2)] by simp
  have "T = put_thread k (?t\<lparr>t_held := filter (\<lambda>m. m \<notin> set ns) (t_held ?t)\<rparr>, fold (release_step (t_id ?t)) ns (store_of ?S)) ?S"
    by (simp add: Cons.prems(4) conj_commute)
  from Cons.IH [OF conjunct1 [OF step] at _ this] Cons.prems(3)
  have "threads_ok T" "lock_step\<^sup>*\<^sup>* (thread_view ?S) (thread_view T)" by simp_all
  then show ?case using step by (simp add: rtranclp_trans [of _ "thread_view S" "thread_view ?S"])
qed

text \<open>Then it holds nothing, and leaves.\<close>

lemma leave_live:
  assumes fr: "ids_fresh S" and at: "\<And>j. thread_at S' j = (if j = k then Some t' else thread_at S j)"
    and t: "thread_at S k = Some t" and l: "live t" "\<not> live t'"
  shows "thread_at S' j = Some v \<and> live v \<longleftrightarrow> thread_at S j = Some v \<and> live v \<and> j \<noteq> k"
    and "live_id S' i \<longleftrightarrow> live_id S i \<and> i \<noteq> t_id t"
proof -
  have lu: "thread_at S' j = Some v \<and> live v \<longleftrightarrow> thread_at S j = Some v \<and> live v \<and> j \<noteq> k" for j v
    using l t unfolding at by auto
  then show "thread_at S' j = Some v \<and> live v \<longleftrightarrow> thread_at S j = Some v \<and> live v \<and> j \<noteq> k" .
  show "live_id S' i \<longleftrightarrow> live_id S i \<and> i \<noteq> t_id t"
  proof
    assume "live_id S' i"
    then obtain j v where v: "thread_at S j = Some v" "live v" "j \<noteq> k" "t_id v = i" using lu unfolding live_id_def by metis
    with same_id [OF fr v(1) t v(2) l(1)] show "live_id S i \<and> i \<noteq> t_id t" by (auto simp: live_id_def)
  next
    assume i: "live_id S i \<and> i \<noteq> t_id t"
    then obtain j v where v: "thread_at S j = Some v" "live v" "t_id v = i" by (auto simp: live_id_def)
    then have "j \<noteq> k" using i t by auto
    with v lu show "live_id S' i" unfolding live_id_def by metis
  qed
qed

lemma leave_ids_fresh:
  assumes fr: "ids_fresh S" and at: "\<And>j. thread_at S' j = (if j = k then Some t' else thread_at S j)"
    and t: "thread_at S k = Some t" "t_pc t \<noteq> Starting" and l: "live t" "\<not> live t'" and id: "t_id t' = t_id t"
    and st: "store_of S' = store_of S" "started S' = started S"
  shows "ids_fresh S'"
proof -
  note lu = leave_live(1) [OF fr at t(1) l]
  have "\<exists>m. m \<le> started S \<and> t_id v = of_nat m" if "thread_at S' j = Some v" "t_pc v \<noteq> Starting" for j v
  proof -
    have "\<exists>m. m \<le> started S \<and> t_id t = of_nat m" using fr t unfolding ids_fresh_def by auto
    then show ?thesis using that fr id unfolding at ids_fresh_def by (cases "j = k") auto
  qed
  moreover have "j = j'" if "thread_at S' j = Some v" "thread_at S' j' = Some v'" "live v" "live v'" "t_id v = t_id v'" for j v j' v'
    using that lu same_id [OF fr, of j v j' v'] by metis
  ultimately show ?thesis using fr unfolding ids_fresh_def st by metis
qed

lemma leave_thread:
  assumes ok: "threads_ok S" and t: "thread_at S k = Some t" "t_pc t = Cleaning" "t_held t = []"
    and t': "t' = u\<lparr>t_pc := Gone\<rparr>" "t_id u = t_id t"
  shows "threads_ok (put_thread k (t', store_of S) S) \<and>
    lock_step (thread_view S) (thread_view (put_thread k (t', store_of S) S))"
proof -
  let ?S = "put_thread k (t', store_of S) S"
  have l: "live t" "\<not> live t'" using t(2) by (simp_all add: live_def t')
  have awake: "t_pc t \<noteq> Sleeping n h" "t_pc t' \<noteq> Sleeping n h" for n h using t(2) by (simp_all add: t')
  have at: "thread_at ?S j = (if j = k then Some t' else thread_at S j)" for j using thread_at_Some [OF t(1)] by simp
  note sl = put_sleeping [OF t(1) awake, of "store_of S"] and fr = threads_okD(1) [OF ok]
  note o = owners_okD [OF threads_okD(4) [OF ok]]
  note lu = leave_live(1) [OF fr at t(1) l] and lv = leave_live(2) [OF fr at t(1) l]
  have none: "\<not> holds (store_of S) (t_id t) n" for n using o(1) [OF t(1) l(1)] t(2,3) by (simp add: owns_def)
  have "ids_fresh ?S"
    by (rule leave_ids_fresh [OF fr at t(1) _ l]) (use t(2) t' in simp_all)
  moreover have "queues_ok ?S" by (rule queues_cong [OF threads_okD(2) [OF ok] sl]) auto
  moreover have "sleepers_ok ?S" by (rule sleepers_cong [OF threads_okD(3) [OF ok] sl]) auto
  moreover have "owners_ok ?S"
    unfolding owners_ok_def put_thread_store snd_conv lv
  proof (intro conjI allI impI)
    show "owns (store_of S) v = {n. holds (store_of S) (t_id v) n}" if "thread_at ?S j = Some v" "live v" for j v
      using that lu o(1) by metis
    show "live_id S i" "i \<noteq> t_id t" if "holds (store_of S) i n" for i n using that o(2) none by metis+
  qed
  moreover have "lock_step (thread_view S) (thread_view ?S)"
  proof -
    have "thread_view ?S = ((fst (thread_view S))(t_id t := None), snd (thread_view S))"
      by (auto simp: thread_view_def lv fun_eq_iff)
    moreover have "fst (thread_view S) (t_id t) = Some {}" using thread_view_live [OF t(1) l(1)] none by simp
    moreover have "\<not> queued (t_id t) (snd (thread_view S))"
      using awake_not_queued [OF ok t(1) l(1) awake(1)] by (auto simp: queued_def thread_view_def)
    ultimately show ?thesis using lock_step.leave [of "fst (thread_view S)" "t_id t" "snd (thread_view S)"] by simp
  qed
  ultimately show ?thesis by (simp add: threads_ok_def)
qed

section \<open>The refinement\<close>

lemma send_simps [simp]: "t_pc (send r t) = t_pc t" "t_id (send r t) = t_id t" "t_held (send r t) = t_held t"
  by (simp_all add: send_def)

lemma fold_send_simps [simp]:
  "t_pc (fold send rs t) = t_pc t" "t_id (fold send rs t) = t_id t" "t_held (fold send rs t) = t_held t"
  by (induction rs arbitrary: t) simp_all

lemma live_simps [simp]:
  "t_pc t = Reading \<Longrightarrow> live t" "t_pc t = Requesting r \<Longrightarrow> live t" "t_pc t = Sleeping n h \<Longrightarrow> live t" "t_pc t = Acquired n \<Longrightarrow> live t"
  "t_pc t = Released n \<Longrightarrow> live t" "t_pc t = Replying rs \<Longrightarrow> live t" "t_pc t = Cleaning \<Longrightarrow> live t"
  by (simp_all add: live_def)

lemma owns_simps [simp]:
  "t_pc t = Reading \<Longrightarrow> owns s t = set (t_held t)" "t_pc t = Requesting r \<Longrightarrow> owns s t = set (t_held t)"
  "t_pc t = Acquired n \<Longrightarrow> owns s t = insert n (set (t_held t))" "t_pc t = Released n \<Longrightarrow> owns s t = set (t_held t) - {n}"
  "t_pc t = Replying rs \<Longrightarrow> owns s t = set (t_held t)" "t_pc t = Cleaning \<Longrightarrow> owns s t = set (t_held t)"
  by (simp_all add: owns_def)

definition thread_sim :: "thread_server \<Rightarrow> thread_server \<Rightarrow> bool" where
  "thread_sim S T \<longleftrightarrow> threads_ok T \<and> lock_step\<^sup>*\<^sup>* (thread_view S) (thread_view T)"

lemma thread_sim_eq: "threads_ok T \<and> thread_view T = thread_view S \<Longrightarrow> thread_sim S T"
  and thread_sim_step: "threads_ok T \<and> lock_step (thread_view S) (thread_view T) \<Longrightarrow> thread_sim S T"
  and thread_sim_steps: "threads_ok T \<and> lock_step\<^sup>*\<^sup>* (thread_view S) (thread_view T) \<Longrightarrow> thread_sim S T"
  and thread_sim_trans: "thread_sim S T \<Longrightarrow> thread_sim T U \<Longrightarrow> thread_sim S U"
  by (auto simp: thread_sim_def)

text \<open>A request, on the store in which its name has an entry.\<close>

lemma touched_sim:
  assumes ok: "threads_ok S" and e: "shared_entry_of n (store_of S) = (e, s)" and t: "thread_at S k = Some t"
    and step: "\<And>U. threads_ok U \<Longrightarrow> thread_at U k = Some t \<Longrightarrow> entry_at (store_of U) n = Some e \<Longrightarrow> store_of U = s \<Longrightarrow>
      thread_sim U (put_thread k ts U)"
  shows "thread_sim S (put_thread k ts S)"
proof -
  let ?U = "S\<lparr>store_of := s\<rparr>"
  have "threads_ok ?U" "thread_sim S ?U" "entry_at (store_of ?U) n = Some e"
    using touch_store [OF ok e] by (simp_all add: thread_sim_def)
  moreover from this have "thread_sim ?U (put_thread k ts ?U)" using t by (intro step) (simp_all add: thread_at_def split: if_splits)
  moreover have "put_thread k ts ?U = put_thread k ts S" by (simp add: put_thread_def)
  ultimately show ?thesis using thread_sim_trans by metis
qed

lemma quiet_sim:
  assumes "threads_ok U" "thread_at U k = Some t" "t_pc t = Requesting req"
    and "t_pc t' = Reading \<or> (\<exists>rs. t_pc t' = Replying rs)" "t_id t' = t_id t" "t_held t' = t_held t"
  shows "thread_sim U (put_thread k (t', store_of U) U)"
  by (rule thread_sim_eq, rule quiet_thread [OF assms(1,2) _ _ assms(5)]) (use assms(3,4,6) in auto)

lemma acquire_sim:
  assumes U: "threads_ok U" "thread_at U k = Some t" "entry_at (store_of U) n = Some e" "store_of U = s"
    and t: "t_pc t = Requesting (Acquire n)" and e: "shared_entry_of n s0 = (e, s)"
  shows "thread_sim U (put_thread k (thread_request (Acquire n) (t, s0)) U)"
proof (cases "t_holder e = Some (t_id t) \<or> t_id t \<in> fst ` set (t_waiters e)")
  case True
  let ?t = "send (Err (drop 4 ERR_ALREADY_HELD)) (t\<lparr>t_pc := Reading\<rparr>)"
  have "thread_request (Acquire n) (t, s0) = (?t, store_of U)" using True e U(4) by (auto simp: thread_request_def)
  then show ?thesis using quiet_sim [OF U(1,2) t, of ?t] by simp
next
  case False
  show ?thesis
  proof (cases "t_holder e")
    case None
    with False e U(4) t show ?thesis
      by (intro thread_sim_step) (simp add: thread_request_def, intro grant_thread [OF U(1,2) _ _ _ _ _ U(3)], auto)
  next
    case (Some h)
    with False e U(4) t show ?thesis
      by (intro thread_sim_step) (simp add: thread_request_def, intro wait_thread [OF U(1,2) _ _ _ U(3) Some], auto)
  qed
qed

lemma try_acquire_sim:
  assumes U: "threads_ok U" "thread_at U k = Some t" "entry_at (store_of U) n = Some e" "store_of U = s"
    and t: "t_pc t = Requesting (TryAcquire n)" and e: "shared_entry_of n s0 = (e, s)"
  shows "thread_sim U (put_thread k (thread_request (TryAcquire n) (t, s0)) U)"
proof (cases "t_holder e")
  case None
  with e U(4) t show ?thesis
    by (intro thread_sim_step) (simp add: thread_request_def, intro grant_thread [OF U(1,2) _ _ _ _ _ U(3)], auto)
next
  case (Some h)
  with e U(4) quiet_sim [OF U(1,2) t, of "t\<lparr>t_pc := Replying [Denied n]\<rparr>"] show ?thesis
    by (simp add: thread_request_def)
qed

lemma release_sim:
  assumes U: "threads_ok U" "thread_at U k = Some t" "entry_at (store_of U) n = Some e" "store_of U = s"
    and t: "t_pc t = Requesting (Release n)" and e: "shared_entry_of n s0 = (e, s)"
  shows "thread_sim U (put_thread k (thread_request (Release n) (t, s0)) U)"
proof (cases "t_holder e = Some (t_id t)")
  case True
  with e U(4) t show ?thesis
    by (intro thread_sim_step) (simp add: thread_request_def, intro promote_thread [OF U(1,2) _ _ _ _ _ U(3)], auto)
next
  case False
  with e U(4) quiet_sim [OF U(1,2) t, of "t\<lparr>t_pc := Replying [Err (drop 4 ERR_NOT_HELD)]\<rparr>"] show ?thesis
    by (simp add: thread_request_def)
qed

lemma status_sim:
  assumes U: "threads_ok U" "thread_at U k = Some t" "store_of U = s"
    and t: "t_pc t = Requesting (Status n)" and e: "shared_entry_of n s0 = (e, s)"
  shows "thread_sim U (put_thread k (thread_request (Status n) (t, s0)) U)"
  using e U(3) quiet_sim [OF U(1,2) t, of "t\<lparr>t_pc := Replying [thread_status n e]\<rparr>"] by (simp add: thread_request_def)

lemma request_sim:
  assumes ok: "threads_ok S" and t: "thread_at S k = Some t" "t_pc t = Requesting req"
  shows "thread_sim S (put_thread k (thread_request req (t, store_of S)) S)"
proof -
  define e s where "e n = fst (shared_entry_of n (store_of S))" and "s n = snd (shared_entry_of n (store_of S))" for n
  then have e: "shared_entry_of n (store_of S) = (e n, s n)" for n by simp
  note touch = touched_sim [OF ok e t(1)]
  show ?thesis
  proof (cases req)
    case (Acquire n)
    show ?thesis unfolding Acquire by (rule touch, rule acquire_sim [OF _ _ _ _ _ e]) (use t(2) Acquire in simp_all)
  next
    case (TryAcquire n)
    show ?thesis unfolding TryAcquire by (rule touch, rule try_acquire_sim [OF _ _ _ _ _ e]) (use t(2) TryAcquire in simp_all)
  next
    case (Release n)
    show ?thesis unfolding Release by (rule touch, rule release_sim [OF _ _ _ _ _ e]) (use t(2) Release in simp_all)
  next
    case (Status n)
    show ?thesis unfolding Status by (rule touch, rule status_sim [OF _ _ _ _ e]) (use t(2) Status in simp_all)
  next
    case List_Locks
    then show ?thesis using quiet_sim [OF ok t] by (simp add: thread_request_def)
  qed
qed

text \<open>The cleanup: nobody is evicted, what is held is passed on, and the session ends.\<close>

lemma cleanup_sim:
  assumes ok: "threads_ok S" and t: "thread_at S k = Some t" "t_pc t = Cleaning"
  shows "thread_sim S (put_thread k (thread_cleanup (t, store_of S)) S)"
proof -
  let ?t = "t\<lparr>t_held := []\<rparr>" and ?s = "fold (release_step (t_id t)) (t_held t) (store_of S)"
  let ?T = "put_thread k (?t, ?s) S"
  have nil: "filter (\<lambda>n. n \<notin> set (t_held t)) (t_held t) = []" by (simp add: filter_empty_conv)
  have T: "threads_ok ?T \<and> lock_step\<^sup>*\<^sup>* (thread_view S) (thread_view ?T)"
    by (rule cleanup_releases [OF ok t, where ns = "t_held t"]) (simp only: nil)
  have at: "thread_at ?T k = Some ?t" using thread_at_Some [OF t(1)] by simp
  have "thread_cleanup (t, store_of S) = (t\<lparr>t_pc := Gone\<rparr>, store_of ?T)"
    by (simp add: thread_cleanup_def cleanup_evicts_nobody [OF ok t])
  then have "put_thread k (thread_cleanup (t, store_of S)) S = put_thread k (t\<lparr>t_pc := Gone\<rparr>, store_of ?T) ?T" by simp
  moreover have "thread_sim ?T (put_thread k (t\<lparr>t_pc := Gone\<rparr>, store_of ?T) ?T)"
    by (rule thread_sim_step, rule leave_thread [OF conjunct1 [OF T] at _ _ refl]) (use t(2) in simp_all)
  ultimately show ?thesis using thread_sim_trans [OF thread_sim_steps [OF T]] by simp
qed

lemma thread_step_sim: "thread_step S T \<Longrightarrow> threads_ok S \<Longrightarrow> thread_sim S T"
proof (induction rule: thread_step.induct)
  case (accept S)
  then show ?case by (intro thread_sim_eq accept_thread) simp_all
next
  case (start S k t i s)
  then show ?case by (intro thread_sim_step start_thread) simp_all
next
  case (line S k t raw)
  from quiet_thread [OF line(3,1), of "thread_line raw t"] line(2) show ?case
    by (intro thread_sim_eq) (auto simp: thread_line_def Let_def split: option.splits)
next
  case (hang_up S k t)
  from quiet_thread [OF hang_up(3,1), of "t\<lparr>t_pc := Cleaning\<rparr>"] hang_up(2) show ?case by (intro thread_sim_eq) simp
next
  case (request S k t req)
  then show ?case by (intro request_sim)
next
  case (check S k t n h)
  note d = sleepers_okD [OF threads_okD(3) [OF check(4)] check(1,2)]
  show ?case
  proof (cases "wake (cells (store_of S) ! h)")
    case W_Waiting
    have "asleep (cells (store_of S) ! h) = []" using d(3) check(3) by auto
    then have c: "thread_check k n h (t, store_of S) =
        (t, (store_of S)\<lparr>cells := (cells (store_of S))[h := (cells (store_of S) ! h)\<lparr>asleep := [k]\<rparr>]\<rparr>)"
      by (simp add: thread_check_def W_Waiting Let_def)
    show ?thesis
      unfolding c by (intro thread_sim_eq doze_thread [OF check(4,1,2), of "[k]"]) (simp_all add: W_Waiting)
  next
    case W_Granted
    then show ?thesis
      by (intro thread_sim_eq) (simp add: thread_check_def, intro wake_thread [OF check(4,1,2)], simp_all)
  qed (use d(2) in simp)
next
  case (spurious S k t n h)
  note d = sleepers_okD [OF threads_okD(3) [OF spurious(4)] spurious(1,2)]
  have "asleep (cells (store_of S) ! h) = [k]" using d(3) spurious(3) by auto
  then show ?case
    by (intro thread_sim_eq doze_thread [OF spurious(4,1,2), of "[]"]) (simp_all add: spurious_wake_def)
next
  case (finish S k t n rs)
  from quiet_thread [OF finish(3,1), of "thread_finish t"] finish(2) show ?case
    by (intro thread_sim_eq) (elim insertE emptyE, auto)
next
  case (cleanup S k t)
  then show ?case by (intro cleanup_sim)
qed

lemma threads_ok_init: "threads_ok thread_server_init \<and> thread_view thread_server_init = (Map.empty, Map.empty)"
proof -
  have at: "thread_at thread_server_init k = None" for k by (simp add: thread_at_def thread_server_init_def)
  have st: "store_of thread_server_init = shared_new" "started thread_server_init = 0" by (simp_all add: thread_server_init_def)
  have sn: "t_locks shared_new = []" "t_next_id shared_new = 1" by (simp_all add: shared_new_def)
  show ?thesis
    by (simp add: threads_ok_def ids_fresh_def queues_ok_def sleepers_ok_def owners_ok_def thread_view_def live_id_def holds_def at st sn)
qed

interpretation th: lock_server "\<lambda>S. S = thread_server_init" thread_step threads_ok thread_view
  by unfold_locales (use threads_ok_init thread_step_sim in \<open>auto simp: thread_sim_def\<close>)

end
