(* ===== verification/Thread_Props.thy ===== *)
theory Thread_Props
  imports Thread_Locks
begin

text \<open>
  What the multi-threaded server gives its clients in every state its threads reach, whatever the
  interleaving: mutual exclusion, wake-ups that are never lost, and clean disconnection.
\<close>

abbreviation thread_reach :: "thread_server \<Rightarrow> bool" where
  "thread_reach \<equiv> reach (\<lambda>S. S = thread_server_init) thread_step"

lemma thread_reach_ok: "thread_reach S \<Longrightarrow> threads_ok S"
  using th.reach_ok by blast

section \<open>Refinement and mutual exclusion\<close>



section \<open>Waking up\<close>

text \<open>C7. No wake-up is lost: whoever sleeps on its condition variable has not been granted the lock yet, is
  still in the queue of the name it asked for, and the lock is held by the client of another running thread,
  which will wake it or one before it when it releases the lock or leaves.\<close>

theorem no_lost_wakeup:
  assumes "thread_reach S" and "thread_at S k = Some t" "t_pc t = Sleeping n h" "k \<in> set (asleep (cells (store_of S) ! h))"
  shows "wake (cells (store_of S) ! h) = W_Waiting \<and>
    (\<exists>e j u. map_of (t_locks (store_of S)) n = Some e \<and> (t_id t, h) \<in> set (t_waiters e) \<and>
       thread_at S j = Some u \<and> j \<noteq> k \<and> t_pc u \<notin> {Starting, Gone} \<and> t_holder e = Some (t_id u))"
proof -
  note ok = thread_reach_ok [OF assms(1)]
  note d = sleepers_okD [OF threads_okD(3) [OF ok] assms(2,3)]
  have l: "live t" using assms(3) by simp
  have w: "wake (cells (store_of S) ! h) = W_Waiting"
    using d(2,4) assms(4) by (cases "wake (cells (store_of S) ! h)") auto
  obtain e where e: "entry_at (store_of S) n = Some e" "(t_id t, h) \<in> set (t_waiters e)" using d(5) [OF w] by blast
  have m: "snd (thread_view S) n = Some (t_holder e, map fst (t_waiters e))" by (rule thread_view_entry [OF e(1)])
  have "t_id t \<in> set (map fst (t_waiters e))" using e(2) by force
  then have h: "t_holder e \<noteq> Some (t_id t)" "t_holder e \<noteq> None"
    using th.reach_promises [OF assms(1)] m unfolding queues_live_def by fastforce+
  then obtain i where i: "t_holder e = Some i" "i \<noteq> t_id t" by auto
  have "holds (store_of S) i n" using e(1) i(1) by (simp add: holds_def)
  then obtain j u where u: "thread_at S j = Some u" "live u" "t_id u = i"
    using owners_okD(2) [OF threads_okD(4) [OF ok]] unfolding live_id_def by blast
  have "j \<noteq> k" using u assms(2) i(2) by auto
  then show ?thesis using w e u i(1) by (auto simp: live_def)
qed

text \<open>C16. A release wakes the client that has waited longest: the lock passes to it in the same critical
  section, the others keep their order, and the very next step its thread takes leaves the wait loop, with
  the name in its list and the reply \<^verbatim>\<open>GRANTED\<close> to send, even if it had not gone to sleep yet.\<close>

theorem thread_release_wakes:
  assumes "thread_reach S" and "thread_at S k = Some t" "t_pc t = Requesting (Release n)"
    and e: "map_of (t_locks (store_of S)) n = Some e" "t_holder e = Some (t_id t)" "t_waiters e = (w, h) # ws"
    and T: "T = put_thread k (thread_request (Release n) (t, store_of S)) S"
  shows "thread_step S T \<and> map_of (t_locks (store_of T)) n = Some \<lparr> t_holder = Some w, t_waiters = ws \<rparr> \<and>
    (\<exists>j u U. thread_at T j = Some u \<and> t_id u = w \<and> t_pc u = Sleeping n h \<and> thread_step T U \<and>
       thread_at U j = Some (u\<lparr>t_held := List.insert n (t_held u), t_pc := Replying [Granted n]\<rparr>))"
proof -
  note ok = thread_reach_ok [OF assms(1)]
  obtain j u where u: "thread_at S j = Some u" "t_pc u = Sleeping n h" "t_id u = w"
    "cells (promote_waiter n e (store_of S)) = (cells (store_of S))[h := \<lparr> wake = W_Granted, asleep = [] \<rparr>]"
    "h < length (cells (store_of S))"
    by (rule handed_cells [OF ok e(1,3)])
  have "thread_request (Release n) (t, store_of S) = (t\<lparr>t_pc := Released n\<rparr>, promote_waiter n e (store_of S))"
    using e(1,2) by (simp add: thread_request_def shared_entry_of_def)
  then have st: "store_of T = promote_waiter n e (store_of S)" by (simp add: T)
  have "j \<noteq> k" using u(1,2) assms(2,3) by auto
  then have j: "thread_at T j = Some u" using u(1) by (simp add: T)
  have c: "cells (store_of T) ! h = \<lparr> wake = W_Granted, asleep = [] \<rparr>" using u(4,5) by (simp add: st)
  have "thread_step T (put_thread j (thread_check j n h (u, store_of T)) T)"
    by (rule thread_step.check [OF j u(2)]) (simp add: c)
  moreover have "thread_check j n h (u, store_of T) =
      (u\<lparr>t_held := List.insert n (t_held u), t_pc := Replying [Granted n]\<rparr>, store_of T)"
    by (simp add: thread_check_def Let_def c)
  ultimately have "\<exists>U. thread_step T U \<and> thread_at U j = Some (u\<lparr>t_held := List.insert n (t_held u), t_pc := Replying [Granted n]\<rparr>)"
    using thread_at_Some [OF j] by (metis fst_conv thread_at_put)
  moreover have "map_of (t_locks (store_of T)) n = Some \<lparr> t_holder = Some w, t_waiters = ws \<rparr>"
    by (simp add: st promote_waiter_def e(3) set_wake_def update_conv')
  moreover have "thread_step S T" unfolding T by (rule thread_step.request [OF assms(2,3)])
  ultimately show ?thesis using j u(2,3) by blast
qed

section \<open>Disconnection\<close>

text \<open>An entry after its holder gave it up.\<close>

definition passed_on :: "shared_entry \<Rightarrow> shared_entry" where
  "passed_on e =
     \<lparr> t_holder = (case t_waiters e of [] \<Rightarrow> None | w # ws \<Rightarrow> Some (fst w)), t_waiters = tl (t_waiters e) \<rparr>"

lemma promote_entries:
  "entry_at s n = Some e \<Longrightarrow> entry_at (promote_waiter n e s) = (entry_at s)(n \<mapsto> passed_on e)"
  by (cases "t_waiters e") (auto simp: promote_waiter_def passed_on_def set_wake_def update_conv')

lemma release_entries:
  assumes "\<And>m e. entry_at s m = Some e \<Longrightarrow> i \<notin> fst ` set (t_waiters e)"
  shows "entry_at (fold (release_step i) ns s) n =
    (if n \<in> set ns \<and> holds s i n then map_option passed_on (entry_at s n) else entry_at s n)"
  using assms
proof (induction ns arbitrary: s)
  case (Cons m ns)
  show ?case
  proof (cases "holds s i m")
    case True
    then obtain e where e: "entry_at s m = Some e" "t_holder e = Some i" by (auto simp: holds_def)
    let ?s = "promote_waiter m e s"
    have s: "release_step i m s = ?s" using e by (simp add: release_step_def)
    have ent: "entry_at ?s = (entry_at s)(m \<mapsto> passed_on e)" by (rule promote_entries [OF e(1)])
    have "i \<notin> fst ` set (t_waiters e)" by (rule Cons.prems [OF e(1)])
    then have p: "t_holder (passed_on e) \<noteq> Some i" "i \<notin> fst ` set (t_waiters (passed_on e))"
      by (cases "t_waiters e"; force simp: passed_on_def)+
    have "i \<notin> fst ` set (t_waiters e')" if "entry_at ?s k = Some e'" for k e'
      using that p(2) Cons.prems [of k e'] unfolding ent by (cases "k = m") auto
    from Cons.IH [OF this]
    have "entry_at (fold (release_step i) ns ?s) n =
      (if n \<in> set ns \<and> holds ?s i n then map_option passed_on (entry_at ?s n) else entry_at ?s n)" .
    moreover have "holds ?s i k \<longleftrightarrow> k \<noteq> m \<and> holds s i k" for k using p(1) by (auto simp: holds_def ent)
    ultimately show ?thesis using True e(1) by (simp add: s ent)
  next
    case False
    then have "release_step i m s = s" by (auto simp: release_step_def holds_def split: option.split)
    then show ?thesis using Cons.IH [OF Cons.prems] False by auto
  qed
qed simp

text \<open>C17. A client that goes away leaves nothing behind: the cleanup passes each lock it holds to the client
  that has waited longest, or frees it, and leaves every other lock and queue as it is; afterwards the
  client is the holder of no lock and in no queue.\<close>

theorem thread_disconnect_releases:
  assumes "thread_reach S" and "thread_at S k = Some t" "t_pc t = Cleaning"
    and e: "map_of (t_locks (store_of S)) n = Some e"
    and T: "T = put_thread k (thread_cleanup (t, store_of S)) S"
  shows "thread_step S T \<and>
    map_of (t_locks (store_of T)) n = Some (if t_holder e = Some (t_id t) then passed_on e else e) \<and>
    t_holder (if t_holder e = Some (t_id t) then passed_on e else e) \<noteq> Some (t_id t) \<and>
    t_id t \<notin> fst ` set (t_waiters (if t_holder e = Some (t_id t) then passed_on e else e))"
proof -
  note ok = thread_reach_ok [OF assms(1)]
  have l: "live t" using assms(3) by simp
  have out: "t_id t \<notin> fst ` set (t_waiters e')" if "entry_at (store_of S) m = Some e'" for m e'
    by (rule awake_not_queued [OF ok assms(2) l _ that]) (simp add: assms(3))
  have own: "n \<in> set (t_held t) \<longleftrightarrow> holds (store_of S) (t_id t) n"
    using owners_okD(1) [OF threads_okD(4) [OF ok] assms(2) l] assms(3) by simp
  have st: "store_of T = fold (release_step (t_id t)) (t_held t) (store_of S)"
    by (simp add: T thread_cleanup_def cleanup_evicts_nobody [OF ok assms(2,3)])
  have "map_of (t_locks (store_of T)) n = Some (if t_holder e = Some (t_id t) then passed_on e else e)"
  proof -
    have "entry_at (store_of T) n = (if n \<in> set (t_held t) \<and> holds (store_of S) (t_id t) n
        then map_option passed_on (entry_at (store_of S) n) else entry_at (store_of S) n)"
      unfolding st by (rule release_entries) (rule out)
    then show ?thesis using e by (simp add: own holds_def)
  qed
  moreover have "thread_step S T" unfolding T by (rule thread_step.cleanup [OF assms(2,3)])
  ultimately show ?thesis using out [OF e] by (cases "t_waiters e"; force simp: passed_on_def)
qed

section \<open>Eviction\<close>

definition undecided :: "shared \<Rightarrow> bool" where
  "undecided s \<longleftrightarrow> (\<forall>c \<in> set (cells s). wake c \<noteq> W_Evicted)"

lemma undecided_update:
  "undecided s \<Longrightarrow> (h < length (cells s) \<Longrightarrow> wake c \<noteq> W_Evicted) \<Longrightarrow> cells s' = (cells s)[h := c] \<Longrightarrow> undecided s'"
  by (cases "h < length (cells s)") (auto simp: undecided_def list_update_beyond dest!: set_update_subset_insert [THEN subsetD])

lemma undecided_cong: "undecided s \<Longrightarrow> cells s' = cells s \<Longrightarrow> undecided s'"
  by (simp add: undecided_def)

lemma undecided_promote: "undecided s \<Longrightarrow> undecided (promote_waiter n e s)"
  by (cases "t_waiters e")
    (auto simp: promote_waiter_def set_wake_def elim: undecided_cong undecided_update [where c = "\<lparr> wake = W_Granted, asleep = a \<rparr>" for a])

lemma undecided_request: "undecided s \<Longrightarrow> undecided (snd (thread_request req (t, s)))"
proof (cases req)
  case (Release n)
  assume u: "undecided s"
  obtain e s' where e: "shared_entry_of n s = (e, s')" by (cases "shared_entry_of n s")
  have "undecided s'" by (rule undecided_cong [OF u shared_entry_of_facts(2) [OF e]])
  then show ?thesis by (simp add: thread_request_def Release e undecided_promote)
qed (auto simp: thread_request_def undecided_def shared_entry_of_def split: option.splits prod.splits)

lemma undecided_release: "undecided s \<Longrightarrow> undecided (fold (release_step i) ns s)"
proof (induction ns arbitrary: s)
  case (Cons n ns)
  have "undecided (release_step i n s)" using Cons.prems by (simp add: release_step_def undecided_promote split: option.split)
  then show ?case using Cons.IH by simp
qed simp

text \<open>No waiter is ever evicted: \<^verbatim>\<open>WakeState::Evicted\<close> is in no cell of any reachable state, because a
  connection is cleaned up by its own thread, which is in no queue by then; a client that hangs up while it
  waits stays in its queue until the lock is granted to it.\<close>

theorem never_evicted:
  assumes "thread_reach S" and "c \<in> set (cells (store_of S))"
  shows "wake c \<noteq> W_Evicted"
proof -
  have "undecided (store_of S)" using assms(1)
  proof (induction rule: reach.induct)
    case (reach_start S)
    then show ?case by (simp add: thread_server_init_def shared_new_def undecided_def)
  next
    case (reach_step S T)
    note ok = thread_reach_ok [OF reach_step(1)]
    from reach_step(2) reach_step(3) ok show ?case
    proof (induction rule: thread_step.induct)
      case (start S k t i s)
      then show ?case by (auto simp: alloc_id_def elim: undecided_cong)
    next
      case (request S k t req)
      then show ?case by (simp add: undecided_request)
    next
      case (check S k t n h)
      then show ?case
        by (cases "wake (cells (store_of S) ! h)")
          (simp_all add: thread_check_def Let_def undecided_update [where h = h and c = "(cells (store_of S) ! h)\<lparr>asleep := a\<rparr>" for a])
    next
      case (spurious S k t n h)
      note d = sleepers_okD(2) [OF threads_okD(3) [OF spurious(5)] spurious(1,2)]
      show ?case by (simp, rule undecided_update [OF spurious(4)]) (use d in \<open>auto simp: spurious_wake_def\<close>)
    next
      case (cleanup S k t)
      then show ?case by (simp add: thread_cleanup_def cleanup_evicts_nobody undecided_release)
    qed simp_all
  qed
  with assms(2) show ?thesis by (simp add: undecided_def)
qed

section \<open>A run\<close>

text \<open>Two clients ask for the same lock; the second one goes to sleep; the first one releases it.\<close>

definition client_one :: "thread_pc \<Rightarrow> thread" where
  "client_one p = \<lparr> t_pc = p, t_id = 1, t_held = [''a''], t_out = ''GRANTED a'' @ [NL] \<rparr>"

definition client_two :: thread where
  "client_two = \<lparr> t_pc = Sleeping ''a'' 0, t_id = 2, t_held = [], t_out = [] \<rparr>"

definition contended_store :: shared where
  "contended_store = \<lparr> t_locks = [(''a'', \<lparr> t_holder = Some 1, t_waiters = [(2, 0)] \<rparr>)], t_next_id = 3,
     cells = [\<lparr> wake = W_Waiting, asleep = [1] \<rparr>] \<rparr>"

definition contended_threads :: "thread_pc \<Rightarrow> thread_server" where
  "contended_threads p = \<lparr> store_of = contended_store, threads = [client_one p, client_two], started = 2 \<rparr>"

lemma parse_a: "parse_request ''ACQUIRE a'' = Some (Acquire ''a'')" "parse_request ''RELEASE a'' = Some (Release ''a'')"
  by (simp_all add: parse_request_def split_first_def split_once_Cons take_lock_name_strict_def proto_simps)

lemma trim_a: "trim_end CR ''ACQUIRE a'' = ''ACQUIRE a''" "trim_end CR ''RELEASE a'' = ''RELEASE a''"
    "valid_utf8 ''ACQUIRE a''" "valid_utf8 ''RELEASE a''"
  by code_simp+

lemma line_a:
  "thread_line ''ACQUIRE a'' t = t\<lparr>t_pc := Requesting (Acquire ''a'')\<rparr>"
  "thread_line ''RELEASE a'' t = t\<lparr>t_pc := Requesting (Release ''a'')\<rparr>"
  by (simp_all only: thread_line_def trim_a parse_a Let_def not_True_eq_False if_False list.distinct option.case)

lemma at_threads: "thread_at S k = Some t \<longleftrightarrow> k < length (threads S) \<and> threads S ! k = t"
  by (simp add: thread_at_def)

lemma thread_reach_next: "thread_reach S \<Longrightarrow> thread_step S T \<Longrightarrow> thread_reach T"
  by (rule reach.reach_step)

lemma two_started:
  "thread_reach \<lparr> store_of = \<lparr> t_locks = [], t_next_id = 3, cells = [] \<rparr>,
     threads = [thread_new\<lparr>t_id := 1, t_pc := Reading\<rparr>, thread_new\<lparr>t_id := 2, t_pc := Reading\<rparr>], started = 2 \<rparr>"
proof -
  have "thread_reach thread_server_init" by (rule reach_start) (rule refl)
  from thread_reach_next [OF thread_reach_next [OF this thread_step.accept] thread_step.accept]
  have r: "thread_reach \<lparr> store_of = shared_new, threads = [thread_new, thread_new], started = 0 \<rparr>"
    by (simp add: thread_server_init_def)
  have "thread_reach \<lparr> store_of = \<lparr> t_locks = [], t_next_id = 2, cells = [] \<rparr>,
      threads = [thread_new\<lparr>t_id := 1, t_pc := Reading\<rparr>, thread_new], started = 1 \<rparr>"
    using thread_reach_next [OF r thread_step.start [of _ 0 thread_new]]
    by (simp add: at_threads thread_new_def alloc_id_def shared_new_def put_thread_def)
  from thread_reach_next [OF this thread_step.start [of _ 1 thread_new]] show ?thesis
    by (simp add: at_threads thread_new_def alloc_id_def put_thread_def) (simp add: numeral_2_eq_2)
qed

lemma contended_reach: "thread_reach (contended_threads Reading)" "thread_reach (contended_threads (Requesting (Release ''a'')))"
    "thread_reach (contended_threads Cleaning)"
proof -
  let ?S = "\<lambda>ls cs t u. \<lparr> store_of = \<lparr> t_locks = ls, t_next_id = 3, cells = cs \<rparr>, threads = [t, u], started = 2 \<rparr>"
  let ?t = "\<lambda>p hs out. \<lparr> t_pc = p, t_id = 1, t_held = hs, t_out = out \<rparr>"
  let ?u = "\<lambda>p. \<lparr> t_pc = p, t_id = 2, t_held = [], t_out = [] \<rparr>"
  have "thread_reach (?S [] [] (?t (Requesting (Acquire ''a'')) [] []) (?u Reading))"
    using thread_reach_next [OF two_started thread_step.line [of _ 0 "?t Reading [] []" "''ACQUIRE a''"]]
    by (simp add: at_threads thread_new_def put_thread_def line_a)
  from thread_reach_next [OF this thread_step.request [of _ 0 _ "Acquire ''a''"]]
  have "thread_reach (?S [(''a'', \<lparr> t_holder = Some 1, t_waiters = [] \<rparr>)] [] (?t (Replying [Granted ''a'']) [''a''] []) (?u Reading))"
    by (simp add: at_threads put_thread_def thread_request_def shared_entry_of_def shared_entry_new_def)
  from thread_reach_next [OF this thread_step.finish [of _ 0 "?t (Replying [Granted ''a'']) [''a''] []" "[]" "[Granted ''a'']"]]
  have "thread_reach (?S [(''a'', \<lparr> t_holder = Some 1, t_waiters = [] \<rparr>)] [] (client_one Reading) (?u Reading))"
    by (simp add: at_threads put_thread_def send_def client_one_def)
  from thread_reach_next [OF this thread_step.line [of _ 1 "?u Reading" "''ACQUIRE a''"]]
  have "thread_reach (?S [(''a'', \<lparr> t_holder = Some 1, t_waiters = [] \<rparr>)] [] (client_one Reading) (?u (Requesting (Acquire ''a''))))"
    by (simp add: at_threads put_thread_def line_a)
  from thread_reach_next [OF this thread_step.request [of _ 1 _ "Acquire ''a''"]]
  have "thread_reach (?S [(''a'', \<lparr> t_holder = Some 1, t_waiters = [(2, 0)] \<rparr>)] [\<lparr> wake = W_Waiting, asleep = [] \<rparr>]
      (client_one Reading) client_two)"
    by (simp add: at_threads put_thread_def thread_request_def shared_entry_of_def client_two_def)
  from thread_reach_next [OF this thread_step.check [of _ 1 client_two "''a''" 0]]
  show r: "thread_reach (contended_threads Reading)"
    by (simp add: at_threads put_thread_def thread_check_def client_two_def contended_threads_def contended_store_def Let_def)
  from thread_reach_next [OF r thread_step.line [of _ 0 "client_one Reading" "''RELEASE a''"]]
  show "thread_reach (contended_threads (Requesting (Release ''a'')))"
    by (simp add: at_threads put_thread_def line_a contended_threads_def client_one_def)
  from thread_reach_next [OF r thread_step.hang_up [of _ 0 "client_one Reading"]]
  show "thread_reach (contended_threads Cleaning)"
    by (simp add: at_threads put_thread_def contended_threads_def client_one_def)
qed

lemma contended_at:
  "thread_at (contended_threads p) 0 = Some (client_one p)" "thread_at (contended_threads p) 1 = Some client_two"
  "store_of (contended_threads p) = contended_store"
  by (simp_all add: at_threads contended_threads_def)



theorem no_lost_wakeup_witness: "wake (cells contended_store ! 0) = W_Waiting"
  using no_lost_wakeup [OF contended_reach(1) contended_at(2), of "''a''" 0]
  by (simp add: client_two_def contended_at contended_store_def)

theorem thread_release_wakes_witness:
  "map_of (t_locks (store_of (put_thread 0
      (thread_request (Release ''a'') (client_one (Requesting (Release ''a'')), contended_store))
      (contended_threads (Requesting (Release ''a'')))))) ''a'' = Some \<lparr> t_holder = Some 2, t_waiters = [] \<rparr>"
  using thread_release_wakes [OF contended_reach(2) contended_at(1), where n = "''a''" and w = 2 and h = 0 and ws = "[]"
      and e = "\<lparr> t_holder = Some 1, t_waiters = [(2, 0)] \<rparr>"]
  by (simp add: client_one_def contended_at contended_store_def)

theorem thread_disconnect_releases_witness:
  "map_of (t_locks (store_of (put_thread 0 (thread_cleanup (client_one Cleaning, contended_store)) (contended_threads Cleaning)))) ''a'' =
   Some \<lparr> t_holder = Some 2, t_waiters = [] \<rparr>"
  using thread_disconnect_releases [OF contended_reach(3) contended_at(1), where n = "''a''" and e = "\<lparr> t_holder = Some 1, t_waiters = [(2, 0)] \<rparr>"]
  by (simp add: client_one_def contended_at contended_store_def passed_on_def)

theorem never_evicted_witness: "wake \<lparr> wake = W_Waiting, asleep = [1] \<rparr> \<noteq> W_Evicted"
  by (rule never_evicted [OF contended_reach(1)]) (simp add: contended_at contended_store_def)

end
