(* ===== verification/Posix_Fs.thy ===== *)
theory Posix_Fs
  imports Prelude
begin

text \<open>
  The part of \<^verbatim>\<open>std::path\<close>, \<^verbatim>\<open>std::fs\<close> and of a POSIX file system the write-ahead log uses.  A path is its
  sequence of components, as \<^verbatim>\<open>Path\<close> compares it; the relative path with no component is the empty
  string.  Directory entries name inodes, an open file is its inode, and both entries and contents have a
  second copy, the one on stable storage, which only \<^verbatim>\<open>fsync\<close> brings up to date.

  Every system call takes the next answer of \<open>plan\<close>: it succeeds, fails, or (a write) fails after a part of
  the bytes; with the plan used up, calls succeed.  A crash keeps of each entry either copy, keeps a
  content that was synced, and of a content with unsynced bytes behind the synced ones keeps the synced
  ones and an arbitrary rest.
\<close>

section \<open>Paths\<close>

record path =
  absolute :: bool
  comps :: "string list"

definition empty_path :: path where
  "empty_path = \<lparr> absolute = False, comps = [] \<rparr>"

definition parent :: "path \<Rightarrow> path option" where
  "parent p = (if comps p = [] then None else Some (p\<lparr>comps := butlast (comps p)\<rparr>))"

text \<open>\<^verbatim>\<open>file_stem\<close>: the name up to its last dot, the whole name if that dot is the first character or
  there is none.\<close>

definition file_stem :: "string \<Rightarrow> string" where
  "file_stem n =
     (case dropWhile (\<lambda>c. c \<noteq> CHR ''.'') (rev n) of
        [] \<Rightarrow> n
      | _ # rs \<Rightarrow> if rs = [] then n else rev rs)"

definition with_extension :: "string \<Rightarrow> path \<Rightarrow> path" where
  "with_extension ext p =
     (if comps p = [] \<or> last (comps p) = ''..'' then p
      else p\<lparr>comps := butlast (comps p) @ [file_stem (last (comps p)) @ ''.'' @ ext]\<rparr>)"

section \<open>File systems\<close>

datatype io_error = Not_Found | Unexpected_Eof | Io_Failure | Panicked

datatype io_answer = Succeed | Fail | Partial nat

record fs =
  dir :: "path \<rightharpoonup> nat"
  disk_dir :: "path \<rightharpoonup> nat"
  data :: "nat \<Rightarrow> u8 list"
  disk_data :: "nat \<Rightarrow> u8 list"
  folders :: "path \<Rightarrow> bool"
  inodes :: nat
  plan :: "io_answer list"

type_synonym 'a io = "fs \<Rightarrow> (io_error + 'a) \<times> fs"

definition io_return :: "'a \<Rightarrow> 'a io" where
  "io_return a s = (Inr a, s)"

definition io_fail :: "io_error \<Rightarrow> 'a io" where
  "io_fail e s = (Inl e, s)"

definition io_bind :: "'a io \<Rightarrow> ('a \<Rightarrow> 'b io) \<Rightarrow> 'b io" where
  "io_bind m f s = (case m s of (Inl e, s') \<Rightarrow> (Inl e, s') | (Inr a, s') \<Rightarrow> f a s')"

definition take_answer :: "fs \<Rightarrow> io_answer \<times> fs" where
  "take_answer s = (case plan s of [] \<Rightarrow> (Succeed, s) | a # as \<Rightarrow> (a, s\<lparr>plan := as\<rparr>))"

definition attempt :: "'a io \<Rightarrow> 'a io" where
  "attempt m s = (case take_answer s of (Succeed, s') \<Rightarrow> m s' | (_, s') \<Rightarrow> (Inl Io_Failure, s'))"

section \<open>System calls\<close>

definition in_folder :: "fs \<Rightarrow> path \<Rightarrow> bool" where
  "in_folder s p \<longleftrightarrow>
     (case parent p of None \<Rightarrow> False | Some d \<Rightarrow> (d = empty_path \<or> folders s d) \<and> \<not> folders s p)"

text \<open>\<^verbatim>\<open>Path::exists\<close> answers \<^verbatim>\<open>false\<close> when it cannot tell.\<close>

definition path_exists :: "path \<Rightarrow> bool io" where
  "path_exists p s =
     (case take_answer s of
        (Succeed, s') \<Rightarrow> (Inr (dir s' p \<noteq> None \<or> folders s' p), s')
      | (_, s') \<Rightarrow> (Inr False, s'))"

definition remove_file :: "path \<Rightarrow> unit io" where
  "remove_file p = attempt (\<lambda>s.
     case dir s p of None \<Rightarrow> (Inl Not_Found, s) | Some _ \<Rightarrow> (Inr (), s\<lparr>dir := (dir s)(p := None)\<rparr>))"

definition new_file :: "path \<Rightarrow> fs \<Rightarrow> nat \<times> fs" where
  "new_file p s =
     (inodes s, s\<lparr>dir := (dir s)(p \<mapsto> inodes s), data := (data s)(inodes s := []),
                  disk_data := (disk_data s)(inodes s := []), inodes := inodes s + 1\<rparr>)"

text \<open>\<^verbatim>\<open>OpenOptions::new().read(true).create(true).append(true).open(p)\<close>.\<close>

definition open_append :: "path \<Rightarrow> nat io" where
  "open_append p = attempt (\<lambda>s.
     if \<not> in_folder s p then (Inl Not_Found, s)
     else (case dir s p of
             Some i \<Rightarrow> (Inr i, s)
           | None \<Rightarrow> (case new_file p s of (i, s') \<Rightarrow> (Inr i, s'))))"

text \<open>\<^verbatim>\<open>File::create\<close>.\<close>

definition create_file :: "path \<Rightarrow> nat io" where
  "create_file p = attempt (\<lambda>s.
     if \<not> in_folder s p then (Inl Not_Found, s)
     else (case dir s p of
             Some i \<Rightarrow> (Inr i, s\<lparr>data := (data s)(i := [])\<rparr>)
           | None \<Rightarrow> (case new_file p s of (i, s') \<Rightarrow> (Inr i, s'))))"

definition write_all_file :: "nat \<Rightarrow> u8 list \<Rightarrow> unit io" where
  "write_all_file i bs s =
     (case take_answer s of
        (Succeed, s') \<Rightarrow> (Inr (), s'\<lparr>data := (data s')(i := data s' i @ bs)\<rparr>)
      | (Fail, s') \<Rightarrow> (Inl Io_Failure, s')
      | (Partial n, s') \<Rightarrow> (Inl Io_Failure, s'\<lparr>data := (data s')(i := data s' i @ take n bs)\<rparr>))"

definition sync_all :: "nat \<Rightarrow> unit io" where
  "sync_all i = attempt (\<lambda>s. (Inr (), s\<lparr>disk_data := (disk_data s)(i := data s i)\<rparr>))"

definition metadata_len :: "nat \<Rightarrow> nat io" where
  "metadata_len i = attempt (\<lambda>s. (Inr (length (data s i)), s))"

definition seek_start :: "unit io" where
  "seek_start = attempt (io_return ())"

text \<open>\<^verbatim>\<open>read_exact\<close> on the bytes from the cursor on; the cursor's new position is the rest.\<close>

definition read_exact :: "nat \<Rightarrow> u8 list \<Rightarrow> (u8 list \<times> u8 list) io" where
  "read_exact n rest = attempt (\<lambda>s.
     if length rest < n then (Inl Unexpected_Eof, s) else (Inr (take n rest, drop n rest), s))"

definition rename_file :: "path \<Rightarrow> path \<Rightarrow> unit io" where
  "rename_file src dst = attempt (\<lambda>s.
     case dir s src of
       None \<Rightarrow> (Inl Not_Found, s)
     | Some i \<Rightarrow>
         if dir s dst = Some i then (Inr (), s)
         else (Inr (), s\<lparr>dir := (dir s)(src := None, dst \<mapsto> i)\<rparr>))"

text \<open>\<^verbatim>\<open>File::open(d)?.sync_all()\<close> on a directory; opening the empty path fails.\<close>

definition fsync_dir :: "path \<Rightarrow> unit io" where
  "fsync_dir d =
     io_bind (attempt (\<lambda>s. if d \<noteq> empty_path \<and> folders s d then (Inr (), s) else (Inl Not_Found, s)))
       (\<lambda>_. attempt (\<lambda>s. (Inr (),
          s\<lparr>disk_dir := (\<lambda>p. if parent p = Some d then dir s p else disk_dir s p)\<rparr>)))"

definition rename_durably :: "path \<Rightarrow> path \<Rightarrow> path \<Rightarrow> unit io" where
  "rename_durably src dst d = io_bind (rename_file src dst) (\<lambda>_. fsync_dir d)"

section \<open>Crashes\<close>

definition survives :: "u8 list \<Rightarrow> u8 list \<Rightarrow> u8 list \<Rightarrow> bool" where
  "survives synced now after \<longleftrightarrow>
     (if now = synced then after = synced
      else take (length synced) now = synced \<longrightarrow> take (length synced) after = synced)"

definition crash :: "fs \<Rightarrow> fs \<Rightarrow> bool" where
  "crash s t \<longleftrightarrow>
     (\<forall>p. dir t p = dir s p \<or> dir t p = disk_dir s p) \<and> disk_dir t = dir t \<and>
     (\<forall>i. survives (disk_data s i) (data s i) (data t i)) \<and> disk_data t = data t \<and>
     folders t = folders s \<and> inodes t = inodes s \<and> plan t = []"

section \<open>Calls that succeed\<close>

lemma take_answer_calm: "plan s = [] \<Longrightarrow> take_answer s = (Succeed, s)"
  by (simp add: take_answer_def)

lemma attempt_calm: "plan s = [] \<Longrightarrow> attempt m s = m s"
  by (simp add: attempt_def take_answer_calm)

text \<open>What an answer leaves of the state: everything but the plan.\<close>

lemma take_answer_fields:
  assumes "take_answer s = (a, t)"
  shows "dir t = dir s" "disk_dir t = disk_dir s" "data t = data s" "disk_data t = disk_data s"
    "folders t = folders s" "inodes t = inodes s"
  using assms by (auto simp: take_answer_def split: list.splits)

lemma attempt_cases:
  assumes "attempt m s = (r, t)"
  obtains (ok) u where "take_answer s = (Succeed, u)" "m u = (r, t)"
    | (failed) "r = Inl Io_Failure" "\<exists>a. take_answer s = (a, t)"
  using assms by (auto simp: attempt_def split: prod.splits io_answer.splits)

lemma io_bind_cases:
  assumes "io_bind m f s = (r, t)"
  obtains (failed) e where "m s = (Inl e, t)" "r = Inl e"
    | (ok) a u where "m s = (Inr a, u)" "f a u = (r, t)"
  using assms by (auto simp: io_bind_def split: prod.splits sum.splits)

declare io_bind_def [wal_simps]
  path_exists_def [wal_simps]
  remove_file_def [wal_simps]

end
