(* ===== verification/BTree.thy ===== *)
theory BTree
  imports Prelude
begin

text \<open>
  The ordered map of Rust's standard library, \<^verbatim>\<open>BTreeMap\<close>, as far as the repository uses it: a list of
  pairs whose keys strictly increase.  \<^verbatim>\<open>range\<close> panics on an inverted range, which is \<open>None\<close>.
\<close>

type_synonym ('k, 'v) btree = "('k \<times> 'v) list"

fun bt_insert :: "'k::linorder \<Rightarrow> 'v \<Rightarrow> ('k, 'v) btree \<Rightarrow> ('k, 'v) btree" where
  "bt_insert k v [] = [(k, v)]"
| "bt_insert k v ((k', v') # m) =
     (if k < k' then (k, v) # (k', v') # m
      else if k = k' then (k, v) # m
      else (k', v') # bt_insert k v m)"

definition bt_remove :: "'k \<Rightarrow> ('k, 'v) btree \<Rightarrow> ('k, 'v) btree" where
  "bt_remove k m = filter (\<lambda>(k', _). k' \<noteq> k) m"

definition bt_get :: "'k \<Rightarrow> ('k, 'v) btree \<Rightarrow> 'v option" where
  "bt_get k m = map_of m k"

datatype 'k bound = Included 'k | Excluded 'k | Unbounded

fun above :: "'k::linorder bound \<Rightarrow> 'k \<Rightarrow> bool" where
  "above (Included a) k = (a \<le> k)"
| "above (Excluded a) k = (a < k)"
| "above Unbounded k = True"

fun below :: "'k::linorder bound \<Rightarrow> 'k \<Rightarrow> bool" where
  "below (Included b) k = (k \<le> b)"
| "below (Excluded b) k = (k < b)"
| "below Unbounded k = True"

fun range_panics :: "'k::linorder bound \<Rightarrow> 'k bound \<Rightarrow> bool" where
  "range_panics (Excluded a) (Excluded b) = (a \<ge> b)"
| "range_panics (Included a) (Included b) = (a > b)"
| "range_panics (Included a) (Excluded b) = (a > b)"
| "range_panics (Excluded a) (Included b) = (a > b)"
| "range_panics _ _ = False"

definition bt_range :: "'k::linorder bound \<Rightarrow> 'k bound \<Rightarrow> ('k, 'v) btree \<Rightarrow> ('k \<times> 'v) list option" where
  "bt_range lo hi m =
     (if range_panics lo hi then None else Some (filter (\<lambda>(k, _). above lo k \<and> below hi k) m))"

section \<open>Order and lookup\<close>

definition bt_ok :: "('k::linorder, 'v) btree \<Rightarrow> bool" where
  "bt_ok m \<longleftrightarrow> sorted_wrt (<) (map fst m)"

lemma bt_ok_Nil [simp]: "bt_ok []"
  by (simp add: bt_ok_def)

lemma bt_ok_Cons: "bt_ok ((k, v) # m) \<longleftrightarrow> (\<forall>x \<in> set m. k < fst x) \<and> bt_ok m"
  by (simp add: bt_ok_def)

lemma set_bt_insert: "set (bt_insert k v m) \<subseteq> insert (k, v) (set m)"
  by (induction k v m rule: bt_insert.induct) auto

lemma bt_ok_insert [simp]: "bt_ok m \<Longrightarrow> bt_ok (bt_insert k v m)"
proof (induction k v m rule: bt_insert.induct)
  case (2 k v k' v' m)
  then show ?case using set_bt_insert [of k v m] by (fastforce simp: bt_ok_Cons)
qed (simp add: bt_ok_Cons)

lemma bt_ok_remove [simp]: "bt_ok m \<Longrightarrow> bt_ok (bt_remove k m)"
  by (induction m) (auto simp: bt_ok_Cons bt_remove_def)

lemma bt_get_Nil [simp]: "bt_get k [] = None"
  by (simp add: bt_get_def)

lemma bt_get_Cons [simp]: "bt_get k (p # m) = (if k = fst p then Some (snd p) else bt_get k m)"
  by (cases p) (simp add: bt_get_def)

lemma bt_get_insert [simp]: "bt_get j (bt_insert k v m) = (if j = k then Some v else bt_get j m)"
  by (induction k v m rule: bt_insert.induct) auto

lemma bt_get_remove [simp]: "bt_get j (bt_remove k m) = (if j = k then None else bt_get j m)"
  by (induction m) (auto simp: bt_remove_def)

lemma bt_ok_distinct: "bt_ok m \<Longrightarrow> distinct (map fst m)"
  by (induction m) (auto simp: bt_ok_def)

lemma bt_get_Some: "bt_ok m \<Longrightarrow> bt_get k m = Some v \<longleftrightarrow> (k, v) \<in> set m"
  using bt_ok_distinct [of m] by (simp add: bt_get_def)

text \<open>Two trees with the same lookups are the same list, so the iteration order is determined.\<close>

lemma bt_eqI:
  assumes "bt_ok m" and "bt_ok n" and e: "\<And>k. bt_get k m = bt_get k n"
  shows "m = n"
proof -
  have s: "set m = set n"
  proof -
    have "(k, v) \<in> set m \<longleftrightarrow> (k, v) \<in> set n" for k v
      using e [of k] bt_get_Some [OF assms(1), of k v] bt_get_Some [OF assms(2), of k v] by simp
    then show ?thesis by auto
  qed
  have d: "distinct (map fst m)" "distinct (map fst n)"
    using assms(1,2) by (auto intro: bt_ok_distinct)
  show ?thesis
  proof (rule map_sorted_distinct_set_unique [of fst])
    show "inj_on fst (set m \<union> set n)" using d(1) s by (simp add: distinct_map)
    show "sorted (map fst m)" "sorted (map fst n)"
      using assms(1,2) by (auto simp: bt_ok_def intro: strict_sorted_imp_sorted)
  qed (use d s in auto)
qed

lemma fold_bt_insert_ok: "bt_ok acc \<Longrightarrow> bt_ok (fold (\<lambda>(k, v). bt_insert k v) m acc)"
  by (induction m arbitrary: acc) (auto simp: split_def)

lemma bt_get_fold_insert:
  "distinct (map fst m) \<Longrightarrow>
     bt_get j (fold (\<lambda>(k, v). bt_insert k v) m acc) = (case bt_get j m of Some v \<Rightarrow> Some v | None \<Rightarrow> bt_get j acc)"
proof (induction m arbitrary: acc)
  case (Cons kv m)
  have "bt_get (fst kv) m = None"
    using Cons.prems by (simp add: bt_get_def map_of_eq_None_iff)
  with Cons show ?case
    by (cases kv) (auto split: option.split)
qed simp

lemma fold_bt_insert: "bt_ok m \<Longrightarrow> fold (\<lambda>(k, v). bt_insert k v) m [] = m"
  by (rule bt_eqI) (auto simp: fold_bt_insert_ok bt_get_fold_insert bt_ok_distinct split: option.split)

lemma bt_range_spec:
  assumes "bt_ok m" and "bt_range lo hi m = Some xs"
  shows "sorted_wrt (<) (map fst xs)" "(k, v) \<in> set xs \<longleftrightarrow> bt_get k m = Some v \<and> above lo k \<and> below hi k"
proof -
  have xs: "xs = filter (\<lambda>(k, _). above lo k \<and> below hi k) m"
    using assms(2) by (auto simp: bt_range_def split: if_splits)
  show "sorted_wrt (<) (map fst xs)"
    unfolding xs using assms(1) by (auto simp: bt_ok_def sorted_wrt_map intro: sorted_wrt_filter)
  show "(k, v) \<in> set xs \<longleftrightarrow> bt_get k m = Some v \<and> above lo k \<and> below hi k"
    unfolding xs using bt_ok_distinct [OF assms(1)]
    by (auto simp: bt_get_def dest: map_of_SomeD)
qed

end
