(* ===== verification/Wal.thy ===== *)
theory Wal
  imports Posix_Fs BTree
begin

text \<open>
  The write-ahead-log-backed store of \<^verbatim>\<open>wal/src/lib.rs\<close>.  The serialiser (\<^verbatim>\<open>postcard\<close>) and the checksum
  (\<^verbatim>\<open>crc32fast\<close>) are third-party code: they are the fields of a \<open>codec\<close>, an argument of every operation.
  \<open>codec_ok\<close> is what the code relies on, that decoding an encoded record gives it back.
\<close>

section \<open>Records and frames\<close>

datatype ('k, 'v) log_record = Set 'k 'v | Delete 'k

record ('k, 'v) codec =
  encode :: "('k, 'v) log_record \<Rightarrow> u8 list"
  decode :: "u8 list \<Rightarrow> ('k, 'v) log_record option"
  checksum :: "u8 list \<Rightarrow> u32"

definition codec_ok :: "('k, 'v) codec \<Rightarrow> bool" where
  "codec_ok cd \<longleftrightarrow> (\<forall>r. decode cd (encode cd r) = Some r)"

definition to_le_bytes :: "u32 \<Rightarrow> u8 list" where
  "to_le_bytes w = [ucast w, ucast (drop_bit 8 w), ucast (drop_bit 16 w), ucast (drop_bit 24 w)]"

definition from_le_bytes :: "u8 list \<Rightarrow> u32" where
  "from_le_bytes bs = word_rcat (rev bs)"

definition MAX_RECORD :: u32 where "MAX_RECORD = 64 * 1024 * 1024"

section \<open>The store\<close>

record ('k, 'v) store =
  log_file :: nat
  btree_map :: "('k, 'v) btree"
  store_path :: path

text \<open>The replay loop of \<^verbatim>\<open>open\<close>: \<open>rest\<close> is the file from the cursor on, \<open>file_size\<close> the counter of bytes
  left.  A returned error is the \<^verbatim>\<open>?\<close> of a failed read.\<close>

function replay ::
    "('k::linorder, 'v) codec \<Rightarrow> u8 list \<Rightarrow> nat \<Rightarrow> ('k, 'v) btree \<Rightarrow> ('k, 'v) btree io" where
  "replay cd rest file_size m s =
     (if file_size < 8 then (Inr m, s)
      else (case read_exact 4 rest s of
        (Inl e, s) \<Rightarrow> (Inl e, s)
      | (Inr (buf4, rest1), s) \<Rightarrow>
          (let len = from_le_bytes buf4 in
           if len > MAX_RECORD then (Inr m, s)
           else (case read_exact 4 rest1 s of
             (Inl e, s) \<Rightarrow> (Inl e, s)
           | (Inr (buf4_crc, rest2), s) \<Rightarrow>
               (let crc = from_le_bytes buf4_crc in
                case read_exact (unat len) rest2 s of
                  (Inl e, s) \<Rightarrow> (Inl e, s)
                | (Inr (payload, rest3), s) \<Rightarrow>
                    if checksum cd payload \<noteq> crc then (Inr m, s)
                    else (case decode cd payload of
                      None \<Rightarrow> (Inr m, s)
                    | Some (Set k v) \<Rightarrow> replay cd rest3 (file_size - (8 + unat len)) (bt_insert k v m) s
                    | Some (Delete k) \<Rightarrow> replay cd rest3 (file_size - (8 + unat len)) (bt_remove k m) s))))))"
  by pat_completeness auto
termination
  by (relation "measure (\<lambda>(cd, rest, n, m, s). n)") auto

declare replay.simps [simp del]

definition store_open :: "('k::linorder, 'v) codec \<Rightarrow> path \<Rightarrow> ('k, 'v) store io" where
  "store_open cd p =
     io_bind (path_exists (with_extension ''tmp'' p)) (\<lambda>orphan.
     io_bind (if orphan then remove_file (with_extension ''tmp'' p) else io_return ()) (\<lambda>_.
     io_bind (open_append p) (\<lambda>i.
     io_bind seek_start (\<lambda>_.
     io_bind (metadata_len i) (\<lambda>file_size.
     io_bind (\<lambda>s. replay cd (data s i) file_size [] s) (\<lambda>m.
     io_return \<lparr> log_file = i, btree_map = m, store_path = p \<rparr>))))))"

definition store_get :: "'k \<Rightarrow> ('k, 'v) store \<Rightarrow> 'v option" where
  "store_get k st = bt_get k (btree_map st)"

definition payload_len :: "u8 list \<Rightarrow> u32" where
  "payload_len payload = of_nat (length payload)"

definition write_frame :: "('k, 'v) codec \<Rightarrow> nat \<Rightarrow> ('k, 'v) log_record \<Rightarrow> unit io" where
  "write_frame cd i r =
     (let payload = encode cd r in
      io_bind (write_all_file i (to_le_bytes (payload_len payload))) (\<lambda>_.
      io_bind (write_all_file i (to_le_bytes (checksum cd payload))) (\<lambda>_.
      write_all_file i payload)))"

definition store_set ::
    "('k::linorder, 'v) codec \<Rightarrow> 'k \<Rightarrow> 'v \<Rightarrow> ('k, 'v) store \<Rightarrow> fs \<Rightarrow> (io_error + unit) \<times> ('k, 'v) store \<times> fs" where
  "store_set cd k v st s =
     (case io_bind (write_frame cd (log_file st) (Set k v)) (\<lambda>_. sync_all (log_file st)) s of
        (Inl e, s') \<Rightarrow> (Inl e, st, s')
      | (Inr _, s') \<Rightarrow> (Inr (), st\<lparr>btree_map := bt_insert k v (btree_map st)\<rparr>, s'))"

definition store_delete ::
    "('k::linorder, 'v) codec \<Rightarrow> 'k \<Rightarrow> ('k, 'v) store \<Rightarrow> fs \<Rightarrow> (io_error + unit) \<times> ('k, 'v) store \<times> fs" where
  "store_delete cd k st s =
     (case io_bind (write_frame cd (log_file st) (Delete k)) (\<lambda>_. sync_all (log_file st)) s of
        (Inl e, s') \<Rightarrow> (Inl e, st, s')
      | (Inr _, s') \<Rightarrow> (Inr (), st\<lparr>btree_map := bt_remove k (btree_map st)\<rparr>, s'))"

text \<open>\<open>None\<close>: \<^verbatim>\<open>BTreeMap::range\<close> panics.\<close>

definition store_scan :: "'k::linorder bound \<Rightarrow> 'k bound \<Rightarrow> ('k, 'v) store \<Rightarrow> ('k \<times> 'v) list option" where
  "store_scan lo hi st = bt_range lo hi (btree_map st)"

fun write_snapshot :: "('k, 'v) codec \<Rightarrow> nat \<Rightarrow> ('k, 'v) btree \<Rightarrow> unit io" where
  "write_snapshot cd i [] = io_return ()"
| "write_snapshot cd i ((k, v) # m) = io_bind (write_frame cd i (Set k v)) (\<lambda>_. write_snapshot cd i m)"

definition compact_file :: "('k, 'v) codec \<Rightarrow> ('k, 'v) store \<Rightarrow> nat io" where
  "compact_file cd st =
     (let p = store_path st; path_temp = with_extension ''tmp'' p in
      io_bind (create_file path_temp) (\<lambda>t.
      io_bind (write_snapshot cd t (btree_map st)) (\<lambda>_.
      io_bind (sync_all t) (\<lambda>_.
      (case parent p of
         None \<Rightarrow> io_fail Panicked
       | Some d \<Rightarrow> io_bind (rename_durably path_temp p d) (\<lambda>_. open_append p))))))"

definition store_compact ::
    "('k, 'v) codec \<Rightarrow> ('k, 'v) store \<Rightarrow> fs \<Rightarrow> (io_error + unit) \<times> ('k, 'v) store \<times> fs" where
  "store_compact cd st s =
     (case compact_file cd st s of
        (Inl e, s') \<Rightarrow> (Inl e, st, s')
      | (Inr i, s') \<Rightarrow> (Inr (), st\<lparr>log_file := i\<rparr>, s'))"

definition store_len :: "('k, 'v) store \<Rightarrow> nat" where
  "store_len st = length (btree_map st)"

definition store_is_empty :: "('k, 'v) store \<Rightarrow> bool" where
  "store_is_empty st \<longleftrightarrow> btree_map st = []"

end
