(* ===== verification/Wal_Log.thy ===== *)
theory Wal_Log
  imports Wal "HOL-Library.Sublist"
begin

text \<open>
  The file format: what replay makes of the bytes of a log file.  \<open>recover\<close> is replay without the system
  calls; \<open>logged\<close> is the file a sequence of acknowledged operations leaves.
\<close>

section \<open>Little-endian integers\<close>

lemma from_to_le_bytes [simp]: "from_le_bytes (to_le_bytes w) = w"
proof -
  let ?x = "uint w"
  have a: "?x = ?x mod 256 + 256 * (?x div 256)" "?x div 256 = ?x div 256 mod 256 + 256 * (?x div 65536)"
    "?x div 65536 = ?x div 65536 mod 256 + 256 * (?x div 16777216)"
    using mod_mult_div_eq [of ?x 256] mod_mult_div_eq [of "?x div 256" 256] mod_mult_div_eq [of "?x div 65536" 256]
    by (simp_all add: zdiv_zmult2_eq [symmetric])
  have b: "?x div 16777216 mod 256 = ?x div 16777216"
  proof (rule mod_pos_pos_trivial)
    have "?x < 4294967296" using uint_lt2p [of w] by simp
    then show "?x div 16777216 < 256" by presburger
    show "0 \<le> ?x div 16777216" by (simp add: pos_imp_zdiv_nonneg_iff)
  qed
  have "horner_sum uint (2 ^ 8) (to_le_bytes w) = ?x"
    using a b by (simp add: to_le_bytes_def unsigned_ucast_eq take_bit_eq_mod drop_bit_eq_div uint_div)
  then show ?thesis by (simp add: from_le_bytes_def word_rcat_def)
qed

lemma length_to_le_bytes [simp]: "length (to_le_bytes w) = 4"
  by (simp add: to_le_bytes_def)

section \<open>Replay without the file system\<close>

definition apply_record :: "('k::linorder, 'v) log_record \<Rightarrow> ('k, 'v) btree \<Rightarrow> ('k, 'v) btree" where
  "apply_record r m = (case r of Set k v \<Rightarrow> bt_insert k v m | Delete k \<Rightarrow> bt_remove k m)"

definition frame :: "('k, 'v) codec \<Rightarrow> ('k, 'v) log_record \<Rightarrow> u8 list" where
  "frame cd r = to_le_bytes (payload_len (encode cd r)) @ to_le_bytes (checksum cd (encode cd r)) @ encode cd r"

definition logged :: "('k, 'v) codec \<Rightarrow> ('k, 'v) log_record list \<Rightarrow> u8 list" where
  "logged cd rs = concat (map (frame cd) rs)"

text \<open>Records whose length replay accepts.\<close>

definition small :: "('k, 'v) codec \<Rightarrow> ('k, 'v) log_record \<Rightarrow> bool" where
  "small cd r \<longleftrightarrow> length (encode cd r) \<le> unat MAX_RECORD"

function recover :: "('k, 'v) codec \<Rightarrow> u8 list \<Rightarrow> ('k, 'v) log_record list option" where
  "recover cd bs =
     (if length bs < 8 then Some []
      else let len = from_le_bytes (take 4 bs); payload = take (unat len) (drop 8 bs) in
        if len > MAX_RECORD then Some []
        else if length bs < 8 + unat len then None
        else if checksum cd payload \<noteq> from_le_bytes (take 4 (drop 4 bs)) then Some []
        else (case decode cd payload of
                None \<Rightarrow> Some []
              | Some r \<Rightarrow> map_option (Cons r) (recover cd (drop (8 + unat len) bs))))"
  by pat_completeness auto
termination
  by (relation "measure (\<lambda>(cd, bs). length bs)") auto

declare recover.simps [simp del]

lemma read_exact_cases:
  assumes "read_exact n rest s = (r, t)"
  obtains "r = Inl Io_Failure" | "r = Inl Unexpected_Eof" "length rest < n"
    | "r = Inr (take n rest, drop n rest)" "n \<le> length rest"
  using assms unfolding read_exact_def by (elim attempt_cases) (auto split: if_splits)

definition same_files :: "fs \<Rightarrow> fs \<Rightarrow> bool" where
  "same_files s t \<longleftrightarrow> dir t = dir s \<and> disk_dir t = disk_dir s \<and> data t = data s \<and> disk_data t = disk_data s \<and>
     folders t = folders s \<and> inodes t = inodes s \<and> (plan s = [] \<longrightarrow> plan t = [])"

lemma same_files_refl [simp]: "same_files s s"
  by (simp add: same_files_def)

lemma same_files_trans: "same_files s t \<Longrightarrow> same_files t u \<Longrightarrow> same_files s u"
  by (simp add: same_files_def)

lemma take_answer_same: "take_answer s = (a, t) \<Longrightarrow> same_files s t \<and> (plan s = [] \<longrightarrow> a = Succeed)"
  by (auto simp: take_answer_def same_files_def split: list.splits)

lemma attempt_same:
  assumes "attempt m s = (r, t)" and "\<And>u. snd (m u) = u"
  shows "same_files s t \<and> (plan s = [] \<longrightarrow> m s = (r, t))"
  using assms(1)
proof (cases rule: attempt_cases)
  case (ok u)
  then have "t = u" using assms(2) [of u] by simp
  with ok take_answer_same [OF ok(1)] show ?thesis using assms(1) attempt_calm [of s m] by metis
next
  case failed
  then show ?thesis using take_answer_same assms(1) attempt_calm [of s m] by metis
qed

lemma read_exact_same:
  "read_exact n rest s = (r, t) \<Longrightarrow> same_files s t \<and> (plan s = [] \<longrightarrow> r \<noteq> Inl Io_Failure)"
  unfolding read_exact_def by (drule attempt_same) (auto split: if_splits)

text \<open>Replay computes what \<open>recover\<close> says, unless a read fails, and changes no file.\<close>

definition replayed :: "('k::linorder, 'v) log_record list option \<Rightarrow> ('k, 'v) btree \<Rightarrow> io_error + ('k, 'v) btree" where
  "replayed o' m = (case o' of None \<Rightarrow> Inl Unexpected_Eof | Some rs \<Rightarrow> Inr (fold apply_record rs m))"

lemma read_exact_steps:
  obtains (fails) t where "read_exact k bs s = (Inl Io_Failure, t)" "plan s \<noteq> []" "same_files s t"
    | (eof) t where "length bs < k" "read_exact k bs s = (Inl Unexpected_Eof, t)" "same_files s t"
    | (reads) t where "k \<le> length bs" "read_exact k bs s = (Inr (take k bs, drop k bs), t)" "same_files s t"
proof -
  obtain r t where r: "read_exact k bs s = (r, t)" by fastforce
  note same = read_exact_same [OF r]
  from r show thesis
  proof (cases rule: read_exact_cases)
    case 1
    then show thesis using fails [of t] r same by auto
  next
    case 2
    then show thesis using eof [of t] r same by auto
  next
    case 3
    then show thesis using reads [of t] r same by auto
  qed
qed

text \<open>One turn of replay with a header left to read: a read fails, the length is not acceptable, the payload is cut
  short, or it is there and the turn goes on with it.\<close>

lemma replay_turn:
  fixes rest :: "u8 list"
  defines "len \<equiv> from_le_bytes (take 4 rest)"
  assumes n: "n = length rest" "\<not> n < 8"
  obtains (fails) t where "replay cd rest n m s = (Inl Io_Failure, t)" "plan s \<noteq> []" "same_files s t"
    | (long) t where "MAX_RECORD < len" "replay cd rest n m s = (Inr m, t)" "same_files s t"
    | (short) t where "len \<le> MAX_RECORD" "n < 8 + unat len" "replay cd rest n m s = (Inl Unexpected_Eof, t)" "same_files s t"
    | (payload) t where "len \<le> MAX_RECORD" "8 + unat len \<le> n" "same_files s t"
        "replay cd rest n m s =
          (let p = take (unat len) (drop 8 rest) in
           if checksum cd p \<noteq> from_le_bytes (take 4 (drop 4 rest)) then (Inr m, t)
           else (case decode cd p of None \<Rightarrow> (Inr m, t)
             | Some r \<Rightarrow> replay cd (drop (8 + unat len) rest) (n - (8 + unat len)) (apply_record r m) t))"
proof (cases rule: read_exact_steps [of 4 rest s])
  case (fails t)
  then show thesis using n by (intro that(1) [of t]) (simp_all add: replay.simps [of cd rest])
next
  case (reads s1)
  note r1 = this
  show thesis
  proof (cases "MAX_RECORD < len")
    case True
    then show thesis using n reads by (intro that(2) [of s1]) (simp_all add: replay.simps [of cd rest] len_def Let_def)
  next
    case len: False
    show thesis
    proof (cases rule: read_exact_steps [of 4 "drop 4 rest" s1])
      case (fails t)
      have "plan s \<noteq> []" using fails(2) r1(3) by (auto simp: same_files_def)
      then show thesis using n(2) r1(2) len fails(1) same_files_trans [OF r1(3) fails(3)]
        by (intro that(1) [of t]) (simp_all add: replay.simps [of cd rest] len_def Let_def)
    next
      case (reads s2)
      note r2 = this
      note same2 = same_files_trans [OF r1(3) r2(3)]
      show thesis
      proof (cases rule: read_exact_steps [of "unat len" "drop 8 rest" s2])
        case (fails t)
        have "plan s \<noteq> []" using fails(2) same2 by (auto simp: same_files_def)
        then show thesis using n(2) r1(2) r2(2) len fails(1) same_files_trans [OF same2 fails(3)]
          by (intro that(1) [of t]) (simp_all add: replay.simps [of cd rest] len_def Let_def)
      next
        case (eof t)
        have "len \<le> MAX_RECORD" "n < 8 + unat len" using len eof(1) n by auto
        then show thesis using n(2) r1(2) r2(2) eof(2) same_files_trans [OF same2 eof(3)]
          by (intro that(3) [of t]) (simp_all add: replay.simps [of cd rest] len_def Let_def)
      next
        case (reads s3)
        have l: "len \<le> MAX_RECORD" "8 + unat len \<le> n" using len reads(1) n by auto
        have "replay cd rest n m s =
          (let p = take (unat len) (drop 8 rest) in
           if checksum cd p \<noteq> from_le_bytes (take 4 (drop 4 rest)) then (Inr m, s3)
           else (case decode cd p of None \<Rightarrow> (Inr m, s3)
             | Some r \<Rightarrow> replay cd (drop (8 + unat len) rest) (n - (8 + unat len)) (apply_record r m) s3))"
          using n(2) r1(2) r2(2) reads(2) len
          by (subst replay.simps)
            (simp add: len_def Let_def apply_record_def add.commute split: option.split log_record.split)
        with l same_files_trans [OF same2 reads(3)] show thesis by (intro that(4) [of s3])
      qed
    qed (use n in simp)
  qed
qed (use n in simp)

lemma replay_recover:
  "replay cd rest n m s = (r, t) \<Longrightarrow> n = length rest \<Longrightarrow>
     same_files s t \<and> (r = replayed (recover cd rest) m \<or> (plan s \<noteq> [] \<and> r = Inl Io_Failure))"
proof (induction n arbitrary: rest m s rule: less_induct)
  case (less n)
  let ?len = "from_le_bytes (take 4 rest)"
  let ?p = "take (unat ?len) (drop 8 rest)" and ?rest = "drop (8 + unat ?len) rest"
  show ?case
  proof (cases "n < 8")
    case True
    with less.prems show ?thesis by (auto simp: replay.simps [of cd rest] recover.simps [of cd rest] replayed_def)
  next
    case big: False
    from less.prems(2) this show ?thesis
    proof (cases rule: replay_turn [of n rest cd m s])
      case (payload u)
      have rec: "recover cd rest = (if checksum cd ?p \<noteq> from_le_bytes (take 4 (drop 4 rest)) then Some []
          else case decode cd ?p of None \<Rightarrow> Some [] | Some r \<Rightarrow> map_option (Cons r) (recover cd ?rest))"
        using less.prems(2) big payload(1,2) by (subst recover.simps) (auto simp: Let_def)
      show ?thesis
      proof (cases "checksum cd ?p \<noteq> from_le_bytes (take 4 (drop 4 rest)) \<or> decode cd ?p = None")
        case True
        then show ?thesis using payload(3,4) rec less.prems(1) by (auto simp: replayed_def Let_def)
      next
        case False
        then obtain q where q: "decode cd ?p = Some q" "checksum cd ?p = from_le_bytes (take 4 (drop 4 rest))" by auto
        then have "replay cd ?rest (n - (8 + unat ?len)) (apply_record q m) u = (r, t)"
          using payload(4) less.prems(1) by (simp add: Let_def)
        from less.IH [OF _ this] big less.prems(2)
        have "same_files u t \<and> (r = replayed (recover cd ?rest) (apply_record q m) \<or> (plan u \<noteq> [] \<and> r = Inl Io_Failure))"
          by simp
        with rec q payload(3) same_files_trans [OF payload(3)] show ?thesis
          by (auto simp: replayed_def same_files_def split: option.splits)
      qed
    qed (use less.prems big in \<open>auto simp: recover.simps [of cd rest] replayed_def Let_def\<close>)
  qed
qed

section \<open>Recovering logged records\<close>

lemma payload_len_small: "small cd r \<Longrightarrow> unat (payload_len (encode cd r)) = length (encode cd r)"
  unfolding small_def payload_len_def MAX_RECORD_def by (subst unat_of_nat_small) auto

lemma length_frame: "length (frame cd r) = 8 + length (encode cd r)"
  by (simp add: frame_def)

lemma recover_short: "length bs < 8 \<Longrightarrow> recover cd bs = Some []"
  by (simp add: recover.simps)

lemma recover_frame:
  assumes "codec_ok cd" and "small cd r"
  shows "recover cd (frame cd r @ bs) = map_option (Cons r) (recover cd bs)"
proof -
  let ?p = "encode cd r" and ?b = "frame cd r @ bs"
  have h: "take 4 ?b = to_le_bytes (payload_len ?p)" "take 4 (drop 4 ?b) = to_le_bytes (checksum cd ?p)"
    "take (length ?p) (drop 8 ?b) = ?p" "drop (8 + length ?p) ?b = bs" "8 + length ?p \<le> length ?b"
    by (simp_all add: frame_def)
  have u: "unat (payload_len ?p) = length ?p" by (rule payload_len_small [OF assms(2)])
  have "\<not> payload_len ?p > MAX_RECORD"
    using assms(2) u by (simp add: word_less_nat_alt small_def)
  with h u assms(1) show ?thesis
    by (subst recover.simps) (simp add: Let_def codec_ok_def del: drop_drop drop_append take_append)
qed

lemma recover_logged:
  "codec_ok cd \<Longrightarrow> list_all (small cd) rs \<Longrightarrow>
     recover cd (logged cd rs @ bs) = map_option (\<lambda>ts. rs @ ts) (recover cd bs)"
proof (induction rs)
  case Nil
  then show ?case by (cases "recover cd bs") (simp_all add: logged_def)
next
  case (Cons r rs)
  then show ?case by (cases "recover cd bs") (simp_all add: logged_def recover_frame)
qed

lemma recover_exact: "codec_ok cd \<Longrightarrow> list_all (small cd) rs \<Longrightarrow> recover cd (logged cd rs) = Some rs"
  using recover_logged [of cd rs "[]"] by (simp add: recover_short)

text \<open>A proper part of a frame never yields a record.\<close>

lemma recover_torn_frame:
  assumes "small cd r" and "n < length (frame cd r)"
  shows "recover cd (take n (frame cd r)) = (if n < 8 then Some [] else None)"
proof (cases "n < 8")
  case True
  then show ?thesis by (simp add: recover_short)
next
  case False
  let ?p = "encode cd r" and ?b = "take n (frame cd r)"
  have h: "take 4 ?b = to_le_bytes (payload_len ?p)"
    using False by (simp add: frame_def take_append)
  have u: "unat (payload_len ?p) = length ?p" by (rule payload_len_small [OF assms(1)])
  moreover have "\<not> payload_len ?p > MAX_RECORD"
    using assms(1) u by (simp add: word_less_nat_alt small_def)
  moreover have "length ?b < 8 + length ?p" "\<not> length ?b < 8" using assms(2) False by (simp_all add: length_frame)
  ultimately show ?thesis using h False
    by (subst recover.simps) (simp add: Let_def)
qed

lemma take_logged:
  "n \<le> length (logged cd rs) \<Longrightarrow>
     (\<exists>k \<le> length rs. take n (logged cd rs) = logged cd (take k rs)) \<or>
     (\<exists>k m. k < length rs \<and> m < length (frame cd (rs ! k)) \<and>
        take n (logged cd rs) = logged cd (take k rs) @ take m (frame cd (rs ! k)))"
proof (induction rs arbitrary: n)
  case Nil
  then show ?case by (simp add: logged_def)
next
  case (Cons r rs)
  show ?case
  proof (cases "n < length (frame cd r)")
    case True
    then have "take n (logged cd (r # rs)) = logged cd (take 0 (r # rs)) @ take n (frame cd ((r # rs) ! 0))"
      by (simp add: logged_def)
    with True show ?thesis by (metis length_greater_0_conv list.distinct(1) nth_Cons_0)
  next
    case False
    then have t: "take n (logged cd (r # rs)) = frame cd r @ take (n - length (frame cd r)) (logged cd rs)"
      by (simp add: logged_def)
    have "n - length (frame cd r) \<le> length (logged cd rs)" using Cons.prems by (simp add: logged_def)
    from Cons.IH [OF this] show ?thesis
    proof
      assume "\<exists>k\<le>length rs. take (n - length (frame cd r)) (logged cd rs) = logged cd (take k rs)"
      then obtain k where "k \<le> length rs" "take (n - length (frame cd r)) (logged cd rs) = logged cd (take k rs)" by blast
      with t show ?thesis by (intro disjI1 exI [of _ "Suc k"]) (simp add: logged_def)
    next
      assume "\<exists>k m. k < length rs \<and> m < length (frame cd (rs ! k)) \<and>
        take (n - length (frame cd r)) (logged cd rs) = logged cd (take k rs) @ take m (frame cd (rs ! k))"
      then obtain k m where "k < length rs" "m < length (frame cd (rs ! k))"
        "take (n - length (frame cd r)) (logged cd rs) = logged cd (take k rs) @ take m (frame cd (rs ! k))" by blast
      with t show ?thesis by (intro disjI2 exI [of _ "Suc k"] exI [of _ m]) (simp add: logged_def)
    qed
  qed
qed

lemma recover_truncated:
  assumes "codec_ok cd" and "list_all (small cd) rs"
  shows "recover cd (take n (logged cd rs)) = None \<or>
         (\<exists>k \<le> length rs. recover cd (take n (logged cd rs)) = Some (take k rs))"
proof (cases "n \<le> length (logged cd rs)")
  case True
  have sm: "list_all (small cd) (take k rs)" for k
    using assms(2) by (auto simp: list_all_iff dest: in_set_takeD)
  from take_logged [OF True] show ?thesis
  proof
    assume "\<exists>k\<le>length rs. take n (logged cd rs) = logged cd (take k rs)"
    with recover_exact [OF assms(1) sm] show ?thesis by auto
  next
    assume "\<exists>k m. k < length rs \<and> m < length (frame cd (rs ! k)) \<and>
        take n (logged cd rs) = logged cd (take k rs) @ take m (frame cd (rs ! k))"
    then obtain k m where km: "k < length rs" "m < length (frame cd (rs ! k))"
      "take n (logged cd rs) = logged cd (take k rs) @ take m (frame cd (rs ! k))" by blast
    have "small cd (rs ! k)" using assms(2) km(1) by (simp add: list_all_length)
    from recover_torn_frame [OF this km(2)] km recover_logged [OF assms(1) sm] show ?thesis
      by (auto simp: intro: exI [of _ k])
  qed
next
  case False
  then have "take n (logged cd rs) = logged cd rs" by simp
  with recover_exact [OF assms] show ?thesis by auto
qed

end
