(* ===== verification/Wal_Store.thy ===== *)
theory Wal_Store
  imports Wal_Log
begin

text \<open>
  The store on top of the file format: what an acknowledged operation leaves on stable storage, whatever
  system calls fail on the way, and what reopening after a crash finds.
\<close>

section \<open>Writing frames\<close>

text \<open>A computation that only appends a prefix of \<open>bs\<close> to file \<open>i\<close>, all of it when it succeeds.\<close>

definition appends :: "nat \<Rightarrow> u8 list \<Rightarrow> fs \<Rightarrow> io_error + 'a \<Rightarrow> fs \<Rightarrow> bool" where
  "appends i bs s r t \<longleftrightarrow>
     (\<exists>w. prefix w bs \<and> data t = (data s)(i := data s i @ w) \<and> (\<not> isl r \<longrightarrow> w = bs)) \<and>
     dir t = dir s \<and> disk_dir t = disk_dir s \<and> disk_data t = disk_data s \<and> folders t = folders s \<and>
     inodes t = inodes s \<and> (plan s = [] \<longrightarrow> plan t = [] \<and> \<not> isl r)"

lemma appends_stopped:
  "prefix w bs \<Longrightarrow> data t = (data s)(i := data s i @ w) \<Longrightarrow> isl r \<Longrightarrow> plan s \<noteq> [] \<Longrightarrow>
     dir t = dir s \<Longrightarrow> disk_dir t = disk_dir s \<Longrightarrow> disk_data t = disk_data s \<Longrightarrow> folders t = folders s \<Longrightarrow>
     inodes t = inodes s \<Longrightarrow> appends i bs s r t"
  by (auto simp: appends_def)

lemma appends_write:
  assumes "write_all_file i bs s = (r, t)"
  shows "appends i bs s r t"
proof (cases "take_answer s")
  case (Pair a u)
  note f = take_answer_fields [OF Pair]
  have p: "plan s \<noteq> []" if "a \<noteq> Succeed" using Pair that by (auto simp: take_answer_def split: list.splits)
  show ?thesis
  proof (cases a)
    case Succeed
    with assms Pair f show ?thesis
      by (auto simp: write_all_file_def appends_def take_answer_def split: list.splits)
  next
    case Fail
    with assms Pair f p show ?thesis
      by (intro appends_stopped [where w = "[]"]) (auto simp: write_all_file_def)
  next
    case (Partial n)
    with assms Pair f p show ?thesis
      by (intro appends_stopped [where w = "take n bs"]) (auto simp: write_all_file_def take_is_prefix)
  qed
qed

lemma appends_bind:
  assumes "io_bind m f s = (r, t)" and "\<And>r t. m s = (r, t) \<Longrightarrow> appends i a s r t"
    and "\<And>x u. m s = (Inr x, u) \<Longrightarrow> f x u = (r, t) \<Longrightarrow> appends i b u r t"
  shows "appends i (a @ b) s r t"
  using assms(1)
proof (cases rule: io_bind_cases)
  case (failed e)
  from assms(2) [OF failed(1)] obtain w where "prefix w a" "data t = (data s)(i := data s i @ w)" "plan s \<noteq> []"
    "dir t = dir s" "disk_dir t = disk_dir s" "disk_data t = disk_data s" "folders t = folders s" "inodes t = inodes s"
    by (auto simp: appends_def)
  then show ?thesis using failed(2) by (intro appends_stopped [where w = w]) auto
next
  case (ok x u)
  from assms(2) [OF ok(1)] have "data u = (data s)(i := data s i @ a)" by (auto simp: appends_def)
  with assms(2) [OF ok(1)] assms(3) [OF ok] show ?thesis
    by (auto simp: appends_def) (metis append.assoc same_prefix_prefix)+
qed

lemma appends_frame: "write_frame cd i r s = (res, t) \<Longrightarrow> appends i (frame cd r) s res t"
  unfolding write_frame_def frame_def Let_def
  by (rule appends_bind, assumption, erule appends_write)
    (rule appends_bind, assumption, erule appends_write, erule appends_write)

lemma appends_snapshot:
  "write_snapshot cd i m s = (res, t) \<Longrightarrow> appends i (logged cd (map (\<lambda>(k, v). Set k v) m)) s res t"
proof (induction m arbitrary: s)
  case Nil
  then show ?case by (auto simp: logged_def io_return_def appends_def)
next
  case (Cons kv m)
  obtain k v where kv: "kv = (k, v)" by (cases kv)
  have "appends i (frame cd (Set k v) @ logged cd (map (\<lambda>(k, v). Set k v) m)) s res t"
    by (rule appends_bind [OF Cons.prems [unfolded kv write_snapshot.simps]]) (auto intro: appends_frame Cons.IH)
  then show ?case by (simp add: logged_def kv)
qed

section \<open>The state of a healthy store\<close>

text \<open>The file holds the acknowledged records, synced; the map is what they say; the path's entry is the
  file, also on stable storage.  Inodes are numbered in order, and there are no hard links.\<close>

definition inodes_ok :: "fs \<Rightarrow> bool" where
  "inodes_ok s \<longleftrightarrow> (\<forall>p i. dir s p = Some i \<longrightarrow> i < inodes s) \<and>
     (\<forall>p q i. dir s p = Some i \<longrightarrow> dir s q = Some i \<longrightarrow> p = q)"

definition path_ok :: "path \<Rightarrow> fs \<Rightarrow> bool" where
  "path_ok p s \<longleftrightarrow> in_folder s p \<and> in_folder s (with_extension ''tmp'' p) \<and> with_extension ''tmp'' p \<noteq> p"

definition store_ok :: "('k::linorder, 'v) codec \<Rightarrow> ('k, 'v) store \<Rightarrow> fs \<Rightarrow> bool" where
  "store_ok cd st s \<longleftrightarrow>
     (\<exists>rs. list_all (small cd) rs \<and> data s (log_file st) = logged cd rs \<and>
        disk_data s (log_file st) = logged cd rs \<and> btree_map st = fold apply_record rs []) \<and>
     dir s (store_path st) = Some (log_file st) \<and> disk_dir s (store_path st) = Some (log_file st) \<and>
     path_ok (store_path st) s \<and> inodes_ok s"

lemma bt_ok_apply: "bt_ok m \<Longrightarrow> bt_ok (fold apply_record rs m)"
  by (induction rs arbitrary: m) (auto simp: apply_record_def split: log_record.split)

lemma in_folder_cong: "folders t = folders s \<Longrightarrow> in_folder t p = in_folder s p"
  by (simp add: in_folder_def split: option.split)

lemma path_ok_cong: "folders t = folders s \<Longrightarrow> path_ok p t = path_ok p s"
  by (simp add: path_ok_def in_folder_cong [of t s])

section \<open>Opening\<close>

text \<open>Opening without failures: the orphan is gone, the file is replayed.\<close>

lemma open_calm:
  assumes "plan s = []" and "path_ok p s" and "dir s p = Some i"
  shows "\<exists>t. store_open cd p s =
      (case replayed (recover cd (data s i)) [] of
         Inl e \<Rightarrow> (Inl e, t)
       | Inr m \<Rightarrow> (Inr \<lparr> log_file = i, btree_map = m, store_path = p \<rparr>, t)) \<and>
    dir t = (dir s)(with_extension ''tmp'' p := None) \<and> disk_dir t = disk_dir s \<and> data t = data s \<and>
    disk_data t = disk_data s \<and> folders t = folders s \<and> inodes t = inodes s \<and> plan t = []"
proof -
  let ?q = "with_extension ''tmp'' p"
  define u where "u = s\<lparr>dir := (dir s)(?q := None)\<rparr>"
  from assms(2) have q: "?q \<noteq> p" "in_folder s p" "\<not> folders s ?q"
    by (auto simp: path_ok_def in_folder_def split: option.splits)
  have ru: "io_bind (path_exists ?q) (\<lambda>orphan. io_bind (if orphan then remove_file ?q else io_return ()) k) s = k () u"
    for k :: "unit \<Rightarrow> 'c io"
  proof (cases "dir s ?q")
    case None
    then have "(dir s)(?q := None) = dir s" by (simp add: fun_upd_idem)
    then have "u = s" by (simp add: u_def)
    with None q assms(1) show ?thesis
      by (simp add: io_bind_def path_exists_def take_answer_calm io_return_def)
  next
    case (Some j)
    with q assms(1) show ?thesis
      by (simp add: wal_simps take_answer_calm attempt_calm u_def)
  qed
  obtain r t where rt: "replay cd (data u i) (length (data u i)) [] u = (r, t)" by fastforce
  have pu: "plan u = []" "dir u p = Some i" "in_folder u p" "data u = data s"
    using assms(1,3) q in_folder_cong [of u s p] by (auto simp: u_def)
  from replay_recover [OF rt refl] pu have r: "r = replayed (recover cd (data s i)) []" "same_files u t" by auto
  have "store_open cd p s = (case r of Inl e \<Rightarrow> (Inl e, t)
       | Inr m \<Rightarrow> (Inr \<lparr> log_file = i, btree_map = m, store_path = p \<rparr>, t))"
    unfolding store_open_def ru using pu rt
    by (simp add: io_bind_def open_append_def attempt_calm seek_start_def io_return_def metadata_len_def
        split: sum.split)
  with r pu(1) show ?thesis by (intro exI [of _ t]) (auto simp: same_files_def u_def)
qed

lemma open_logged:
  assumes "codec_ok cd" and "list_all (small cd) rs" and "plan s = []" and "path_ok p s"
    and "dir s p = Some i" and "data s i = logged cd rs"
  shows "\<exists>t. store_open cd p s = (Inr \<lparr> log_file = i, btree_map = fold apply_record rs [], store_path = p \<rparr>, t)"
  using open_calm [OF assms(3-5), of cd] recover_exact [OF assms(1,2)] assms(6)
  by (auto simp: replayed_def)

text \<open>Reopening finds the map \<open>m\<close>, after whatever crash.\<close>

definition recoverable :: "('k::linorder, 'v) codec \<Rightarrow> path \<Rightarrow> ('k, 'v) btree \<Rightarrow> fs \<Rightarrow> bool" where
  "recoverable cd p m s \<longleftrightarrow>
     (\<forall>t. crash s t \<longrightarrow> (\<exists>st u. store_open cd p t = (Inr st, u) \<and> btree_map st = m))"

lemma recoverableI:
  assumes "codec_ok cd" and "path_ok p s"
    and "\<And>i. dir s p = Some i \<or> disk_dir s p = Some i \<Longrightarrow>
      \<exists>rs. list_all (small cd) rs \<and> data s i = logged cd rs \<and> disk_data s i = logged cd rs \<and> fold apply_record rs [] = m"
    and "dir s p \<noteq> None" "disk_dir s p \<noteq> None"
  shows "recoverable cd p m s"
  unfolding recoverable_def
proof (intro allI impI)
  fix t
  assume cr: "crash s t"
  then obtain i where i: "dir t p = Some i" "dir s p = Some i \<or> disk_dir s p = Some i"
    using assms(4,5) unfolding crash_def by (metis not_None_eq)
  from assms(3) [OF i(2)] obtain rs where rs: "list_all (small cd) rs" "data s i = logged cd rs"
      "disk_data s i = logged cd rs" "fold apply_record rs [] = m" by blast
  from cr rs(2,3) have "data t i = logged cd rs" "plan t = []" "path_ok p t"
    using assms(2) path_ok_cong [of t s p] unfolding crash_def by (auto simp: survives_def)
  from open_logged [OF assms(1) rs(1) this(2,3) i(1) this(1)] rs(4)
  show "\<exists>st u. store_open cd p t = (Inr st, u) \<and> btree_map st = m" by auto
qed

lemma store_recoverable:
  "codec_ok cd \<Longrightarrow> store_ok cd st s \<Longrightarrow> recoverable cd (store_path st) (btree_map st) s"
proof (rule recoverableI)
  fix i
  assume ok: "store_ok cd st s" and i: "dir s (store_path st) = Some i \<or> disk_dir s (store_path st) = Some i"
  then have "i = log_file st" by (auto simp: store_ok_def)
  with ok show "\<exists>rs. list_all (small cd) rs \<and> data s i = logged cd rs \<and> disk_data s i = logged cd rs \<and>
      fold apply_record rs [] = btree_map st"
    unfolding store_ok_def by (elim conjE exE) (rename_tac rs, rule_tac x = rs in exI, simp)
qed (simp_all add: store_ok_def)

section \<open>Operations\<close>

lemma take_answer_plan: "take_answer s = (a, u) \<Longrightarrow> u = s\<lparr>plan := plan u\<rparr>"
  by (auto simp: take_answer_def split: list.splits)

lemma sync_cases:
  assumes "sync_all i s = (r, t)"
  obtains "r = Inr ()" "\<exists>as. t = s\<lparr>plan := as, disk_data := (disk_data s)(i := data s i)\<rparr>"
    | "r = Inl Io_Failure" "\<exists>as. t = s\<lparr>plan := as\<rparr>"
  using assms unfolding sync_all_def
proof (cases rule: attempt_cases)
  case (ok u)
  have "t = u\<lparr>disk_data := (disk_data u)(i := data u i)\<rparr>" "r = Inr ()" using ok(2) by auto
  moreover have "u = s\<lparr>plan := plan u\<rparr>" by (rule take_answer_plan [OF ok(1)])
  ultimately have "t = s\<lparr>plan := plan u, disk_data := (disk_data s)(i := data s i)\<rparr>"
    by (metis (no_types, lifting) fs.select_convs fs.update_convs fs.surjective)
  with \<open>r = Inr ()\<close> that(1) show ?thesis by blast
next
  case failed
  then show ?thesis using take_answer_plan that(2) by blast
qed

lemma small_append: "list_all (small cd) rs \<Longrightarrow> small cd r \<Longrightarrow> list_all (small cd) (rs @ [r])"
  by simp

lemma acknowledged_append:
  assumes ok: "store_ok cd st s" and "small cd r"
    and w: "io_bind (write_frame cd (log_file st) r) (\<lambda>_. sync_all (log_file st)) s = (Inr (), t)"
  shows "store_ok cd (st\<lparr>btree_map := apply_record r (btree_map st)\<rparr>) t"
  using w
proof (cases rule: io_bind_cases)
  case (ok x u)
  from assms(1) obtain rs where rs: "list_all (small cd) rs" "data s (log_file st) = logged cd rs"
    "btree_map st = fold apply_record rs []" by (auto simp: store_ok_def)
  from appends_frame [OF ok(1)] rs(2) have u: "data u (log_file st) = logged cd (rs @ [r])"
    "dir u = dir s" "disk_dir u = disk_dir s" "folders u = folders s" "inodes u = inodes s"
    by (auto simp: appends_def logged_def)
  from ok(2) obtain as where t: "t = u\<lparr>plan := as, disk_data := (disk_data u)(log_file st := data u (log_file st))\<rparr>"
    by (auto elim: sync_cases)
  have "path_ok (store_path st) t = path_ok (store_path st) s" using u t by (intro path_ok_cong) simp
  with assms(1,2) rs u t show ?thesis unfolding store_ok_def
    by (intro conjI exI [of _ "rs @ [r]"]) (auto simp: inodes_ok_def)
qed auto

text \<open>What a reopened store can show after a failed operation: the acknowledged map, possibly followed by
  records replay finds in the bytes behind it.\<close>

definition extends :: "('k::linorder, 'v) codec \<Rightarrow> path \<Rightarrow> ('k, 'v) btree \<Rightarrow> fs \<Rightarrow> bool" where
  "extends cd p m s \<longleftrightarrow>
     (\<forall>t st u. crash s t \<longrightarrow> store_open cd p t = (Inr st, u) \<longrightarrow> (\<exists>ex. btree_map st = fold apply_record ex m))"

lemma recoverable_extends: "recoverable cd p m s \<Longrightarrow> extends cd p m s"
  unfolding recoverable_def extends_def by (metis Pair_inject fold_simps(1) sum.inject(2))

lemma failed_append:
  assumes cd: "codec_ok cd" and ok: "store_ok cd st s"
    and w: "io_bind (write_frame cd (log_file st) r) (\<lambda>_. sync_all (log_file st)) s = (Inl e, t)"
  shows "extends cd (store_path st) (btree_map st) t"
proof -
  from ok obtain rs where rs: "list_all (small cd) rs" "data s (log_file st) = logged cd rs"
    "disk_data s (log_file st) = logged cd rs" "btree_map st = fold apply_record rs []" by (auto simp: store_ok_def)
  from w have t: "(\<exists>w. data t (log_file st) = logged cd rs @ w) \<and> disk_data t (log_file st) = logged cd rs \<and>
      dir t = dir s \<and> disk_dir t = disk_dir s \<and> folders t = folders s"
  proof (cases rule: io_bind_cases)
    case (failed e')
    with appends_frame [OF failed(1)] rs show ?thesis by (auto simp: appends_def)
  next
    case (ok x u)
    from ok(2) obtain as where "t = u\<lparr>plan := as\<rparr>" by (auto elim: sync_cases)
    with appends_frame [OF ok(1)] rs show ?thesis by (auto simp: appends_def)
  qed
  show ?thesis unfolding extends_def
  proof (intro allI impI)
    fix t' st' u
    assume cr: "crash t t'" and o': "store_open cd (store_path st) t' = (Inr st', u)"
    from ok t cr have d: "dir t' (store_path st) = Some (log_file st)"
      unfolding crash_def store_ok_def by metis
    from ok t cr have p: "plan t' = []" "path_ok (store_path st) t'"
      using path_ok_cong [of t' s] unfolding crash_def store_ok_def by auto
    have "survives (logged cd rs) (data t (log_file st)) (data t' (log_file st))"
      using cr t unfolding crash_def by metis
    with t have "take (length (logged cd rs)) (data t' (log_file st)) = logged cd rs"
      by (auto simp: survives_def split: if_splits)
    then obtain junk where "data t' (log_file st) = logged cd rs @ junk" by (metis append_take_drop_id)
    then have "recover cd (data t' (log_file st)) = map_option (\<lambda>ts. rs @ ts) (recover cd junk)"
      using recover_logged [OF cd rs(1)] by simp
    with open_calm [OF p d, of cd] o' rs(4) show "\<exists>ex. btree_map st' = fold apply_record ex (btree_map st)"
      by (auto simp: replayed_def split: option.splits)
  qed
qed

section \<open>Compaction\<close>

definition snapshot :: "('k::linorder, 'v) btree \<Rightarrow> ('k, 'v) log_record list" where
  "snapshot m = map (\<lambda>(k, v). Set k v) m"

lemma apply_snapshot: "bt_ok m \<Longrightarrow> fold apply_record (snapshot m) [] = m"
proof -
  have "fold apply_record (snapshot m) acc = fold (\<lambda>(k, v). bt_insert k v) m acc" for acc
    by (induction m arbitrary: acc) (auto simp: snapshot_def apply_record_def)
  then show "bt_ok m \<Longrightarrow> ?thesis" by (simp add: fold_bt_insert)
qed

lemma entries_logged: "(k, v) \<in> set (fold apply_record rs m) \<Longrightarrow> (k, v) \<in> set m \<or> Set k v \<in> set rs"
proof (induction rs arbitrary: m)
  case (Cons r rs)
  from Cons.IH [of "apply_record r m"] Cons.prems show ?case
  proof (cases r)
    case (Set a b)
    then show ?thesis using Cons.IH [of "bt_insert a b m"] Cons.prems set_bt_insert [of a b m]
      by (auto simp: apply_record_def)
  qed (auto simp: apply_record_def bt_remove_def)
qed simp

lemma small_snapshot:
  assumes "list_all (small cd) rs" and "m = fold apply_record rs []"
  shows "list_all (small cd) (snapshot m)"
  using assms entries_logged [of _ _ rs "[]"] by (fastforce simp: list_all_iff snapshot_def)

text \<open>The steps of a compaction, seen from the store: up to the rename the entry is the old file, from the
  rename on the new one, and both hold the same map.\<close>

lemma create_cases:
  assumes "create_file q s = (r, t)" and "inodes_ok s"
  obtains e where "r = Inl e" "\<exists>as. t = s\<lparr>plan := as\<rparr>"
    | j where "r = Inr j" "dir t = (dir s)(q \<mapsto> j)" "disk_dir t = disk_dir s" "data t j = []"
      "\<And>i. i \<noteq> j \<Longrightarrow> data t i = data s i" "\<And>i. i \<noteq> j \<Longrightarrow> disk_data t i = disk_data s i"
      "folders t = folders s" "inodes_ok t" "\<And>p. p \<noteq> q \<Longrightarrow> dir s p \<noteq> Some j"
  using assms(1) unfolding create_file_def
proof (cases rule: attempt_cases)
  case (ok u)
  note f = take_answer_fields [OF ok(1)] and p = take_answer_plan [OF ok(1)]
  have inu: "inodes_ok u" using assms(2) f by (simp add: inodes_ok_def)
  show ?thesis
  proof (cases "in_folder u q")
    case False
    with ok(2) p that(1) show ?thesis by auto
  next
    case True
    show ?thesis
    proof (cases "dir u q")
      case None
      with True ok(2) have r: "r = Inr (inodes u)"
        "t = u\<lparr>dir := (dir u)(q \<mapsto> inodes u), data := (data u)(inodes u := []),
               disk_data := (disk_data u)(inodes u := []), inodes := inodes u + 1\<rparr>"
        by (auto simp: new_file_def)
      show ?thesis
      proof (rule that(2) [OF r(1)])
        show "inodes_ok t" using inu by (fastforce simp: r(2) inodes_ok_def)
        show "dir s p \<noteq> Some (inodes u)" for p using assms(2) f by (fastforce simp: inodes_ok_def)
      qed (simp_all add: r(2) f)
    next
      case (Some j)
      with True ok(2) have r: "r = Inr j" "t = u\<lparr>data := (data u)(j := [])\<rparr>" by auto
      show ?thesis
      proof (rule that(2) [OF r(1)])
        show "dir t = (dir s)(q \<mapsto> j)" using Some f by (simp add: r(2) fun_upd_idem)
        show "inodes_ok t" using inu by (simp add: r(2) inodes_ok_def)
        show "dir s p \<noteq> Some j" if "p \<noteq> q" for p using assms(2) Some f that by (auto simp: inodes_ok_def)
      qed (simp_all add: r(2) f)
    qed
  qed
next
  case failed
  then show ?thesis using take_answer_plan that(1) by blast
qed

lemma rename_cases:
  assumes "rename_file q p s = (r, t)" and "dir s q = Some j" and "dir s p \<noteq> Some j"
  obtains e where "r = Inl e" "\<exists>as. t = s\<lparr>plan := as\<rparr>"
    | as where "r = Inr ()" "t = s\<lparr>plan := as, dir := (dir s)(q := None, p \<mapsto> j)\<rparr>"
  using assms(1) unfolding rename_file_def
proof (cases rule: attempt_cases)
  case (ok u)
  note p = take_answer_plan [OF ok(1)]
  have "dir u = dir s" using take_answer_fields [OF ok(1)] by simp
  with ok(2) assms(2,3) have "r = Inr ()" "t = u\<lparr>dir := (dir s)(q := None, p \<mapsto> j)\<rparr>" by auto
  with p that(2) [of "plan u"] show ?thesis by (metis fs.update_convs fs.surjective)
next
  case failed
  then show ?thesis using take_answer_plan that(1) by blast
qed

lemma inodes_ok_move:
  assumes ok: "inodes_ok s" and q: "dir s q = Some j" and t: "dir t = (dir s)(q := None, p \<mapsto> j)"
    and n: "inodes t = inodes s"
  shows "inodes_ok t"
proof -
  have src: "\<exists>x'. dir s x' = Some i \<and> (x' = x \<or> (x = p \<and> x' = q \<and> i = j))" if "dir t x = Some i" for x i
    using that q t by (cases "x = p"; cases "x = q") auto
  have lt: "i < inodes t" if "dir t x = Some i" for x i
    using src [OF that] ok n by (auto simp: inodes_ok_def)
  have j: "x = p" if "dir t x = Some j" for x
  proof (rule ccontr)
    assume "x \<noteq> p"
    with that t have "dir s x = Some j" "x \<noteq> q" by (auto split: if_splits)
    with ok q show False by (auto simp: inodes_ok_def)
  qed
  have "x = y" if "dir t x = Some i" "dir t y = Some i" for x y i
  proof (cases "i = j")
    case True
    with that j show ?thesis by blast
  next
    case False
    with that t have "dir s x = Some i" "dir s y = Some i" by (auto split: if_splits)
    with ok show ?thesis unfolding inodes_ok_def by blast
  qed
  with lt show ?thesis unfolding inodes_ok_def by blast
qed

lemma fsync_dir_cases:
  assumes "fsync_dir d s = (r, t)"
  obtains e where "r = Inl e" "\<exists>as. t = s\<lparr>plan := as\<rparr>"
    | as where "r = Inr ()" "t = s\<lparr>plan := as, disk_dir := (\<lambda>p. if parent p = Some d then dir s p else disk_dir s p)\<rparr>"
  using assms unfolding fsync_dir_def
proof (cases rule: io_bind_cases)
  case (failed e)
  from failed(1) have "\<exists>as. t = s\<lparr>plan := as\<rparr>"
  proof (cases rule: attempt_cases)
    case (ok u)
    then show ?thesis using take_answer_plan [OF ok(1)] by (auto split: if_splits)
  qed (use take_answer_plan in blast)
  with failed that(1) show ?thesis by blast
next
  case (ok x u)
  from ok(1) have u: "\<exists>as. u = s\<lparr>plan := as\<rparr>"
  proof (cases rule: attempt_cases)
    case (ok v)
    then show ?thesis using take_answer_plan [OF ok(1)] by (auto split: if_splits)
  qed (use take_answer_plan in blast)
  from ok(2) show ?thesis
  proof (cases rule: attempt_cases)
    case (ok v)
    from u take_answer_plan [OF ok(1)] obtain bs where v: "v = s\<lparr>plan := bs\<rparr>" by auto
    with ok(2) that(2) [of bs] show ?thesis by (auto cong: if_cong)
  next
    case failed
    with u take_answer_plan that(1) show ?thesis by fastforce
  qed
qed

lemma open_append_cases:
  assumes "open_append p s = (r, t)" and "dir s p = Some j"
  obtains e where "r = Inl e" "\<exists>as. t = s\<lparr>plan := as\<rparr>" | "r = Inr j" "\<exists>as. t = s\<lparr>plan := as\<rparr>"
  using assms(1) unfolding open_append_def
proof (cases rule: attempt_cases)
  case (ok u)
  have "dir u = dir s" using take_answer_fields [OF ok(1)] by simp
  with ok(2) assms(2) have "t = u" "r = Inr j \<or> (\<exists>e. r = Inl e)" by (auto split: if_splits)
  with take_answer_plan [OF ok(1)] that show ?thesis by blast
next
  case failed
  then show ?thesis using take_answer_plan that(1) by blast
qed

text \<open>What the store's path stands for at each moment of a compaction.\<close>

definition compacting :: "('k::linorder, 'v) codec \<Rightarrow> ('k, 'v) store \<Rightarrow> fs \<Rightarrow> bool" where
  "compacting cd st s \<longleftrightarrow> path_ok (store_path st) s \<and> dir s (store_path st) \<noteq> None \<and> disk_dir s (store_path st) \<noteq> None \<and>
     (\<forall>i. dir s (store_path st) = Some i \<or> disk_dir s (store_path st) = Some i \<longrightarrow>
        (\<exists>rs. list_all (small cd) rs \<and> data s i = logged cd rs \<and> disk_data s i = logged cd rs \<and>
              fold apply_record rs [] = btree_map st))"

lemma compacting_recoverable:
  "codec_ok cd \<Longrightarrow> compacting cd st s \<Longrightarrow> recoverable cd (store_path st) (btree_map st) s"
  by (rule recoverableI) (auto simp: compacting_def)

lemma store_ok_compacting:
  assumes "store_ok cd st s"
  shows "compacting cd st s"
proof -
  from assms obtain rs where "list_all (small cd) rs" "data s (log_file st) = logged cd rs"
    "disk_data s (log_file st) = logged cd rs" "btree_map st = fold apply_record rs []" by (auto simp: store_ok_def)
  with assms show ?thesis unfolding compacting_def by (auto simp: store_ok_def)
qed

lemma compacting_plan: "compacting cd st s \<Longrightarrow> \<exists>as. t = s\<lparr>plan := as\<rparr> \<Longrightarrow> compacting cd st t"
  using path_ok_cong [of t s] by (auto simp: compacting_def)

text \<open>The second half: the snapshot is on stable storage, and takes the place of the log.\<close>

lemma compact_swap:
  assumes ok: "store_ok cd st s" and run: "io_bind (rename_durably (with_extension ''tmp'' (store_path st)) (store_path st) d)
      (\<lambda>_. open_append (store_path st)) s3 = (r, t)"
    and same3: "compacting cd st s3" and d: "parent (store_path st) = Some d" and i3: "inodes_ok s3"
    and d3: "dir s3 = (dir s)(with_extension ''tmp'' (store_path st) \<mapsto> j)" "disk_dir s3 = disk_dir s" "folders s3 = folders s"
      "data s3 (log_file st) = logged cd rs" "disk_data s3 (log_file st) = logged cd rs"
    and snap: "disk_data s3 j = logged cd (snapshot (btree_map st))" "data s3 j = logged cd (snapshot (btree_map st))"
    and ij: "log_file st \<noteq> j" and rs: "list_all (small cd) rs" "btree_map st = fold apply_record rs []"
  shows "compacting cd st t \<and> (\<forall>j. r = Inr j \<longrightarrow> store_ok cd (st\<lparr>log_file := j\<rparr>) t)"
proof -
  let ?p = "store_path st" and ?q = "with_extension ''tmp'' (store_path st)"
  let ?snap = "logged cd (snapshot (btree_map st))"
  have sm: "list_all (small cd) (snapshot (btree_map st))" by (rule small_snapshot [OF rs])
  have ap: "fold apply_record (snapshot (btree_map st)) [] = btree_map st"
    unfolding rs(2) by (intro apply_snapshot bt_ok_apply) simp
  from ok have q: "?q \<noteq> ?p" and dp: "dir s ?p = Some (log_file st)" "disk_dir s ?p = Some (log_file st)" and pok: "path_ok ?p s"
    by (auto simp: store_ok_def path_ok_def)
  from run show ?thesis
  proof (cases rule: io_bind_cases)
    case (failed e)
    show ?thesis using failed(1) [unfolded rename_durably_def]
    proof (cases rule: io_bind_cases)
      case (failed e')
      from failed(1) have "\<exists>as. t = s3\<lparr>plan := as\<rparr>"
        by (rule rename_cases [where j = j]) (use d3 q ij dp in auto)
      with compacting_plan [OF same3] \<open>r = Inl e\<close> show ?thesis by simp
    next
      case (ok z s4)
      from ok(1) obtain bs where s4: "s4 = s3\<lparr>plan := bs, dir := (dir s3)(?q := None, ?p \<mapsto> j)\<rparr>"
        by (rule rename_cases [where j = j]) (use d3 q ij dp in auto)
      from ok(2) obtain cs where "t = s4\<lparr>plan := cs\<rparr>" by (auto elim: fsync_dir_cases)
      then have "compacting cd st t"
        unfolding compacting_def using s4 d3 dp rs sm ap pok path_ok_cong [of t s ?p]
          snap by auto
      with \<open>r = Inl e\<close> show ?thesis by simp
    qed
  next
    case (ok z s5)
    from ok(1) [unfolded rename_durably_def] obtain s4 where
      s4: "rename_file ?q ?p s3 = (Inr (), s4)" "fsync_dir d s4 = (Inr (), s5)"
      by (auto elim!: io_bind_cases)
    from s4(1) obtain bs where s4': "s4 = s3\<lparr>plan := bs, dir := (dir s3)(?q := None, ?p \<mapsto> j)\<rparr>"
      by (rule rename_cases [where j = j]) (use d3 q ij dp in auto)
    from s4(2) obtain cs where s5: "s5 = s4\<lparr>plan := cs,
        disk_dir := (\<lambda>p. if parent p = Some d then dir s4 p else disk_dir s4 p)\<rparr>"
      by (auto elim: fsync_dir_cases)
    have dj: "dir s5 ?p = Some j" using s5 s4' by simp
    have t: "\<exists>as. t = s5\<lparr>plan := as\<rparr>" using open_append_cases [OF ok(2) dj] by blast
    have rj: "j'' = j" if "r = Inr j''" for j''
      using open_append_cases [OF ok(2) dj] that by blast
    have i5: "inodes_ok s5"
      by (rule inodes_ok_move [OF i3, of ?q j _ ?p]) (simp_all add: s5 s4' d3(1))
    have tj: "data t j = ?snap" "disk_data t j = ?snap" "disk_dir t ?p = Some j" "dir t = dir s5"
        "inodes t = inodes s5" "folders t = folders s"
      using t s5 s4' d d3(3) snap by auto
    have "path_ok ?p t" using pok path_ok_cong [OF tj(6)] by simp
    moreover have "inodes_ok t" using i5 tj(4,5) by (simp add: inodes_ok_def)
    ultimately have "store_ok cd (st\<lparr>log_file := j\<rparr>) t"
      unfolding store_ok_def using tj dj sm ap
      by (intro conjI exI [of _ "snapshot (btree_map st)"]) simp_all
    moreover from store_ok_compacting [OF this] have "compacting cd st t" by (simp add: compacting_def)
    ultimately show ?thesis using rj by blast
  qed
qed

text \<open>The temporary file exists: writing, syncing and swapping it in, whatever fails on the way.\<close>

lemma compact_written:
  assumes st: "store_ok cd st s"
    and run: "io_bind (write_snapshot cd j (btree_map st)) (\<lambda>_. io_bind (sync_all j) (\<lambda>_.
        (case parent (store_path st) of
           None \<Rightarrow> io_fail Panicked
         | Some d \<Rightarrow> io_bind (rename_durably (with_extension ''tmp'' (store_path st)) (store_path st) d)
             (\<lambda>_. open_append (store_path st))))) s1 = (r, t)"
    and c: "dir s1 = (dir s)(with_extension ''tmp'' (store_path st) \<mapsto> j)" "disk_dir s1 = disk_dir s" "data s1 j = []"
      "\<And>i. i \<noteq> j \<Longrightarrow> data s1 i = data s i" "\<And>i. i \<noteq> j \<Longrightarrow> disk_data s1 i = disk_data s i"
      "folders s1 = folders s" "inodes_ok s1" "\<And>p. p \<noteq> with_extension ''tmp'' (store_path st) \<Longrightarrow> dir s p \<noteq> Some j"
  shows "compacting cd st t \<and> (\<forall>j. r = Inr j \<longrightarrow> store_ok cd (st\<lparr>log_file := j\<rparr>) t)"
proof -
  let ?p = "store_path st" and ?q = "with_extension ''tmp'' (store_path st)"
  let ?snap = "logged cd (snapshot (btree_map st))"
  from st obtain rs where rs: "list_all (small cd) rs" "data s (log_file st) = logged cd rs"
    "disk_data s (log_file st) = logged cd rs" "btree_map st = fold apply_record rs []" by (auto simp: store_ok_def)
  from st have q: "?q \<noteq> ?p" and dp: "dir s ?p = Some (log_file st)" "disk_dir s ?p = Some (log_file st)" and pok: "path_ok ?p s"
    by (auto simp: store_ok_def path_ok_def)
  have ij: "log_file st \<noteq> j" using c(8) [of ?p] dp(1) q by auto
  \<comment> \<open>states in which only the new file and the plan differ from \<open>s1\<close>\<close>
  have same: "compacting cd st u"
    if "dir u = dir s1" "disk_dir u = disk_dir s1" "\<And>i. i \<noteq> j \<Longrightarrow> data u i = data s1 i"
      "\<And>i. i \<noteq> j \<Longrightarrow> disk_data u i = disk_data s1 i" "folders u = folders s1" for u
    unfolding compacting_def
    using that c rs dp q ij pok path_ok_cong [of u s ?p] by auto
  from run show ?thesis
  proof (cases rule: io_bind_cases)
    case (failed e)
    note w = appends_snapshot [OF failed(1), folded snapshot_def]
    have "compacting cd st t" by (rule same) (use w in \<open>auto simp: appends_def\<close>)
    with failed(2) show ?thesis by simp
  next
    case (ok x s2)
    note w = appends_snapshot [OF ok(1), folded snapshot_def]
    have w2: "data s2 = (data s1)(j := ?snap)" using w c(3) by (auto simp: appends_def)
    have same2: "compacting cd st s2" by (rule same) (use w in \<open>auto simp: appends_def\<close>)
    from ok(2) show ?thesis
    proof (cases rule: io_bind_cases)
      case (failed e)
      from failed(1) have "\<exists>as. t = s2\<lparr>plan := as\<rparr>" by (auto elim: sync_cases)
      with failed(2) compacting_plan [OF same2] show ?thesis by simp
    next
      case (ok y s3)
      from ok(1) obtain as where s3: "s3 = s2\<lparr>plan := as, disk_data := (disk_data s2)(j := data s2 j)\<rparr>"
        by (auto elim: sync_cases)
      have sn: "disk_data s3 j = ?snap" "data s3 j = ?snap" using s3 w2 by simp_all
      have same3: "compacting cd st s3" by (rule same) (use w s3 in \<open>auto simp: appends_def\<close>)
      have d3: "dir s3 = (dir s)(?q \<mapsto> j)" "disk_dir s3 = disk_dir s" "folders s3 = folders s"
        "data s3 (log_file st) = logged cd rs" "disk_data s3 (log_file st) = logged cd rs"
        using s3 w c ij rs by (auto simp: appends_def)
      from w s3 c(7) have i3: "inodes_ok s3" by (auto simp: appends_def inodes_ok_def)
      from pok obtain d where d: "parent ?p = Some d"
        by (auto simp: path_ok_def in_folder_def split: option.splits)
      from ok(2) [unfolded d option.case] show ?thesis
        by (rule compact_swap [OF st _ same3 d i3 d3 sn ij rs(1,4)])
    qed
  qed
qed

lemma compact_cases:
  assumes st: "store_ok cd st s" and run: "compact_file cd st s = (r, t)"
  shows "compacting cd st t \<and> (\<forall>j. r = Inr j \<longrightarrow> store_ok cd (st\<lparr>log_file := j\<rparr>) t)"
proof -
  have old: "compacting cd st s" by (rule store_ok_compacting [OF st])
  from st have ino: "inodes_ok s" by (auto simp: store_ok_def)
  from run [unfolded compact_file_def Let_def] show ?thesis
  proof (cases rule: io_bind_cases)
    case (failed e)
    from failed(1) show ?thesis
    proof (cases rule: create_cases [OF _ ino, consumes 1])
      case 1
      with compacting_plan [OF old] failed(2) show ?thesis by auto
    qed (use failed in simp)
  next
    case (ok j s1)
    from ok(1) show ?thesis
    proof (cases rule: create_cases [OF _ ino, consumes 1])
      case (2 j')
      then have j: "j' = j" by simp
      from 2(2-) [unfolded j] show ?thesis by (rule compact_written [OF st ok(2)])
    qed (use ok in simp)
  qed
qed

end
