(* ===== verification/Wal_Props.thy ===== *)
theory Wal_Props
  imports Wal_Store
begin

text \<open>
  What the write-ahead log promises: acknowledged operations survive failures and crashes, compaction is
  crash-safe at every step, a truncated file yields a committed prefix; and where the code departs from
  its documentation.  \<open>store_ok\<close> is the state of a store whose file exists durably and holds what was
  acknowledged; \<open>plan = []\<close> says that no system call fails.
\<close>

section \<open>Runs\<close>

datatype ('k, 'v) wal_op = Do_Set 'k 'v | Do_Delete 'k | Do_Compact

fun wal_exec ::
    "('k::linorder, 'v) codec \<Rightarrow> ('k, 'v) wal_op \<Rightarrow> ('k, 'v) store \<Rightarrow> fs \<Rightarrow> (io_error + unit) \<times> ('k, 'v) store \<times> fs" where
  "wal_exec cd (Do_Set k v) st s = store_set cd k v st s"
| "wal_exec cd (Do_Delete k) st s = store_delete cd k st s"
| "wal_exec cd Do_Compact st s = store_compact cd st s"

text \<open>Operations up to the first error: those acknowledged, the error if any, the state.\<close>

fun wal_run ::
    "('k::linorder, 'v) codec \<Rightarrow> ('k, 'v) wal_op list \<Rightarrow> ('k, 'v) store \<Rightarrow> fs \<Rightarrow>
      ('k, 'v) wal_op list \<times> io_error option \<times> ('k, 'v) store \<times> fs" where
  "wal_run cd [] st s = ([], None, st, s)"
| "wal_run cd (op # ops) st s =
     (case wal_exec cd op st s of
        (Inl e, st', s') \<Rightarrow> ([], Some e, st', s')
      | (Inr _, st', s') \<Rightarrow> (case wal_run cd ops st' s' of (acked, e, r) \<Rightarrow> (op # acked, e, r)))"

fun apply_op :: "('k::linorder, 'v) wal_op \<Rightarrow> ('k, 'v) btree \<Rightarrow> ('k, 'v) btree" where
  "apply_op (Do_Set k v) m = bt_insert k v m"
| "apply_op (Do_Delete k) m = bt_remove k m"
| "apply_op Do_Compact m = m"

fun small_op :: "('k, 'v) codec \<Rightarrow> ('k, 'v) wal_op \<Rightarrow> bool" where
  "small_op cd (Do_Set k v) = small cd (Set k v)"
| "small_op cd (Do_Delete k) = small cd (Delete k)"
| "small_op cd Do_Compact = True"

lemma store_set_result:
  "store_set cd k v st s = (r, st', t) \<Longrightarrow>
     io_bind (write_frame cd (log_file st) (Set k v)) (\<lambda>_. sync_all (log_file st)) s = (r, t) \<and>
     (r = Inr () \<longrightarrow> st' = st\<lparr>btree_map := bt_insert k v (btree_map st)\<rparr>)"
  by (cases "io_bind (write_frame cd (log_file st) (Set k v)) (\<lambda>_. sync_all (log_file st)) s")
    (auto simp: store_set_def split: sum.splits old.unit.splits)

lemma store_delete_result:
  "store_delete cd k st s = (r, st', t) \<Longrightarrow>
     io_bind (write_frame cd (log_file st) (Delete k)) (\<lambda>_. sync_all (log_file st)) s = (r, t) \<and>
     (r = Inr () \<longrightarrow> st' = st\<lparr>btree_map := bt_remove k (btree_map st)\<rparr>)"
  by (cases "io_bind (write_frame cd (log_file st) (Delete k)) (\<lambda>_. sync_all (log_file st)) s")
    (auto simp: store_delete_def split: sum.splits old.unit.splits)

lemma store_compact_result:
  "store_compact cd st s = (r, st', t) \<Longrightarrow>
     (\<exists>e. compact_file cd st s = (Inl e, t) \<and> r = Inl e \<and> st' = st) \<or>
     (\<exists>j. compact_file cd st s = (Inr j, t) \<and> r = Inr () \<and> st' = st\<lparr>log_file := j\<rparr>)"
  by (cases "compact_file cd st s") (auto simp: store_compact_def split: sum.splits)

lemma exec_acknowledged:
  assumes ok: "store_ok cd st s" and "small_op cd op" and x: "wal_exec cd op st s = (Inr (), st', t)"
  shows "store_ok cd st' t \<and> btree_map st' = apply_op op (btree_map st) \<and> store_path st' = store_path st"
proof (cases op)
  case (Do_Set k v)
  with x have w: "io_bind (write_frame cd (log_file st) (Set k v)) (\<lambda>_. sync_all (log_file st)) s = (Inr (), t)"
    and st': "st' = st\<lparr>btree_map := bt_insert k v (btree_map st)\<rparr>"
    using store_set_result [of cd k v st s "Inr ()" st' t] by simp_all
  from acknowledged_append [OF ok _ w] assms(2) Do_Set st' show ?thesis by (simp add: apply_record_def)
next
  case (Do_Delete k)
  with x have w: "io_bind (write_frame cd (log_file st) (Delete k)) (\<lambda>_. sync_all (log_file st)) s = (Inr (), t)"
    and st': "st' = st\<lparr>btree_map := bt_remove k (btree_map st)\<rparr>"
    using store_delete_result [of cd k st s "Inr ()" st' t] by simp_all
  from acknowledged_append [OF ok _ w] assms(2) Do_Delete st' show ?thesis by (simp add: apply_record_def)
next
  case Do_Compact
  with x store_compact_result [of cd st s "Inr ()" st' t]
  obtain j where j: "compact_file cd st s = (Inr j, t)" "st' = st\<lparr>log_file := j\<rparr>"
    by auto
  from compact_cases [OF ok j(1)] j(2) Do_Compact show ?thesis by simp
qed

lemma exec_failed:
  assumes cd: "codec_ok cd" and ok: "store_ok cd st s" and x: "wal_exec cd op st s = (Inl e, st', t)"
  shows "extends cd (store_path st) (btree_map st) t"
proof (cases op)
  case (Do_Set k v)
  with x have "io_bind (write_frame cd (log_file st) (Set k v)) (\<lambda>_. sync_all (log_file st)) s = (Inl e, t)"
    using store_set_result [of cd k v st s "Inl e" st' t] by simp
  then show ?thesis by (rule failed_append [OF cd ok])
next
  case (Do_Delete k)
  with x have "io_bind (write_frame cd (log_file st) (Delete k)) (\<lambda>_. sync_all (log_file st)) s = (Inl e, t)"
    using store_delete_result [of cd k st s "Inl e" st' t] by simp
  then show ?thesis by (rule failed_append [OF cd ok])
next
  case Do_Compact
  with x store_compact_result [of cd st s "Inl e" st' t] have "compact_file cd st s = (Inl e, t)"
    by auto
  with compact_cases [OF ok] compacting_recoverable [OF cd] recoverable_extends show ?thesis by blast
qed

lemma run_outcome:
  "codec_ok cd \<Longrightarrow> store_ok cd st s \<Longrightarrow> \<forall>op \<in> set ops. small_op cd op \<Longrightarrow> wal_run cd ops st s = (acked, err, st', t) \<Longrightarrow>
     (if err = None then acked = ops \<and> recoverable cd (store_path st) (fold apply_op ops (btree_map st)) t
      else extends cd (store_path st) (fold apply_op acked (btree_map st)) t)"
proof (induction ops arbitrary: st s acked)
  case Nil
  then show ?case using store_recoverable by auto
next
  case (Cons op ops)
  obtain r st1 s1 where x: "wal_exec cd op st s = (r, st1, s1)" by (metis prod_cases3)
  show ?case
  proof (cases r)
    case (Inl e)
    with x Cons.prems(4) have "acked = []" "err = Some e" "t = s1" by auto
    with exec_failed [OF Cons.prems(1,2)] x Inl show ?thesis by simp
  next
    case (Inr u)
    with x have "wal_exec cd op st s = (Inr (), st1, s1)" by simp
    from exec_acknowledged [OF Cons.prems(2) _ this] Cons.prems(3)
    have a: "store_ok cd st1 s1" "btree_map st1 = apply_op op (btree_map st)" "store_path st1 = store_path st"
      by simp_all
    obtain acked' err' st2 t' where w: "wal_run cd ops st1 s1 = (acked', err', st2, t')" by (cases "wal_run cd ops st1 s1") auto
    from Cons.prems(4) have e: "acked = op # acked'" "err' = err" "t' = t" "st2 = st'"
      unfolding wal_run.simps \<open>wal_exec cd op st s = (Inr (), st1, s1)\<close> by (simp_all add: w)
    have "\<forall>op \<in> set ops. small_op cd op" using Cons.prems(3) by simp
    from Cons.IH [OF Cons.prems(1) a(1) this w [unfolded e(2-)]] show ?thesis unfolding e(1) a(2,3) by simp
  qed
qed


text \<open>C32. Compaction is crash-safe at every step: with a failure or a crash after any of its system calls,
  reopening succeeds and gives exactly the map the store had.\<close>

theorem wal_compact_crash_safe:
  assumes "codec_ok cd" and "store_ok cd st s" and "store_compact cd st s = (r, st', t)" and "crash t u"
  shows "\<exists>st'' w. store_open cd (store_path st) u = (Inr st'', w) \<and> btree_map st'' = btree_map st"
proof -
  from store_compact_result [OF assms(3)] obtain r' where "compact_file cd st s = (r', t)" by blast
  with compact_cases [OF assms(2)] compacting_recoverable [OF assms(1)] assms(4) show ?thesis
    unfolding recoverable_def by blast
qed



section \<open>Departures from the documentation\<close>

text \<open>A torn last record is not always truncated: once its eight header bytes are on disk and some of
  its payload is not, \<^verbatim>\<open>open\<close> fails with \<^verbatim>\<open>UnexpectedEof\<close>, so the store and every record before the torn
  one become unreadable.\<close>

theorem wal_torn_payload_rejected:
  assumes "codec_ok cd" and "list_all (small cd) (rs @ [r])" and "plan s = []" and "path_ok p s"
    and "dir s p = Some i" and "data s i = logged cd rs @ take n (frame cd r)"
    and "8 \<le> n" and "n < length (frame cd r)"
  shows "fst (store_open cd p s) = Inl Unexpected_Eof"
proof -
  from assms(2) have "list_all (small cd) rs" "small cd r" by simp_all
  then have "recover cd (data s i) = None"
    using recover_torn_frame [of cd r n] recover_logged [OF assms(1)] assms(6-8) by simp
  with open_calm [OF assms(3-5), of cd] show ?thesis by (auto simp: replayed_def)
qed

text \<open>Opening never shortens the file: what it stopped at stays in front of everything appended later.\<close>

lemma open_keeps_bytes:
  assumes "plan s = []" and "path_ok p s" and "dir s p = Some i" and "store_open cd p s = (Inr st, t)"
  shows "log_file st = i" "store_path st = p" "data t = data s" "disk_data t = disk_data s" "plan t = []"
    "dir t = (dir s)(with_extension ''tmp'' p := None)" "folders t = folders s" "disk_dir t = disk_dir s"
    "inodes t = inodes s"
    "\<exists>rs. recover cd (data s i) = Some rs \<and> btree_map st = fold apply_record rs []"
  using open_calm [OF assms(1-3), of cd] assms(4) by (auto simp: replayed_def split: option.splits)

lemma set_calm:
  assumes "plan s = []" and "store_set cd k v st s = (r, st', t)"
  shows "r = Inr ()" "st' = st\<lparr>btree_map := bt_insert k v (btree_map st)\<rparr>"
    "data t = (data s)(log_file st := data s (log_file st) @ frame cd (Set k v))"
    "disk_data t = (disk_data s)(log_file st := data t (log_file st))" "plan t = []"
    "dir t = dir s" "disk_dir t = disk_dir s" "folders t = folders s" "inodes t = inodes s"
proof -
  obtain r1 u where u: "write_frame cd (log_file st) (Set k v) s = (r1, u)" by fastforce
  from appends_frame [OF u] assms(1)
  have a: "\<not> isl r1" "plan u = []" "data u = (data s)(log_file st := data s (log_file st) @ frame cd (Set k v))"
    "dir u = dir s" "disk_dir u = disk_dir s" "disk_data u = disk_data s" "folders u = folders s" "inodes u = inodes s"
    by (auto simp: appends_def)
  have w: "io_bind (write_frame cd (log_file st) (Set k v)) (\<lambda>_. sync_all (log_file st)) s =
      (Inr (), u\<lparr>disk_data := (disk_data u)(log_file st := data u (log_file st))\<rparr>)"
    using u a(1,2) by (cases r1) (simp_all add: io_bind_def sync_all_def attempt_calm)
  from store_set_result [OF assms(2)] w
  have r: "r = Inr ()" "t = u\<lparr>disk_data := (disk_data u)(log_file st := data u (log_file st))\<rparr>"
      "st' = st\<lparr>btree_map := bt_insert k v (btree_map st)\<rparr>" by auto
  then show "r = Inr ()" "st' = st\<lparr>btree_map := bt_insert k v (btree_map st)\<rparr>" by simp_all
  show "data t = (data s)(log_file st := data s (log_file st) @ frame cd (Set k v))"
    "disk_data t = (disk_data s)(log_file st := data t (log_file st))" "plan t = []"
    "dir t = dir s" "disk_dir t = disk_dir s" "folders t = folders s" "inodes t = inodes s"
    using a r(2) by simp_all
qed

text \<open>A corrupted tail is not truncated either: if at least four bytes of it read as a length above the
  limit, \<^verbatim>\<open>open\<close> stops in front of it and succeeds, and every \<^verbatim>\<open>set\<close> acknowledged from then on is written
  behind the tail, where no later \<^verbatim>\<open>open\<close> finds it.\<close>

theorem wal_set_after_bad_tail_lost:
  assumes "codec_ok cd" and "list_all (small cd) rs" and "plan s = []" and "path_ok p s" and "dir s p = Some i"
    and "data s i = logged cd rs @ tail" and "4 \<le> length tail" and "from_le_bytes (take 4 tail) > MAX_RECORD"
    and "store_open cd p s = (Inr st, t)" and "store_set cd k v st t = (r, st', u)"
  shows "r = Inr () \<and> store_get k st' = Some v \<and>
    (\<exists>st'' w. store_open cd p u = (Inr st'', w) \<and> btree_map st'' = fold apply_record rs [])"
proof -
  note o' = open_keeps_bytes [OF assms(3,4,5,9)]
  note s' = set_calm [OF o'(5) assms(10)]
  have "with_extension ''tmp'' p \<noteq> p" using assms(4) by (simp add: path_ok_def)
  then have d: "dir u p = Some i" using s'(6) o'(6) assms(5) by simp
  have "path_ok p u" using assms(4) path_ok_cong [of u s p] s'(8) o'(7) by simp
  note again = open_calm [OF s'(5) this d, of cd]
  have "recover cd (tail @ bs) = Some []" for bs
    using assms(7,8) by (subst recover.simps) (simp add: Let_def take_append)
  then have "recover cd (data u i) = Some rs"
    using recover_logged [OF assms(1,2)] s'(3) o'(1,3) assms(6) by simp
  with again s'(1,2) show ?thesis by (auto simp: replayed_def store_get_def)
qed

text \<open>A record longer than 64 MiB is acknowledged and lost: \<^verbatim>\<open>set\<close> accepts it, and replay stops in front
  of it.\<close>

theorem wal_oversized_set_lost:
  assumes "codec_ok cd" and "store_ok cd st s" and "plan s = []" and "\<not> small cd (Set k v)"
    and "length (encode cd (Set k v)) < 2 ^ 32" and "store_set cd k v st s = (r, st', t)"
  shows "r = Inr () \<and> store_get k st' = Some v \<and>
    (\<exists>st'' w. store_open cd (store_path st) t = (Inr st'', w) \<and> btree_map st'' = btree_map st)"
proof -
  note s' = set_calm [OF assms(3,6)]
  from assms(2) obtain rs where rs: "list_all (small cd) rs" "data s (log_file st) = logged cd rs"
    "btree_map st = fold apply_record rs []" and d: "dir s (store_path st) = Some (log_file st)"
    and p: "path_ok (store_path st) s" by (auto simp: store_ok_def)
  let ?f = "frame cd (Set k v)"
  have "unat (payload_len (encode cd (Set k v))) = length (encode cd (Set k v))"
    unfolding payload_len_def using assms(5) by (intro unat_of_nat_small) simp
  then have "payload_len (encode cd (Set k v)) > MAX_RECORD"
    using assms(4) by (simp add: small_def word_less_nat_alt)
  then have "recover cd ?f = Some []"
    by (subst recover.simps) (simp add: frame_def Let_def)
  then have "recover cd (data t (log_file st)) = Some rs"
    using recover_logged [OF assms(1) rs(1)] s'(3) rs(2) by simp
  moreover have "dir t (store_path st) = Some (log_file st)" "path_ok (store_path st) t"
    using d p s'(6,8) path_ok_cong [of t s] by simp_all
  ultimately show ?thesis using open_calm [OF s'(5), of "store_path st" "log_file st" cd] s'(1,2) rs(3)
    by (auto simp: replayed_def store_get_def)
qed

lemma create_calm:
  assumes "plan s = []" and "in_folder s q"
  shows "\<exists>j t. create_file q s = (Inr j, t) \<and> plan t = []"
  using assms by (auto simp: create_file_def attempt_calm new_file_def split: option.split)

text \<open>What a compaction without failures does up to its last step but one, the rename.\<close>

lemma compact_to_rename:
  assumes ok: "store_ok cd st s" and calm: "plan s = []"
  defines "p \<equiv> store_path st"
  shows "\<exists>j t. j \<noteq> log_file st \<and> compact_file cd st s = io_bind (fsync_dir (the (parent p))) (\<lambda>_. open_append p) t \<and>
    dir t = (dir s)(with_extension ''tmp'' p := None, p \<mapsto> j) \<and> plan t = [] \<and> folders t = folders s \<and>
    data t j = logged cd (snapshot (btree_map st)) \<and> disk_data t j = data t j"
proof -
  let ?q = "with_extension ''tmp'' p"
  from ok have q: "?q \<noteq> p" "in_folder s ?q" "in_folder s p" and ino: "inodes_ok s" and dp: "dir s p = Some (log_file st)"
    by (auto simp: store_ok_def path_ok_def p_def)
  from create_calm [OF calm q(2)] obtain j s1 where s1: "create_file ?q s = (Inr j, s1)" "plan s1 = []" by blast
  from s1(1) ino obtain "dir s1 = (dir s)(?q \<mapsto> j)" "disk_dir s1 = disk_dir s" "data s1 j = []"
      "folders s1 = folders s" "\<And>x. x \<noteq> ?q \<Longrightarrow> dir s x \<noteq> Some j"
    by (rule create_cases) auto
  note c = this
  obtain r2 s2 where s2: "write_snapshot cd j (btree_map st) s1 = (r2, s2)" by fastforce
  from appends_snapshot [OF s2] s1(2) c have w: "\<not> isl r2" "plan s2 = []"
      "data s2 j = logged cd (snapshot (btree_map st))" "dir s2 = (dir s)(?q \<mapsto> j)" "folders s2 = folders s"
    by (auto simp: appends_def snapshot_def)
  let ?s3 = "s2\<lparr>disk_data := (disk_data s2)(j := data s2 j)\<rparr>"
  let ?t = "?s3\<lparr>dir := (dir ?s3)(?q := None, p \<mapsto> j)\<rparr>"
  from q(3) obtain d where d: "parent p = Some d" by (auto simp: in_folder_def split: option.splits)
  have ij: "j \<noteq> log_file st" using c(5) [of p] dp q(1) by auto
  have "rename_file ?q p ?s3 = (Inr (), ?t)"
    using w dp q(1) ij by (simp add: rename_file_def attempt_calm)
  then have "compact_file cd st s = io_bind (fsync_dir d) (\<lambda>_. open_append p) ?t"
    using s1 s2 w d
    by (cases r2) (simp_all add: compact_file_def p_def [symmetric] Let_def io_bind_def sync_all_def attempt_calm
        rename_durably_def)
  then show ?thesis using ij w d by (intro exI [of _ j] exI [of _ ?t]) auto
qed

text \<open>Compacting a store opened by a bare file name, as the command-line tool's default \<^verbatim>\<open>wal.db\<close> is,
  always fails: the parent of such a path is the empty path, which cannot be opened, and it is opened
  only after the rename.  The store then keeps appending to the replaced file, so everything it
  acknowledges afterwards is missing when the store is opened again.\<close>

theorem wal_compact_bare_name_loses:
  assumes "codec_ok cd" and "store_ok cd st s" and "plan s = []" and "parent (store_path st) = Some empty_path"
    and "store_compact cd st s = (r, st1, t)" and "store_set cd k v st1 t = (r', st2, u)"
  shows "r = Inl Not_Found \<and> r' = Inr () \<and> store_get k st2 = Some v \<and>
    (\<exists>st'' w. store_open cd (store_path st) u = (Inr st'', w) \<and> btree_map st'' = btree_map st)"
proof -
  let ?p = "store_path st"
  from compact_to_rename [OF assms(2,3)] obtain j t1 where j: "j \<noteq> log_file st"
    "compact_file cd st s = io_bind (fsync_dir (the (parent ?p))) (\<lambda>_. open_append ?p) t1"
    "dir t1 = (dir s)(with_extension ''tmp'' ?p := None, ?p \<mapsto> j)" "plan t1 = []" "folders t1 = folders s"
    "data t1 j = logged cd (snapshot (btree_map st))" by blast
  have "compact_file cd st s = (Inl Not_Found, t1)"
    unfolding j(2) assms(4) using j(4) by (simp add: io_bind_def fsync_dir_def attempt_calm)
  with store_compact_result [OF assms(5)] have c: "r = Inl Not_Found" "st1 = st" "t = t1" by auto
  note s' = set_calm [OF _ assms(6), unfolded c(2,3), OF j(4)]
  have d: "dir u ?p = Some j" "data u j = logged cd (snapshot (btree_map st))"
    using s' j by simp_all
  have ok: "path_ok ?p u" using assms(2) path_ok_cong [of u s ?p] s'(8) j(5) by (simp add: store_ok_def)
  from assms(2) obtain rs where rs: "list_all (small cd) rs" "btree_map st = fold apply_record rs []"
    by (auto simp: store_ok_def)
  have "fold apply_record (snapshot (btree_map st)) [] = btree_map st"
    unfolding rs(2) by (intro apply_snapshot bt_ok_apply) simp
  with open_logged [OF assms(1) small_snapshot [OF rs] s'(5) ok d] c s'(1,2) show ?thesis
    by (auto simp: store_get_def)
qed

text \<open>Opening a store whose file name ends in \<^verbatim>\<open>.tmp\<close> deletes it: its path is its own orphan's.\<close>

theorem wal_open_tmp_deletes:
  assumes "plan s = []" and "in_folder s p" and "with_extension ''tmp'' p = p" and "dir s p = Some i"
    and "store_open cd p s = (Inr st, t)"
  shows "btree_map st = [] \<and> dir t p = Some (inodes s)"
proof -
  let ?u = "s\<lparr>dir := (dir s)(p := None)\<rparr>"
  let ?v = "snd (new_file p ?u)"
  have f: "in_folder ?u p" using assms(2) in_folder_cong [of ?u s p] by simp
  have "store_open cd p s = (Inr \<lparr> log_file = inodes s, btree_map = [], store_path = p \<rparr>, ?v)"
    unfolding store_open_def assms(3) using assms(1,2,4) f
    by (simp add: wal_simps take_answer_calm attempt_calm open_append_def new_file_def
        seek_start_def io_return_def metadata_len_def replay.simps)
  then show ?thesis using assms(5) by (auto simp: new_file_def)
qed

text \<open>The first acknowledged \<^verbatim>\<open>set\<close>s of a new store need not survive a crash: \<^verbatim>\<open>open\<close> never syncs the
  directory in which it creates the file, so a crash may take the file away.\<close>

theorem wal_new_file_not_durable:
  assumes "plan s = []" and "path_ok p s" and "dir s p = None" and "disk_dir s p = None"
    and "store_open cd p s = (Inr st, t)" and "store_set cd k v st t = (r, st', u)"
  shows "r = Inr () \<and> store_get k st' = Some v \<and>
    (\<exists>u' st'' w. crash u u' \<and> store_open cd p u' = (Inr st'', w) \<and> btree_map st'' = [])"
proof -
  let ?q = "with_extension ''tmp'' p"
  have new: "\<exists>w. store_open cd p z = (Inr \<lparr> log_file = inodes z, btree_map = [], store_path = p \<rparr>, w) \<and>
      disk_dir w = disk_dir z \<and> plan w = [] \<and> folders w = folders z"
    if "plan z = []" "path_ok p z" "dir z p = None" for z
  proof -
    define z1 where "z1 = z\<lparr>dir := (dir z)(?q := None)\<rparr>"
    have f: "in_folder z1 p" "\<not> folders z ?q" "dir z1 p = None"
      using that in_folder_cong [of z1 z p] by (auto simp: path_ok_def z1_def in_folder_def split: option.splits)
    have ex: "io_bind (path_exists ?q) (\<lambda>orphan. io_bind (if orphan then remove_file ?q else io_return ()) k) z = k () z1"
      for k :: "unit \<Rightarrow> 'c io"
    proof (cases "dir z ?q")
      case None
      then have "(dir z)(?q := None) = dir z" by (simp add: fun_upd_idem)
      then have "z1 = z" by (simp add: z1_def)
      with None f that(1) show ?thesis by (simp add: io_bind_def path_exists_def take_answer_calm io_return_def)
    next
      case (Some j)
      with that(1) show ?thesis
        by (simp add: wal_simps take_answer_calm attempt_calm z1_def)
    qed
    have "store_open cd p z = (Inr \<lparr> log_file = inodes z1, btree_map = [], store_path = p \<rparr>, snd (new_file p z1))"
      unfolding store_open_def ex using f that(1)
      by (simp add: io_bind_def attempt_calm open_append_def new_file_def seek_start_def io_return_def metadata_len_def
          replay.simps z1_def)
    then show ?thesis using that(1) by (auto simp: new_file_def z1_def)
  qed
  from new [OF assms(1-3)] assms(5) have t: "disk_dir t = disk_dir s" "plan t = []" "folders t = folders s" by auto
  note s' = set_calm [OF t(2) assms(6)]
  let ?u' = "u\<lparr>dir := disk_dir u, disk_data := data u\<rparr>"
  have "crash u ?u'" unfolding crash_def using s'(5) by (simp add: survives_def)
  moreover have "dir ?u' p = None" using s'(7) t(1) assms(4) by simp
  moreover have "path_ok p ?u'" using assms(2) path_ok_cong [of ?u' s p] s'(8) t(3) by simp
  ultimately show ?thesis using new [of ?u'] s'(1,2,5) by (fastforce simp: store_get_def)
qed

section \<open>Witnesses\<close>

text \<open>Values are numbers, encoded in unary.\<close>

definition demo_codec :: "(u8, nat) codec" where
  "demo_codec = \<lparr> encode = (\<lambda>r. case r of Set k v \<Rightarrow> 0 # k # replicate v 0 | Delete k \<Rightarrow> [1, k]),
     decode = (\<lambda>bs. case bs of x # k # rest \<Rightarrow> Some (if x = 0 then Set k (length rest) else Delete k) | _ \<Rightarrow> None),
     checksum = (\<lambda>bs. of_nat (length bs)) \<rparr>"

lemma demo_codec_ok: "codec_ok demo_codec"
  by (simp add: codec_ok_def demo_codec_def split: log_record.split)

lemma demo_small: "small demo_codec (Set k v) \<longleftrightarrow> v + 2 \<le> 67108864" "small demo_codec (Delete k)"
  by (simp_all add: small_def demo_codec_def MAX_RECORD_def)

definition demo_fs :: "path \<Rightarrow> u8 list \<Rightarrow> fs" where
  "demo_fs p bs = \<lparr> dir = [p \<mapsto> 0], disk_dir = [p \<mapsto> 0], data = (\<lambda>_. bs), disk_data = (\<lambda>_. bs),
     folders = (\<lambda>d. d = \<lparr> absolute = True, comps = [''db''] \<rparr>), inodes = 1, plan = [] \<rparr>"

definition demo_path :: path where
  "demo_path = \<lparr> absolute = True, comps = [''db'', ''wal.log''] \<rparr>"

definition bare_path :: path where
  "bare_path = \<lparr> absolute = False, comps = [''wal.db''] \<rparr>"

definition demo_store :: "path \<Rightarrow> (u8, nat) store" where
  "demo_store p = \<lparr> log_file = 0, btree_map = [(1, 2)], store_path = p \<rparr>"

definition demo_bytes :: "u8 list" where
  "demo_bytes = logged demo_codec [Set 1 2]"

lemma demo_path_ok: "path_ok demo_path (demo_fs q bs)" "path_ok bare_path (demo_fs q bs)"
  by (auto simp: path_ok_def in_folder_def demo_path_def bare_path_def parent_def with_extension_def file_stem_def
      demo_fs_def empty_path_def)

lemma demo_store_ok: "path_ok p (demo_fs p demo_bytes) \<Longrightarrow> store_ok demo_codec (demo_store p) (demo_fs p demo_bytes)"
  unfolding store_ok_def
  by (auto simp: demo_fs_def demo_store_def demo_bytes_def demo_small apply_record_def inodes_ok_def
      split: if_splits intro!: exI [of _ "[Set 1 2]"])

lemma clean_crash: "crash t (t\<lparr>disk_dir := dir t, disk_data := data t, plan := []\<rparr>)"
  by (simp add: crash_def survives_def)


theorem wal_compact_crash_safe_witness:
  "\<exists>r st' t. store_compact demo_codec (demo_store demo_path) (demo_fs demo_path demo_bytes) = (r, st', t) \<and>
    (\<exists>st'' w. store_open demo_codec demo_path (t\<lparr>disk_dir := dir t, disk_data := data t, plan := []\<rparr>) = (Inr st'', w) \<and>
       btree_map st'' = [(1, 2)])"
proof -
  obtain r st' t where c: "store_compact demo_codec (demo_store demo_path) (demo_fs demo_path demo_bytes) = (r, st', t)"
    by (metis prod_cases3)
  from wal_compact_crash_safe [OF demo_codec_ok demo_store_ok [OF demo_path_ok(1)] c clean_crash] c show ?thesis
    by (auto simp: demo_store_def)
qed



theorem wal_torn_payload_rejected_witness:
  "fst (store_open demo_codec demo_path (demo_fs demo_path (demo_bytes @ take 9 (frame demo_codec (Set 3 4))))) =
     Inl Unexpected_Eof"
proof (rule wal_torn_payload_rejected [OF demo_codec_ok, of "[Set 1 2]" "Set 3 4"])
  show "9 < length (frame demo_codec (Set 3 4))" by (simp add: length_frame demo_codec_def)
qed (simp_all add: demo_small demo_path_ok, simp_all add: demo_fs_def demo_bytes_def)

theorem wal_set_after_bad_tail_lost_witness:
  "\<exists>st t r st' u. store_open demo_codec demo_path (demo_fs demo_path (demo_bytes @ [255, 255, 255, 255])) = (Inr st, t) \<and>
     store_set demo_codec 3 4 st t = (r, st', u) \<and>
     (\<exists>st'' w. store_open demo_codec demo_path u = (Inr st'', w) \<and> store_get 3 st'' = None)"
proof -
  let ?s = "demo_fs demo_path (demo_bytes @ [255, 255, 255, 255])"
  have s: "plan ?s = []" "dir ?s demo_path = Some 0" by (simp_all add: demo_fs_def)
  have sm: "list_all (small demo_codec) [Set 1 2]" by (simp add: demo_small)
  have d: "data ?s 0 = logged demo_codec [Set 1 2] @ [255, 255, 255, 255]" by (simp add: demo_fs_def demo_bytes_def)
  have "recover demo_codec ([255, 255, 255, 255]) = Some []" by (simp add: recover_short)
  then have "recover demo_codec (data ?s 0) = Some [Set 1 2]"
    unfolding d using recover_logged [OF demo_codec_ok sm] by simp
  with open_calm [OF s(1) demo_path_ok(1) s(2), of demo_codec]
  obtain st t where o': "store_open demo_codec demo_path ?s = (Inr st, t)" by (auto simp: replayed_def)
  obtain r st' u where w: "store_set demo_codec 3 4 st t = (r, st', u)" by (metis prod_cases3)
  have "from_le_bytes (take 4 ([255, 255, 255, 255])) > MAX_RECORD"
    by (simp add: from_le_bytes_def word_rcat_def MAX_RECORD_def)
  from wal_set_after_bad_tail_lost [OF demo_codec_ok sm s(1) demo_path_ok(1) s(2) d _ this o' w] o' w show ?thesis
    by (fastforce simp: store_get_def apply_record_def)
qed

theorem wal_oversized_set_lost_witness:
  "\<exists>r st' t. store_set demo_codec 3 67108863 (demo_store demo_path) (demo_fs demo_path demo_bytes) = (r, st', t) \<and>
     (\<exists>st'' w. store_open demo_codec demo_path t = (Inr st'', w) \<and> store_get 3 st'' = None)"
proof -
  obtain r st' t where w: "store_set demo_codec 3 67108863 (demo_store demo_path) (demo_fs demo_path demo_bytes) = (r, st', t)"
    by (metis prod_cases3)
  have big: "\<not> small demo_codec (Set 3 67108863)" unfolding demo_small by simp
  have len: "length (encode demo_codec (Set 3 67108863)) < 2 ^ 32" by (simp add: demo_codec_def)
  have calm: "plan (demo_fs demo_path demo_bytes) = []" by (simp add: demo_fs_def)
  from wal_oversized_set_lost [OF demo_codec_ok demo_store_ok [OF demo_path_ok(1)] calm big len w] w show ?thesis
    by (fastforce simp: store_get_def demo_store_def)
qed

theorem wal_compact_bare_name_loses_witness:
  "\<exists>r st1 t r' st2 u. store_compact demo_codec (demo_store bare_path) (demo_fs bare_path demo_bytes) = (r, st1, t) \<and>
     store_set demo_codec 3 4 st1 t = (r', st2, u) \<and> r' = Inr () \<and>
     (\<exists>st'' w. store_open demo_codec bare_path u = (Inr st'', w) \<and> store_get 3 st'' = None)"
proof -
  obtain r st1 t where c: "store_compact demo_codec (demo_store bare_path) (demo_fs bare_path demo_bytes) = (r, st1, t)"
    by (metis prod_cases3)
  obtain r' st2 u where w: "store_set demo_codec 3 4 st1 t = (r', st2, u)" by (metis prod_cases3)
  have calm: "plan (demo_fs bare_path demo_bytes) = []" by (simp add: demo_fs_def)
  have "parent (store_path (demo_store bare_path)) = Some empty_path"
    by (simp add: demo_store_def bare_path_def parent_def empty_path_def)
  from wal_compact_bare_name_loses [OF demo_codec_ok demo_store_ok [OF demo_path_ok(2)] calm this c w] c w show ?thesis
    by (fastforce simp: store_get_def demo_store_def)
qed

theorem wal_open_tmp_deletes_witness:
  "\<exists>st t. store_open demo_codec \<lparr> absolute = True, comps = [''db'', ''x.tmp''] \<rparr>
      (demo_fs \<lparr> absolute = True, comps = [''db'', ''x.tmp''] \<rparr> demo_bytes) = (Inr st, t) \<and> btree_map st = []"
proof -
  let ?p = "\<lparr> absolute = True, comps = [''db'', ''x.tmp''] \<rparr>"
  let ?s = "demo_fs ?p demo_bytes"
  have s: "plan ?s = []" "in_folder ?s ?p" "with_extension ''tmp'' ?p = ?p" "dir ?s ?p = Some 0"
    by (simp_all add: demo_fs_def in_folder_def parent_def with_extension_def file_stem_def)
  have "\<exists>st t. store_open demo_codec ?p ?s = (Inr st, t)"
    unfolding store_open_def s(3)
    by (simp add: demo_fs_def wal_simps take_answer_calm attempt_calm open_append_def
        new_file_def seek_start_def io_return_def metadata_len_def replay.simps in_folder_def parent_def)
  then show ?thesis using wal_open_tmp_deletes [OF s, of demo_codec] by blast
qed

theorem wal_new_file_not_durable_witness:
  "\<exists>st t r st' u. store_open demo_codec bare_path (demo_fs demo_path demo_bytes) = (Inr st, t) \<and>
     store_set demo_codec 3 4 st t = (r, st', u) \<and> r = Inr () \<and>
     (\<exists>u' st'' w. crash u u' \<and> store_open demo_codec bare_path u' = (Inr st'', w) \<and> btree_map st'' = [])"
proof -
  let ?s = "demo_fs demo_path demo_bytes"
  have s: "plan ?s = []" "dir ?s bare_path = None" "disk_dir ?s bare_path = None"
    by (simp_all add: demo_fs_def bare_path_def demo_path_def)
  have "\<exists>st t. store_open demo_codec bare_path ?s = (Inr st, t)"
    by (simp add: store_open_def demo_fs_def bare_path_def demo_path_def io_bind_def path_exists_def take_answer_calm
        attempt_calm open_append_def new_file_def seek_start_def io_return_def metadata_len_def replay.simps in_folder_def
        parent_def with_extension_def file_stem_def empty_path_def)
  then obtain st t where o': "store_open demo_codec bare_path ?s = (Inr st, t)" by blast
  obtain r st' u where w: "store_set demo_codec 3 4 st t = (r, st', u)" by (metis prod_cases3)
  from wal_new_file_not_durable [OF s(1) demo_path_ok(2) s(2,3) o' w] o' w show ?thesis by blast
qed

end
