(* ===== verification/Wal_Repl.thy ===== *)
theory Wal_Repl
  imports Wal_Props Rust_Std "HOL-Library.List_Lexorder" "HOL-Library.Char_ord"
begin

text \<open>
  The command-line front end of the store, \<^verbatim>\<open>wal/src/main.rs\<close>: one line read from standard input, the lines
  printed and the store afterwards.  A printed line is a constructor with its arguments, one per
  \<^verbatim>\<open>writeln!\<close>; keys and values are byte strings in Rust's byte order.  Printing is taken to succeed.
\<close>

section \<open>Tokens\<close>

text \<open>\<^verbatim>\<open>str::trim\<close>: the trailing part is dropped from where only white space follows.\<close>

fun trim_ws_end :: "string \<Rightarrow> string" where
  "trim_ws_end [] = []"
| "trim_ws_end (c # s) = (if skip_ws (c # s) = [] then [] else c # trim_ws_end s)"

definition trim_ws :: "string \<Rightarrow> string" where
  "trim_ws s = trim_ws_end (skip_ws s)"

text \<open>\<^verbatim>\<open>splitn(3, ' ')\<close>, a missing part being empty.\<close>

definition split3 :: "string \<Rightarrow> string \<times> string \<times> string" where
  "split3 line =
     (case split_once CHR '' '' line of
        None \<Rightarrow> (line, [], [])
      | Some (cmd, rest) \<Rightarrow>
          (case split_once CHR '' '' rest of
             None \<Rightarrow> (cmd, rest, [])
           | Some (arg1, arg2) \<Rightarrow> (cmd, arg1, arg2)))"

section \<open>Commands\<close>

datatype repl_out =
    Usage_Get | Usage_Set | Usage_Delete
  | Print_Value string | Print_Nil
  | Print_Ok | Print_Error io_error
  | Print_Entry string string | Print_Count nat
  | Print_Compacted | Print_Len nat | Print_Help
  | Print_Unknown string

type_synonym repl_store = "(string, string) store"

datatype repl_result =
    Continue "repl_out list" repl_store fs
  | Leave
  | Panic

definition acknowledge :: "repl_out \<Rightarrow> (io_error + unit) \<times> repl_store \<times> fs \<Rightarrow> repl_result" where
  "acknowledge out r =
     (case r of
        (Inl e, st, s) \<Rightarrow> Continue [Print_Error e] st s
      | (Inr _, st, s) \<Rightarrow> Continue [out] st s)"

definition print_scan :: "(string \<times> string) list option \<Rightarrow> repl_store \<Rightarrow> fs \<Rightarrow> repl_result" where
  "print_scan es st s =
     (case es of
        None \<Rightarrow> Panic
      | Some es \<Rightarrow> Continue (map (\<lambda>(k, v). Print_Entry k v) es @ [Print_Count (length es)]) st s)"

definition repl_line :: "(string, string) codec \<Rightarrow> string \<Rightarrow> repl_store \<Rightarrow> fs \<Rightarrow> repl_result" where
  "repl_line cd input st s =
     (let line = trim_ws input in
      if line = [] then Continue [] st s
      else (case split3 line of (cmd, arg1, arg2) \<Rightarrow>
        if cmd = ''get'' then
          (if arg1 = [] then Continue [Usage_Get] st s
           else (case store_get arg1 st of
                   Some v \<Rightarrow> Continue [Print_Value v] st s
                 | None \<Rightarrow> Continue [Print_Nil] st s))
        else if cmd = ''set'' then
          (if arg1 = [] \<or> arg2 = [] then Continue [Usage_Set] st s
           else acknowledge Print_Ok (store_set cd arg1 arg2 st s))
        else if cmd = ''delete'' \<or> cmd = ''del'' then
          (if arg1 = [] then Continue [Usage_Delete] st s
           else acknowledge Print_Ok (store_delete cd arg1 st s))
        else if cmd = ''scan'' then
          print_scan
            (if arg1 = [] then store_scan Unbounded Unbounded st
             else if arg2 = [] then store_scan (Included arg1) Unbounded st
             else store_scan (Included arg1) (Included arg2) st) st s
        else if cmd = ''compact'' then acknowledge Print_Compacted (store_compact cd st s)
        else if cmd = ''len'' then Continue [Print_Len (store_len st)] st s
        else if cmd = ''help'' then Continue [Print_Help] st s
        else if cmd = ''quit'' \<or> cmd = ''exit'' \<or> cmd = ''q'' then Leave
        else Continue [Print_Unknown cmd] st s))"

text \<open>The loop over the lines of the input, until \<^verbatim>\<open>quit\<close>, the end of input or a panic.\<close>

fun repl_loop ::
    "(string, string) codec \<Rightarrow> string list \<Rightarrow> repl_store \<Rightarrow> fs \<Rightarrow> repl_out list \<times> bool \<times> fs" where
  "repl_loop cd [] st s = ([], True, s)"
| "repl_loop cd (l # ls) st s =
     (case repl_line cd l st s of
        Continue out st' s' \<Rightarrow> (case repl_loop cd ls st' s' of (out', clean, t) \<Rightarrow> (out @ out', clean, t))
      | Leave \<Rightarrow> ([], True, s)
      | Panic \<Rightarrow> ([], False, s))"

section \<open>What a user sees\<close>

declare ws_len.simps [simp del]

text \<open>Printable ASCII words, which is what the round trip below is stated for.\<close>

lemma ws_len_before_ascii:
  assumes "byte_in 33 126 d" and "x \<noteq> []"
  shows "ws_len (x @ d # r) \<le> length x"
proof -
  consider a where "x = [a]" | a b where "x = [a, b]" | a b c y where "x = a # b # c # y"
    using assms(2) by (cases x; cases "tl x"; cases "tl (tl x)") auto
  then show ?thesis
  proof cases
    case 1
    with assms(1) show ?thesis by (auto simp: ws_len.simps byte_in_def split: list.split)
  next
    case 2
    with assms(1) show ?thesis by (auto simp: ws_len.simps byte_in_def)
  next
    case 3
    have "ws_len s \<le> 3" for s by (cases s) (auto simp: ws_len.simps split: list.split)
    then have "ws_len (x @ d # r) \<le> 3" .
    then show ?thesis using 3 by simp
  qed
qed

lemma trim_ascii:
  assumes "byte_in 33 126 c" and "ascii_word w"
  shows "trim_ws_end (c # u @ w) = c # u @ w"
proof -
  have "skip_ws (x @ w) \<noteq> []" for x
  proof (induction x rule: length_induct)
    case (1 x)
    show ?case
    proof (cases x)
      case Nil
      with assms(2) show ?thesis
        by (cases w) (auto simp: ascii_word_def skip_ws_id ascii_ws_len)
    next
      case (Cons a x')
      show ?thesis
      proof (cases "ws_len (x @ w) = 0")
        case True
        then show ?thesis using Cons by (simp add: skip_ws_id)
      next
        case False
        have "ws_len (x @ w) \<le> length x"
          using assms(2) Cons ws_len_before_ascii [of _ x] by (cases w) (simp_all add: ascii_word_def)
        then have "skip_ws (x @ w) = skip_ws (drop (ws_len (x @ w)) x @ w)"
          using False by (subst skip_ws.simps) simp
        moreover have "length (drop (ws_len (x @ w)) x) < length x" using False Cons by simp
        ultimately show ?thesis using 1 by simp
      qed
    qed
  qed
  then have "trim_ws_end (x @ w) = x @ w" for x
  proof (induction x)
    case Nil
    have "trim_ws_end v = v" if "list_all (byte_in 33 126) v" for v
      using that by (induction v) (auto simp: skip_ws_id ascii_ws_len)
    then show ?case using assms(2) by (simp add: ascii_word_def)
  next
    case (Cons a x)
    then show ?case using Cons.prems [of "a # x"] by simp
  qed
  from this [of "c # u"] show ?thesis by simp
qed

lemma split3_words:
  "CHR '' '' \<notin> set c \<Longrightarrow> CHR '' '' \<notin> set k \<Longrightarrow> split3 (c @ '' '' @ k @ '' '' @ v) = (c, k, v)"
  "CHR '' '' \<notin> set c \<Longrightarrow> CHR '' '' \<notin> set k \<Longrightarrow> split3 (c @ '' '' @ k) = (c, k, [])"
  by (simp_all add: split3_def split_once_None [THEN iffD2])

lemma trim_line:
  assumes "byte_in 33 126 c" and "ascii_word w"
  shows "trim_ws (c # u @ w) = c # u @ w"
  unfolding trim_ws_def skip_ws_id [OF ascii_ws_len [OF assms(1)]] by (rule trim_ascii [OF assms])

lemma repl_set:
  assumes "ascii_word k" and "ascii_word w"
  shows "repl_line cd (''set '' @ k @ '' '' @ u @ w) st s = acknowledge Print_Ok (store_set cd k (u @ w) st s)"
proof -
  have k: "CHR '' '' \<notin> set k" "k \<noteq> []" "w \<noteq> []" using assms ascii_word_props by auto
  have t: "trim_ws (''set '' @ k @ '' '' @ u @ w) = ''set'' @ '' '' @ k @ '' '' @ (u @ w)"
    using trim_line [of "CHR ''s''" w "''et '' @ k @ '' '' @ u"] assms(2) by (simp add: byte_in_def)
  show ?thesis
    unfolding repl_line_def t Let_def using split3_words(1) [of "''set''" k "u @ w"] k by simp
qed

text \<open>What was set is what is read back: after \<^verbatim>\<open>set k v\<close> printed \<^verbatim>\<open>ok\<close>, \<^verbatim>\<open>get k\<close> prints \<open>v\<close>; the value
  may contain spaces inside.\<close>

theorem repl_set_get:
  assumes "ascii_word k" and "ascii_word w"
    and "repl_line cd (''set '' @ k @ '' '' @ u @ w) st s = Continue [Print_Ok] st' t"
  shows "repl_line cd (''get '' @ k) st' t = Continue [Print_Value (u @ w)] st' t"
proof -
  have k: "CHR '' '' \<notin> set k" "k \<noteq> []" "w \<noteq> []" using assms(1,2) ascii_word_props by auto
  have t2: "trim_ws (''get '' @ k) = ''get'' @ '' '' @ k"
    using trim_line [of "CHR ''g''" k "''et ''"] assms(1) by (simp add: byte_in_def)
  from assms(3) [unfolded repl_set [OF assms(1,2)]] obtain x where "store_set cd k (u @ w) st s = (Inr x, st', t)"
    by (auto simp: acknowledge_def split: prod.splits sum.splits)
  with store_set_result [of cd k "u @ w" st s "Inr x" st' t]
  have "store_get k st' = Some (u @ w)" by (simp add: store_get_def)
  then show ?thesis unfolding repl_line_def t2 Let_def using split3_words(2) [of "''get''" k] k by simp
qed

text \<open>\<^verbatim>\<open>scan b a\<close> with \<open>a < b\<close> ends the process: the bounds go to \<^verbatim>\<open>BTreeMap::range\<close> unchecked, which
  panics on an inverted range, whatever is stored.\<close>

theorem repl_scan_panics:
  assumes "ascii_word a" and "ascii_word b" and "a < b"
  shows "repl_line cd (''scan '' @ b @ '' '' @ a) st s = Panic"
proof -
  have p: "CHR '' '' \<notin> set a" "a \<noteq> []" "CHR '' '' \<notin> set b" "b \<noteq> []" using assms ascii_word_props by auto
  have t: "trim_ws (''scan '' @ b @ '' '' @ a) = ''scan'' @ '' '' @ b @ '' '' @ a"
    using trim_line [of "CHR ''s''" a "''can '' @ b @ '' ''"] assms(1) by (simp add: byte_in_def)
  show ?thesis unfolding repl_line_def t Let_def using split3_words(1) [of "''scan''" b a] p assms(3)
    by (simp add: print_scan_def store_scan_def bt_range_def)
qed

section \<open>Witnesses\<close>

theorem repl_set_get_witness:
  "\<forall>cd. \<exists>st t. repl_line cd (''get '' @ ''k'') st t = Continue [Print_Value (''a '' @ ''b'')] st t"
proof
  fix cd :: "(string, string) codec"
  let ?st = "\<lparr> log_file = 0, btree_map = [], store_path = demo_path \<rparr> :: repl_store"
  have w: "ascii_word ''k''" "ascii_word ''b''" by (simp_all add: ascii_word_def byte_in_def)
  obtain r st' t where s: "store_set cd ''k'' (''a '' @ ''b'') ?st (demo_fs demo_path []) = (r, st', t)"
    by (metis prod_cases3)
  have "r = Inr ()" by (rule set_calm(1) [OF _ s]) (simp add: demo_fs_def)
  with s have "repl_line cd (''set '' @ ''k'' @ '' '' @ ''a '' @ ''b'') ?st (demo_fs demo_path []) = Continue [Print_Ok] st' t"
    unfolding repl_set [OF w] by (simp add: acknowledge_def)
  from repl_set_get [OF w this]
  show "\<exists>st t. repl_line cd (''get '' @ ''k'') st t = Continue [Print_Value (''a '' @ ''b'')] st t" by blast
qed

theorem repl_scan_panics_witness:
  "\<forall>cd st s. repl_line cd (''scan '' @ ''z'' @ '' '' @ ''a'') st s = Panic"
  using repl_scan_panics [of "''a''" "''z''"] by (simp add: ascii_word_def byte_in_def less_char_def)

end
