(* ===== verification/Gfs_Store.thy ===== *)
theory Gfs_Store
  imports Wal_Props
begin

text \<open>
  The in-memory store of the chunk servers, \<^verbatim>\<open>gfs/src/store.rs\<close>, and the interface it shares with the
  write-ahead-log store.  \<open>kv_store\<close> states that interface; it is interpreted on both stores, the durable
  one on a file system whose calls succeed, so whatever is proved of the interface holds of either.
  The error type of the in-memory store has no values, so its operations return the new store.
\<close>

section \<open>The store\<close>

record ('k, 'v) mem_store =
  store_map :: "('k, 'v) btree"

definition mem_open :: "path \<Rightarrow> ('k, 'v) mem_store" where
  "mem_open _ = \<lparr> store_map = [] \<rparr>"

definition mem_get :: "'k \<Rightarrow> ('k, 'v) mem_store \<Rightarrow> 'v option" where
  "mem_get k st = bt_get k (store_map st)"

definition mem_set :: "'k::linorder \<Rightarrow> 'v \<Rightarrow> ('k, 'v) mem_store \<Rightarrow> ('k, 'v) mem_store" where
  "mem_set k v st = st\<lparr>store_map := bt_insert k v (store_map st)\<rparr>"

definition mem_delete :: "'k \<Rightarrow> ('k, 'v) mem_store \<Rightarrow> ('k, 'v) mem_store" where
  "mem_delete k st = st\<lparr>store_map := bt_remove k (store_map st)\<rparr>"

definition mem_scan :: "'k::linorder bound \<Rightarrow> 'k bound \<Rightarrow> ('k, 'v) mem_store \<Rightarrow> ('k \<times> 'v) list option" where
  "mem_scan lo hi st = bt_range lo hi (store_map st)"

definition mem_len :: "('k, 'v) mem_store \<Rightarrow> nat" where
  "mem_len st = length (store_map st)"

definition mem_is_empty :: "('k, 'v) mem_store \<Rightarrow> bool" where
  "mem_is_empty st \<longleftrightarrow> store_map st = []"

section \<open>The interface\<close>

datatype ('k, 'v) kv_op = Put 'k 'v | Del 'k

fun kv_spec :: "('k, 'v) kv_op \<Rightarrow> ('k \<rightharpoonup> 'v) \<Rightarrow> ('k \<rightharpoonup> 'v)" where
  "kv_spec (Put k v) m = m(k \<mapsto> v)"
| "kv_spec (Del k) m = m(k := None)"

locale kv_store =
  fixes get :: "'k::linorder \<Rightarrow> 's \<Rightarrow> 'v option"
    and put :: "'k \<Rightarrow> 'v \<Rightarrow> 's \<Rightarrow> 's"
    and del :: "'k \<Rightarrow> 's \<Rightarrow> 's"
    and scan :: "'k bound \<Rightarrow> 'k bound \<Rightarrow> 's \<Rightarrow> ('k \<times> 'v) list option"
    and size_of :: "'s \<Rightarrow> nat"
    and inv :: "'s \<Rightarrow> bool"
  assumes inv_put: "inv s \<Longrightarrow> inv (put k v s)"
    and inv_del: "inv s \<Longrightarrow> inv (del k s)"
    and get_put: "inv s \<Longrightarrow> get j (put k v s) = (if j = k then Some v else get j s)"
    and get_del: "inv s \<Longrightarrow> get j (del k s) = (if j = k then None else get j s)"
    and scan_panics: "inv s \<Longrightarrow> scan lo hi s = None \<longleftrightarrow> range_panics lo hi"
    and scan_sorted: "inv s \<Longrightarrow> scan lo hi s = Some xs \<Longrightarrow> sorted_wrt (<) (map fst xs)"
    and scan_entries: "inv s \<Longrightarrow> scan lo hi s = Some xs \<Longrightarrow>
      (k, v) \<in> set xs \<longleftrightarrow> get k s = Some v \<and> above lo k \<and> below hi k"
    and size_scan: "inv s \<Longrightarrow> map_option length (scan Unbounded Unbounded s) = Some (size_of s)"
begin

definition perform :: "('k, 'v) kv_op \<Rightarrow> 's \<Rightarrow> 's" where
  "perform op s = (case op of Put k v \<Rightarrow> put k v s | Del k \<Rightarrow> del k s)"

lemma inv_perform: "inv s \<Longrightarrow> inv (perform op s)"
  by (cases op) (auto simp: perform_def inv_put inv_del)

lemma inv_performs: "inv s \<Longrightarrow> inv (fold perform ops s)"
  by (induction ops arbitrary: s) (auto simp: inv_perform)

lemma get_perform: "inv s \<Longrightarrow> (\<lambda>k. get k (perform op s)) = kv_spec op (\<lambda>k. get k s)"
  by (cases op) (auto simp: perform_def get_put get_del)

lemma get_performs: "inv s \<Longrightarrow> (\<lambda>k. get k (fold perform ops s)) = fold kv_spec ops (\<lambda>k. get k s)"
  by (induction ops arbitrary: s) (auto simp: inv_perform get_perform)

lemma scan_unique:
  assumes "inv s" and "scan lo hi s = Some xs" and "sorted_wrt (<) (map fst ys)"
    and "\<And>k v. (k, v) \<in> set ys \<longleftrightarrow> get k s = Some v \<and> above lo k \<and> below hi k"
  shows "ys = xs"
proof -
  have "set ys = set xs" using assms(4) scan_entries [OF assms(1,2)] by auto
  moreover have "sorted (map fst zs) \<and> distinct (map fst zs)" if "sorted_wrt (<) (map fst zs)" for zs :: "('k \<times> 'v) list"
    using that strict_sorted_iff by blast
  ultimately show ?thesis using scan_sorted [OF assms(1,2)] assms(3)
    by (intro map_sorted_distinct_set_unique [of fst]) (auto simp: distinct_map)
qed

end

text \<open>Two stores that start with the same entries and perform the same operations cannot be told apart.\<close>

locale kv_pair =
  left: kv_store getl putl dell scanl sizel invl + right: kv_store getr putr delr scanr sizer invr
  for getl :: "'k::linorder \<Rightarrow> 's \<Rightarrow> 'v option" and putl dell scanl sizel invl
    and getr :: "'k \<Rightarrow> 't \<Rightarrow> 'v option" and putr delr scanr sizer invr
begin

lemma agree:
  assumes "invl s" and "invr t" and "\<And>k. getl k s = getr k t"
  shows "getl k (fold left.perform ops s) = getr k (fold right.perform ops t)"
    "scanl lo hi (fold left.perform ops s) = scanr lo hi (fold right.perform ops t)"
    "sizel (fold left.perform ops s) = sizer (fold right.perform ops t)"
proof -
  let ?s = "fold left.perform ops s" and ?t = "fold right.perform ops t"
  have i: "invl ?s" "invr ?t" using assms(1,2) left.inv_performs right.inv_performs by auto
  have g: "getl k ?s = getr k ?t" for k
    using left.get_performs [OF assms(1)] right.get_performs [OF assms(2)] assms(3) by (metis ext)
  then show "getl k ?s = getr k ?t" .
  have sc: "scanl lo hi ?s = scanr lo hi ?t" for lo hi
  proof (cases "range_panics lo hi")
    case True
    then show ?thesis using left.scan_panics [OF i(1)] right.scan_panics [OF i(2)] by metis
  next
    case False
    then obtain xs ys where "scanl lo hi ?s = Some xs" and y: "scanr lo hi ?t = Some ys"
      using left.scan_panics [OF i(1)] right.scan_panics [OF i(2)] by (metis not_None_eq)
    then show ?thesis
      using left.scan_unique [OF i(1), of lo hi xs ys] right.scan_sorted [OF i(2) y] right.scan_entries [OF i(2) y] g
      by simp
  qed
  then show "scanl lo hi ?s = scanr lo hi ?t" .
  show "sizel ?s = sizer ?t"
    using left.size_scan [OF i(1)] right.size_scan [OF i(2)] sc [of Unbounded Unbounded] by simp
qed

end

section \<open>Both stores provide it\<close>

definition mem_ok :: "('k::linorder, 'v) mem_store \<Rightarrow> bool" where
  "mem_ok st \<longleftrightarrow> bt_ok (store_map st)"

lemma bt_range_kv:
  assumes "bt_ok m"
  shows "bt_range lo hi m = None \<longleftrightarrow> range_panics lo hi"
    "map_option length (bt_range Unbounded Unbounded m) = Some (length m)"
  by (auto simp: bt_range_def)

interpretation mem: kv_store mem_get mem_set mem_delete mem_scan mem_len mem_ok
  by unfold_locales
    (auto simp: mem_ok_def mem_get_def mem_set_def mem_delete_def mem_scan_def mem_len_def bt_range_kv bt_range_spec)

text \<open>The durable store with its file system, as the in-memory interface sees it.\<close>

definition calm_set :: "('k::linorder, 'v) codec \<Rightarrow> 'k \<Rightarrow> 'v \<Rightarrow> ('k, 'v) store \<times> fs \<Rightarrow> ('k, 'v) store \<times> fs" where
  "calm_set cd k v s = snd (store_set cd k v (fst s) (snd s))"

definition calm_delete :: "('k::linorder, 'v) codec \<Rightarrow> 'k \<Rightarrow> ('k, 'v) store \<times> fs \<Rightarrow> ('k, 'v) store \<times> fs" where
  "calm_delete cd k s = snd (store_delete cd k (fst s) (snd s))"

definition calm_ok :: "('k::linorder, 'v) store \<times> fs \<Rightarrow> bool" where
  "calm_ok s \<longleftrightarrow> bt_ok (btree_map (fst s)) \<and> plan (snd s) = []"

lemma delete_calm:
  assumes "plan s = []" and "store_delete cd k st s = (r, st', t)"
  shows "st' = st\<lparr>btree_map := bt_remove k (btree_map st)\<rparr>" "plan t = []"
proof -
  obtain r1 u where u: "write_frame cd (log_file st) (Delete k) s = (r1, u)" by fastforce
  from appends_frame [OF u] assms(1) have a: "\<not> isl r1" "plan u = []" by (auto simp: appends_def)
  then have "io_bind (write_frame cd (log_file st) (Delete k)) (\<lambda>_. sync_all (log_file st)) s =
      (Inr (), u\<lparr>disk_data := (disk_data u)(log_file st := data u (log_file st))\<rparr>)"
    using u by (cases r1) (simp_all add: io_bind_def sync_all_def attempt_calm)
  with store_delete_result [OF assms(2)] a(2)
  show "st' = st\<lparr>btree_map := bt_remove k (btree_map st)\<rparr>" "plan t = []" by auto
qed

lemma calm_effect:
  assumes "calm_ok s"
  shows "btree_map (fst (calm_set cd k v s)) = bt_insert k v (btree_map (fst s))" "plan (snd (calm_set cd k v s)) = []"
    "btree_map (fst (calm_delete cd k s)) = bt_remove k (btree_map (fst s))" "plan (snd (calm_delete cd k s)) = []"
proof -
  have p: "plan (snd s) = []" using assms by (simp add: calm_ok_def)
  obtain r st' t where "store_set cd k v (fst s) (snd s) = (r, st', t)" by (metis prod_cases3)
  with set_calm [OF p this] show "btree_map (fst (calm_set cd k v s)) = bt_insert k v (btree_map (fst s))"
    "plan (snd (calm_set cd k v s)) = []" by (simp_all add: calm_set_def)
  obtain r st' t where "store_delete cd k (fst s) (snd s) = (r, st', t)" by (metis prod_cases3)
  with delete_calm [OF p this] show "btree_map (fst (calm_delete cd k s)) = bt_remove k (btree_map (fst s))"
    "plan (snd (calm_delete cd k s)) = []" by (simp_all add: calm_delete_def)
qed

interpretation wal: kv_store "\<lambda>k s. store_get k (fst s)" "calm_set cd" "calm_delete cd"
    "\<lambda>lo hi s. store_scan lo hi (fst s)" "\<lambda>s. store_len (fst s)" calm_ok
  for cd :: "('k::linorder, 'v) codec"
proof unfold_locales
  fix s :: "('k, 'v) store \<times> fs" and k j v lo hi xs
  assume s: "calm_ok s"
  note e = calm_effect [OF s, of cd]
  show "calm_ok (calm_set cd k v s)" "calm_ok (calm_delete cd k s)" using e s by (simp_all add: calm_ok_def)
  show "store_get j (fst (calm_set cd k v s)) = (if j = k then Some v else store_get j (fst s))"
    "store_get j (fst (calm_delete cd k s)) = (if j = k then None else store_get j (fst s))"
    using e by (simp_all add: store_get_def)
  have b: "bt_ok (btree_map (fst s))" using s by (simp add: calm_ok_def)
  show "store_scan lo hi (fst s) = None \<longleftrightarrow> range_panics lo hi"
    "map_option length (store_scan Unbounded Unbounded (fst s)) = Some (store_len (fst s))"
    using bt_range_kv [OF b] by (simp_all add: store_scan_def store_len_def)
  assume "store_scan lo hi (fst s) = Some xs"
  then show "sorted_wrt (<) (map fst xs)" "(k, v) \<in> set xs \<longleftrightarrow> store_get k (fst s) = Some v \<and> above lo k \<and> below hi k"
    using bt_range_spec [OF b] by (simp_all add: store_scan_def store_get_def)
qed

interpretation stores: kv_pair mem_get mem_set mem_delete mem_scan mem_len mem_ok
    "\<lambda>k s. store_get k (fst s)" "calm_set cd" "calm_delete cd"
    "\<lambda>lo hi s. store_scan lo hi (fst s)" "\<lambda>s. store_len (fst s)" calm_ok
  for cd :: "('k::linorder, 'v) codec"
  by unfold_locales

fun mem_exec :: "('k::linorder, 'v) kv_op \<Rightarrow> ('k, 'v) mem_store \<Rightarrow> ('k, 'v) mem_store" where
  "mem_exec (Put k v) st = mem_set k v st"
| "mem_exec (Del k) st = mem_delete k st"

fun calm_exec :: "('k::linorder, 'v) codec \<Rightarrow> ('k, 'v) kv_op \<Rightarrow> ('k, 'v) store \<times> fs \<Rightarrow> ('k, 'v) store \<times> fs" where
  "calm_exec cd (Put k v) s = calm_set cd k v s"
| "calm_exec cd (Del k) s = calm_delete cd k s"

lemma exec_perform: "mem_exec = mem.perform" "calm_exec cd = wal.perform cd"
  by (auto simp: fun_eq_iff mem.perform_def wal.perform_def split: kv_op.split)



end
