(* ===== verification/Gfs_Data.thy ===== *)
theory Gfs_Data
  imports Wal_Log
begin

text \<open>
  The data plane's messages and framing, \<^verbatim>\<open>gfs/src/data.rs\<close>.  The serialiser (\<^verbatim>\<open>postcard\<close>) is third-party
  code: a message type comes with a \<open>wire\<close>, an argument of the framing functions.  A connection is the
  bytes the peer sends before it closes its end, the bytes written so far, and how many more bytes the
  socket takes before it breaks.
\<close>

type_synonym chunk_id = u64
type_synonym server_id = u64

datatype socket_addr = V4 u32 u16 | V6 "128 word" u16

datatype data_request =
    Write chunk_id "socket_addr option" "u8 list"
  | Read chunk_id
  | Read_Range chunk_id u64 u64

datatype data_response =
    Written
  | Data "u8 list"
  | Data_Not_Found
  | Data_Error string

section \<open>Framing\<close>

definition MAX_FRAME_LEN :: nat where "MAX_FRAME_LEN = 64 * 1024 * 1024"

record 'm wire =
  to_bytes :: "'m \<Rightarrow> u8 list option"
  of_bytes :: "u8 list \<Rightarrow> 'm option"

definition wire_ok :: "'m wire \<Rightarrow> bool" where
  "wire_ok w \<longleftrightarrow> (\<forall>m bs. to_bytes w m = Some bs \<longrightarrow> of_bytes w bs = Some m)"

text \<open>The I/O errors of the data plane.  \<open>Too_Deep\<close> is no error of the code: it marks where the model's bound on
  forwarding chains is hit; by \<open>exchange_bound\<close> in \<open>Gfs_Net\<close> a larger bound changes nothing.\<close>

datatype net_error =
    Eof | Invalid_Data | Invalid_Input | Broken_Pipe | Unreachable
  | Other string | Unexpected_Reply data_response | Too_Deep

record conn =
  incoming :: "u8 list"
  outgoing :: "u8 list"
  capacity :: "nat option"

definition conn_write :: "u8 list \<Rightarrow> conn \<Rightarrow> (net_error + unit) \<times> conn" where
  "conn_write bs c =
     (case capacity c of
        None \<Rightarrow> (Inr (), c\<lparr>outgoing := outgoing c @ bs\<rparr>)
      | Some n \<Rightarrow>
          if length bs \<le> n then (Inr (), c\<lparr>outgoing := outgoing c @ bs, capacity := Some (n - length bs)\<rparr>)
          else (Inl Broken_Pipe, c\<lparr>outgoing := outgoing c @ take n bs, capacity := Some 0\<rparr>))"

definition conn_read :: "nat \<Rightarrow> conn \<Rightarrow> (net_error + u8 list) \<times> conn" where
  "conn_read n c =
     (if length (incoming c) < n then (Inl Eof, c\<lparr>incoming := []\<rparr>)
      else (Inr (take n (incoming c)), c\<lparr>incoming := drop n (incoming c)\<rparr>))"

definition write_data_frame :: "'m wire \<Rightarrow> 'm \<Rightarrow> conn \<Rightarrow> (net_error + unit) \<times> conn" where
  "write_data_frame w msg c =
     (case to_bytes w msg of
        None \<Rightarrow> (Inl Invalid_Data, c)
      | Some body \<Rightarrow>
          if length body \<ge> 2 ^ 32 then (Inl Invalid_Input, c)
          else (case conn_write (to_le_bytes (of_nat (length body))) c of
            (Inl e, c) \<Rightarrow> (Inl e, c)
          | (Inr _, c) \<Rightarrow> conn_write body c))"

definition read_data_frame :: "'m wire \<Rightarrow> conn \<Rightarrow> (net_error + 'm) \<times> conn" where
  "read_data_frame w c =
     (case conn_read 4 c of
        (Inl e, c) \<Rightarrow> (Inl e, c)
      | (Inr len_buf, c) \<Rightarrow>
          (let len = unat (from_le_bytes len_buf) in
           if len > MAX_FRAME_LEN then (Inl Invalid_Data, c)
           else (case conn_read len c of
             (Inl e, c) \<Rightarrow> (Inl e, c)
           | (Inr body, c) \<Rightarrow> (case of_bytes w body of None \<Rightarrow> (Inl Invalid_Data, c) | Some m \<Rightarrow> (Inr m, c)))))"

section \<open>Frames as bytes\<close>

definition data_frame :: "u8 list \<Rightarrow> u8 list" where
  "data_frame body = to_le_bytes (of_nat (length body)) @ body"

lemma write_data_frame_bytes:
  assumes "capacity c = None" and "to_bytes w m = Some body" and "length body < 2 ^ 32"
  shows "write_data_frame w m c = (Inr (), c\<lparr>outgoing := outgoing c @ data_frame body\<rparr>)"
  using assms by (simp add: write_data_frame_def conn_write_def data_frame_def)

lemma write_data_frame_prefix:
  assumes "write_data_frame w m c = (r, c')"
  shows "\<exists>bs. outgoing c' = outgoing c @ bs \<and> incoming c' = incoming c \<and>
    (r = Inr () \<longrightarrow> (\<exists>body. to_bytes w m = Some body \<and> length body < 2 ^ 32 \<and> bs = data_frame body))"
  using assms by (auto simp: write_data_frame_def conn_write_def data_frame_def split: option.splits if_splits)

lemma unat_frame_length: "n < 2 ^ 32 \<Longrightarrow> unat (of_nat n :: u32) = n"
  by (rule unat_of_nat_small) simp

lemma read_data_frame_bytes:
  assumes "incoming c = data_frame body @ rest" and "length body \<le> MAX_FRAME_LEN"
  shows "read_data_frame w c =
    ((case of_bytes w body of None \<Rightarrow> Inl Invalid_Data | Some m \<Rightarrow> Inr m), c\<lparr>incoming := rest\<rparr>)"
proof -
  have n: "unat (of_nat (length body) :: u32) = length body"
    using assms(2) by (intro unat_frame_length) (simp add: MAX_FRAME_LEN_def)
  show ?thesis using assms n
    by (simp add: read_data_frame_def conn_read_def data_frame_def from_to_le_bytes length_to_le_bytes split: option.split)
qed

lemma read_data_frame_torn:
  assumes "incoming c = take n (data_frame body)" and "n < length (data_frame body)" and "length body \<le> MAX_FRAME_LEN"
  shows "fst (read_data_frame w c) = Inl Eof"
proof (cases "n < 4")
  case True
  then show ?thesis using assms(1,2) by (simp add: read_data_frame_def conn_read_def data_frame_def)
next
  case False
  have n: "unat (of_nat (length body) :: u32) = length body"
    using assms(3) by (intro unat_frame_length) (simp add: MAX_FRAME_LEN_def)
  have "take 4 (incoming c) = to_le_bytes (of_nat (length body))" "drop 4 (incoming c) = take (n - 4) body"
    using False assms(1) by (simp_all add: data_frame_def min_def)
  moreover have "n - 4 < length body" using False assms(2) by (simp add: data_frame_def)
  ultimately show ?thesis using False assms n
    by (simp add: read_data_frame_def conn_read_def data_frame_def Let_def)
qed

section \<open>Streams of messages\<close>

fun write_frames :: "'m wire \<Rightarrow> 'm list \<Rightarrow> conn \<Rightarrow> (net_error + unit) \<times> conn" where
  "write_frames w [] c = (Inr (), c)"
| "write_frames w (m # ms) c =
     (case write_data_frame w m c of (Inl e, c) \<Rightarrow> (Inl e, c) | (Inr _, c) \<Rightarrow> write_frames w ms c)"

lemma read_data_frame_shorter:
  "read_data_frame w c = (Inr m, c') \<Longrightarrow> length (incoming c') < length (incoming c)"
  by (auto simp: read_data_frame_def conn_read_def Let_def split: if_splits option.splits)

text \<open>Reading frames until a read fails: the messages and the error.\<close>

function read_frames :: "'m wire \<Rightarrow> conn \<Rightarrow> 'm list \<times> net_error" where
  "read_frames w c =
     (case read_data_frame w c of
        (Inl e, _) \<Rightarrow> ([], e)
      | (Inr m, c') \<Rightarrow> (case read_frames w c' of (ms, e) \<Rightarrow> (m # ms, e)))"
  by pat_completeness auto
termination
  by (relation "measure (\<lambda>(w, c). length (incoming c))") (simp_all, metis read_data_frame_shorter)

declare read_frames.simps [simp del]

definition frameable :: "'m wire \<Rightarrow> 'm \<Rightarrow> bool" where
  "frameable w m \<longleftrightarrow> (\<exists>body. to_bytes w m = Some body \<and> length body \<le> MAX_FRAME_LEN)"

definition stream :: "'m wire \<Rightarrow> 'm list \<Rightarrow> u8 list" where
  "stream w ms = concat (map (\<lambda>m. data_frame (the (to_bytes w m))) ms)"

lemma write_frames_stream:
  "capacity c = None \<Longrightarrow> list_all (frameable w) ms \<Longrightarrow>
     write_frames w ms c = (Inr (), c\<lparr>outgoing := outgoing c @ stream w ms\<rparr>)"
proof (induction ms arbitrary: c)
  case (Cons m ms)
  then obtain body where b: "to_bytes w m = Some body" "length body \<le> MAX_FRAME_LEN" by (auto simp: frameable_def)
  then have "length body < 2 ^ 32" by (simp add: MAX_FRAME_LEN_def)
  from write_data_frame_bytes [OF Cons.prems(1) b(1) this] Cons b(1) show ?case by (simp add: stream_def)
qed (simp add: stream_def)

lemma read_frames_stream:
  assumes "wire_ok w"
  shows "list_all (frameable w) ms \<Longrightarrow> incoming c = take n (stream w ms) \<Longrightarrow>
    \<exists>k. read_frames w c = (take k ms, Eof) \<and> (length (stream w ms) \<le> n \<longrightarrow> k = length ms)"
proof (induction ms arbitrary: c n)
  case Nil
  then show ?case by (subst read_frames.simps) (simp add: read_data_frame_def conn_read_def stream_def)
next
  case (Cons m ms)
  then obtain body where b: "to_bytes w m = Some body" "length body \<le> MAX_FRAME_LEN" by (auto simp: frameable_def)
  have st: "stream w (m # ms) = data_frame body @ stream w ms" using b(1) by (simp add: stream_def)
  show ?case
  proof (cases "n < length (data_frame body)")
    case True
    then have "incoming c = take n (data_frame body)" using Cons.prems(2) st by simp
    from read_data_frame_torn [OF this True b(2), of w]
    have "read_frames w c = ([], Eof)"
      by (subst read_frames.simps) (auto split: prod.splits sum.splits)
    moreover have "\<not> length (stream w (m # ms)) \<le> n" using True st by simp
    ultimately show ?thesis by (intro exI [of _ 0]) simp
  next
    case False
    let ?n = "n - length (data_frame body)"
    have "incoming c = data_frame body @ take ?n (stream w ms)" using False Cons.prems(2) st by simp
    from read_data_frame_bytes [OF this b(2), of w] assms b(1)
    have r: "read_data_frame w c = (Inr m, c\<lparr>incoming := take ?n (stream w ms)\<rparr>)" by (simp add: wire_ok_def)
    from Cons.IH [of "c\<lparr>incoming := take ?n (stream w ms)\<rparr>" ?n] Cons.prems(1) obtain k where
      k: "read_frames w (c\<lparr>incoming := take ?n (stream w ms)\<rparr>) = (take k ms, Eof)"
      "length (stream w ms) \<le> ?n \<longrightarrow> k = length ms" by auto
    have "read_frames w c = (take (Suc k) (m # ms), Eof)"
      by (subst read_frames.simps) (simp add: r k(1))
    moreover have "length (stream w (m # ms)) \<le> n \<longrightarrow> Suc k = length (m # ms)" using k(2) False st by auto
    ultimately show ?thesis by blast
  qed
qed

text \<open>What is framed is what is read: the frames of a sequence of messages, cut off after any number of
  bytes, are read back as a prefix of the sequence, all of it when nothing is missing, and then the end of
  the connection is reported, inside a torn frame as well as between frames.\<close>

theorem frames_roundtrip:
  assumes "wire_ok w" and "list_all (frameable w) ms" and "capacity c = None" and "outgoing c = []"
    and "incoming d = take n (outgoing (snd (write_frames w ms c)))"
  shows "fst (write_frames w ms c) = Inr () \<and>
    (\<exists>k. read_frames w d = (take k ms, Eof) \<and>
       (length (outgoing (snd (write_frames w ms c))) \<le> n \<longrightarrow> k = length ms))"
  using write_frames_stream [OF assms(3,2)] read_frames_stream [OF assms(1,2), of d n] assms(4,5) by simp

text \<open>The writer does not enforce the reader's limit: a message of more than 64 MiB and less than 4 GiB is
  written with success and rejected by every reader; only from 4 GiB on does the writer refuse, and then
  nothing is written.\<close>

theorem oversized_frame:
  assumes "to_bytes w m = Some body" and "capacity c = None" and "outgoing c = []"
    and "incoming d = outgoing (snd (write_data_frame w m c))"
  shows "(MAX_FRAME_LEN < length body \<longrightarrow> length body < 2 ^ 32 \<longrightarrow>
      fst (write_data_frame w m c) = Inr () \<and> fst (read_data_frame w d) = Inl Invalid_Data) \<and>
    (2 ^ 32 \<le> length body \<longrightarrow> write_data_frame w m c = (Inl Invalid_Input, c))"
proof (intro conjI impI)
  assume l: "MAX_FRAME_LEN < length body" "length body < 2 ^ 32"
  note b = write_data_frame_bytes [OF assms(2,1) l(2)]
  then show "fst (write_data_frame w m c) = Inr ()" by simp
  have "incoming d = to_le_bytes (of_nat (length body)) @ body" using assms(3,4) b by (simp add: data_frame_def)
  moreover have "unat (of_nat (length body) :: u32) = length body" by (rule unat_frame_length [OF l(2)])
  ultimately show "fst (read_data_frame w d) = Inl Invalid_Data"
    using l(1) by (simp add: read_data_frame_def conn_read_def)
qed (use assms(1) in \<open>simp add: write_data_frame_def\<close>)

section \<open>Witnesses\<close>

definition byte_wire :: "u8 list wire" where
  "byte_wire = \<lparr> to_bytes = Some, of_bytes = Some \<rparr>"

definition fresh_conn :: conn where
  "fresh_conn = \<lparr> incoming = [], outgoing = [], capacity = None \<rparr>"

theorem frames_roundtrip_witness:
  "\<exists>k. read_frames byte_wire (fresh_conn\<lparr>incoming := take 9 (outgoing (snd (write_frames byte_wire [[1], [2, 3]] fresh_conn)))\<rparr>)
     = (take k [[1], [2, 3]], Eof)"
  using frames_roundtrip [of byte_wire "[[1], [2, 3]]" fresh_conn
      "fresh_conn\<lparr>incoming := take 9 (outgoing (snd (write_frames byte_wire [[1], [2, 3]] fresh_conn)))\<rparr>" 9]
  by (auto simp: wire_ok_def byte_wire_def frameable_def MAX_FRAME_LEN_def fresh_conn_def)

theorem oversized_frame_witness:
  "fst (read_data_frame byte_wire
     (fresh_conn\<lparr>incoming := outgoing (snd (write_data_frame byte_wire (replicate 67108865 0) fresh_conn))\<rparr>)) = Inl Invalid_Data"
  using oversized_frame [of byte_wire "replicate 67108865 0" "replicate 67108865 0" fresh_conn
      "fresh_conn\<lparr>incoming := outgoing (snd (write_data_frame byte_wire (replicate 67108865 0) fresh_conn))\<rparr>"]
  by (simp add: byte_wire_def fresh_conn_def MAX_FRAME_LEN_def)

end
