(* ===== verification/Gfs_Master.thy ===== *)
theory Gfs_Master
  imports Gfs_Data "HOL-Library.AList"
begin

text \<open>
  The master server, \<^verbatim>\<open>gfs/src/master.rs\<close>, with the types of \<^verbatim>\<open>gfs/src/lib.rs\<close>.  Each operation runs under
  the master's mutex from its first access of the state to its reply, so it is a function on the state.
  Hash maps are association lists with distinct keys, their order standing for the unspecified iteration
  order; instants are nanoseconds.  A reply of \<open>None\<close> is a panic of the request's task, which leaves the
  state as the task left it.
\<close>

section \<open>State\<close>

record server_info =
  addr :: socket_addr
  last_seen :: nat
  online :: bool

record chunk_info =
  replicas :: "server_id list"
  deleted :: bool

record master =
  files :: "(string \<times> chunk_id list) list"
  chunks :: "(chunk_id \<times> chunk_info) list"
  servers :: "(server_id \<times> server_info) list"
  next_chunk_id :: chunk_id
  next_server_id :: server_id
  rr_cursor :: usize

record replica_set =
  primary :: socket_addr
  secondary :: "socket_addr option"

datatype master_error =
    Path_Not_Found | Already_Exists | Not_Enough_Servers | No_Live_Replicas | Invalid_Chunk_Size

definition master_new :: master where
  "master_new = \<lparr> files = [], chunks = [], servers = [], next_chunk_id = 0, next_server_id = 0, rr_cursor = 0 \<rparr>"

definition CHUNK_SIZE :: u64 where "CHUNK_SIZE = 4 * 1024 * 1024"
definition REPLICATION_FACTOR :: nat where "REPLICATION_FACTOR = 2"
definition HEARTBEAT_INTERVAL :: nat where "HEARTBEAT_INTERVAL = 1000000000"
definition MISSED_HEARTBEATS :: nat where "MISSED_HEARTBEATS = 3"

definition online_server_ids :: "master \<Rightarrow> server_id list" where
  "online_server_ids m = sort (map fst (filter (\<lambda>(_, s). online s) (servers m)))"

text \<open>One tick of \<^verbatim>\<open>detect_timeouts\<close>.\<close>

definition detect_timeouts :: "nat \<Rightarrow> master \<Rightarrow> master" where
  "detect_timeouts now m =
     m\<lparr>servers := map (\<lambda>(i, s).
         (i, if online s \<and> now - last_seen s \<ge> HEARTBEAT_INTERVAL * MISSED_HEARTBEATS then s\<lparr>online := False\<rparr> else s))
       (servers m)\<rparr>"

section \<open>Operations for clients\<close>

definition div_ceil :: "u64 \<Rightarrow> u64 \<Rightarrow> u64" where
  "div_ceil a b = (let d = a div b; r = a mod b in if r > 0 then d + 1 else d)"

text \<open>\<^verbatim>\<open>Vec::with_capacity\<close> panics when the bytes asked for exceed \<^verbatim>\<open>isize::MAX\<close>; an entry of the result takes
  72 bytes, an identifier 8.\<close>

definition capacity_overflow :: "nat \<Rightarrow> nat \<Rightarrow> bool" where
  "capacity_overflow n elem \<longleftrightarrow> n * elem > 2 ^ 63 - 1"

fun pick_replicas :: "server_id list \<Rightarrow> nat \<Rightarrow> usize \<Rightarrow> server_id list \<times> usize" where
  "pick_replicas ids 0 cursor = ([], cursor)"
| "pick_replicas ids (Suc k) cursor =
     (let sid = ids ! (unat cursor mod length ids) in
      case pick_replicas ids k (cursor + 1) of (sids, cursor') \<Rightarrow> (sid # sids, cursor'))"

definition addrs_of :: "master \<Rightarrow> server_id list \<Rightarrow> socket_addr list option" where
  "addrs_of m sids = those (map (\<lambda>s. map_option addr (map_of (servers m) s)) sids)"

fun allocate_chunks ::
    "server_id list \<Rightarrow> nat \<Rightarrow> master \<Rightarrow> (chunk_id \<times> replica_set) list option \<times> master" where
  "allocate_chunks ids 0 m = (Some [], m)"
| "allocate_chunks ids (Suc n) m =
     (let chunk_id = next_chunk_id m in
      case pick_replicas ids REPLICATION_FACTOR (rr_cursor m) of (sids, cursor) \<Rightarrow>
        (let m1 = m\<lparr>next_chunk_id := next_chunk_id m + 1, rr_cursor := cursor\<rparr> in
         case addrs_of m sids of
           Some (p # q # _) \<Rightarrow>
             (let m2 = m1\<lparr>chunks := AList.update chunk_id \<lparr> replicas = sids, deleted = False \<rparr> (chunks m1)\<rparr> in
              case allocate_chunks ids n m2 of
                (Some r, m3) \<Rightarrow> (Some ((chunk_id, \<lparr> primary = p, secondary = Some q \<rparr>) # r), m3)
              | (None, m3) \<Rightarrow> (None, m3))
         | _ \<Rightarrow> (None, m1)))"

type_synonym allocation = "(chunk_id \<times> replica_set) list"

definition allocate :: "string \<Rightarrow> u64 \<Rightarrow> u64 \<Rightarrow> master \<Rightarrow> (master_error + allocation) option \<times> master" where
  "allocate path len chunk_size m =
     (if chunk_size = 0 then (Some (Inl Invalid_Chunk_Size), m)
      else if map_of (files m) path \<noteq> None then (Some (Inl Already_Exists), m)
      else (let ids = online_server_ids m in
        if length ids < REPLICATION_FACTOR then (Some (Inl Not_Enough_Servers), m)
        else (let n_chunks = unat (if len = 0 then 0 else div_ceil len chunk_size) in
          if capacity_overflow n_chunks 8 \<or> capacity_overflow n_chunks 72 then (None, m)
          else (case allocate_chunks ids n_chunks m of
            (None, m1) \<Rightarrow> (None, m1)
          | (Some r, m1) \<Rightarrow> (Some (Inr r), m1\<lparr>files := AList.update path (map fst r) (files m1)\<rparr>)))))"

definition live_addrs :: "master \<Rightarrow> chunk_info \<Rightarrow> socket_addr list" where
  "live_addrs m info =
     List.map_filter
       (\<lambda>sid. case map_of (servers m) sid of Some s \<Rightarrow> if online s then Some (addr s) else None | None \<Rightarrow> None)
       (replicas info)"

fun lookup_chunks :: "master \<Rightarrow> chunk_id list \<Rightarrow> master_error + allocation" where
  "lookup_chunks m [] = Inr []"
| "lookup_chunks m (cid # cids) =
     (case map_of (chunks m) cid of
        None \<Rightarrow> Inl No_Live_Replicas
      | Some info \<Rightarrow>
          (case live_addrs m info of
             [] \<Rightarrow> Inl No_Live_Replicas
           | p # rest \<Rightarrow>
               (case lookup_chunks m cids of
                  Inl e \<Rightarrow> Inl e
                | Inr r \<Rightarrow> Inr ((cid, \<lparr> primary = p, secondary = (case rest of [] \<Rightarrow> None | q # _ \<Rightarrow> Some q) \<rparr>) # r))))"

definition lookup :: "string \<Rightarrow> master \<Rightarrow> master_error + allocation" where
  "lookup path m = (case map_of (files m) path of None \<Rightarrow> Inl Path_Not_Found | Some cids \<Rightarrow> lookup_chunks m cids)"

definition mark_deleted :: "chunk_id \<Rightarrow> (chunk_id \<times> chunk_info) list \<Rightarrow> (chunk_id \<times> chunk_info) list" where
  "mark_deleted cid cs =
     (case map_of cs cid of None \<Rightarrow> cs | Some info \<Rightarrow> AList.update cid (info\<lparr>deleted := True\<rparr>) cs)"

definition delete_path :: "string \<Rightarrow> master \<Rightarrow> (master_error + unit) \<times> master" where
  "delete_path path m =
     (case map_of (files m) path of
        None \<Rightarrow> (Inl Path_Not_Found, m)
      | Some cids \<Rightarrow>
          (Inr (), m\<lparr>files := AList.delete path (files m), chunks := fold mark_deleted cids (chunks m)\<rparr>))"

section \<open>Operations for chunk servers\<close>

definition register :: "nat \<Rightarrow> socket_addr \<Rightarrow> master \<Rightarrow> server_id \<times> master" where
  "register now a m =
     (let i = next_server_id m in
      (i, m\<lparr>next_server_id := i + 1,
            servers := AList.update i \<lparr> addr = a, last_seen = now, online = True \<rparr> (servers m)\<rparr>))"

definition touch_server :: "nat \<Rightarrow> server_id \<Rightarrow> master \<Rightarrow> master" where
  "touch_server now sid m =
     (case map_of (servers m) sid of
        None \<Rightarrow> m
      | Some s \<Rightarrow> m\<lparr>servers := AList.update sid (s\<lparr>last_seen := now, online := True\<rparr>) (servers m)\<rparr>)"

definition wanted :: "master \<Rightarrow> server_id \<Rightarrow> chunk_id \<Rightarrow> bool" where
  "wanted m sid cid =
     (case map_of (chunks m) cid of Some info \<Rightarrow> \<not> deleted info \<and> sid \<in> set (replicas info) | None \<Rightarrow> False)"

definition dropped :: "server_id \<Rightarrow> chunk_id list \<Rightarrow> chunk_id \<times> chunk_info \<Rightarrow> bool" where
  "dropped sid held ci \<longleftrightarrow> deleted (snd ci) \<and> fst ci \<notin> set held \<and> sid \<in> set (replicas (snd ci))"

definition without_replica :: "server_id \<Rightarrow> chunk_info \<Rightarrow> chunk_info" where
  "without_replica sid info = info\<lparr>replicas := filter (\<lambda>s. s \<noteq> sid) (replicas info)\<rparr>"

definition reconcile :: "server_id \<Rightarrow> chunk_id list \<Rightarrow> (chunk_id \<times> chunk_info) list \<Rightarrow> (chunk_id \<times> chunk_info) list" where
  "reconcile sid held cs =
     (let cs1 = map (\<lambda>ci. if dropped sid held ci then (fst ci, without_replica sid (snd ci)) else ci) cs;
          forget = map fst (filter (\<lambda>ci. dropped sid held ci \<and> replicas (without_replica sid (snd ci)) = []) cs)
      in fold AList.delete forget cs1)"

definition heartbeat :: "nat \<Rightarrow> server_id \<Rightarrow> chunk_id list \<Rightarrow> master \<Rightarrow> chunk_id list \<times> master" where
  "heartbeat now sid chunks_held m =
     (let m1 = touch_server now sid m;
          drop_chunks = filter (\<lambda>cid. \<not> wanted m1 sid cid) chunks_held
      in (drop_chunks, m1\<lparr>chunks := reconcile sid chunks_held (chunks m1)\<rparr>))"

section \<open>The served requests\<close>

datatype master_call =
    Call_Allocate string u64 u64
  | Call_Lookup string
  | Call_Delete string
  | Call_Register socket_addr
  | Call_Heartbeat server_id "chunk_id list"
  | Tick

datatype master_reply =
    Reply_Allocation "(master_error + allocation) option"
  | Reply_Lookup "master_error + allocation"
  | Reply_Delete "master_error + unit"
  | Reply_Registered server_id
  | Reply_Drop "chunk_id list"
  | No_Reply

fun master_serve :: "nat \<Rightarrow> master_call \<Rightarrow> master \<Rightarrow> master_reply \<times> master" where
  "master_serve now (Call_Allocate p l c) m = map_prod Reply_Allocation id (allocate p l c m)"
| "master_serve now (Call_Lookup p) m = (Reply_Lookup (lookup p m), m)"
| "master_serve now (Call_Delete p) m = map_prod Reply_Delete id (delete_path p m)"
| "master_serve now (Call_Register a) m = map_prod Reply_Registered id (register now a m)"
| "master_serve now (Call_Heartbeat sid held) m = map_prod Reply_Drop id (heartbeat now sid held m)"
| "master_serve now Tick m = (No_Reply, detect_timeouts now m)"

text \<open>The chunk identifiers a reply hands out.\<close>

fun new_ids :: "master_reply \<Rightarrow> chunk_id list" where
  "new_ids (Reply_Allocation (Some (Inr r))) = map fst r"
| "new_ids _ = []"

end
