(* ===== verification/Gfs_Chunk.thy ===== *)
theory Gfs_Chunk
  imports Gfs_Store Gfs_Master
begin

text \<open>
  The chunk servers, \<^verbatim>\<open>gfs/src/chunk.rs\<close>, and the network between them.  A node is a chunk server at its data
  address; it accepts connections and sends heartbeats until it is aborted.  One request on a fresh
  connection is an \<open>exchange\<close>: the frame is written, the peer serves the bytes that reach it, the reply is
  read back.  Every connection takes the next entry of \<open>faults\<close>: it works, is refused, or breaks after some
  bytes in one direction; with the list used up, connections work.  An exchange is one computation here;
  \<^verbatim>\<open>Gfs_Cluster\<close> lets other work come between its stores, and a whole exchange is a run of those finer steps
  (lemma \<open>write_chunk_run\<close> of \<^verbatim>\<open>Gfs_Clients\<close>).

  \<open>env\<close> holds what is not the repository's: the serialiser of both message types and the text of an error.
\<close>

section \<open>Nodes and network\<close>

record chunk_server =
  server_id :: server_id
  data_addr :: socket_addr
  chunk_store :: "(chunk_id, u8 list) mem_store"
  listening :: bool
  beating :: bool

datatype fault = Works | Refused | Request_Cut nat | Reply_Cut nat

record net =
  nodes :: "socket_addr \<rightharpoonup> chunk_server"
  faults :: "fault list"

record env =
  request_wire :: "data_request wire"
  response_wire :: "data_response wire"
  error_text :: "socket_addr \<Rightarrow> net_error \<Rightarrow> string"

definition next_fault :: "net \<Rightarrow> fault \<times> net" where
  "next_fault N = (case faults N of [] \<Rightarrow> (Works, N) | f # fs \<Rightarrow> (f, N\<lparr>faults := fs\<rparr>))"

definition on_node :: "socket_addr \<Rightarrow> (chunk_server \<Rightarrow> chunk_server) \<Rightarrow> net \<Rightarrow> net" where
  "on_node a f N = (case nodes N a of None \<Rightarrow> N | Some s \<Rightarrow> N\<lparr>nodes := (nodes N)(a \<mapsto> f s)\<rparr>)"

definition on_store ::
    "socket_addr \<Rightarrow> ((chunk_id, u8 list) mem_store \<Rightarrow> (chunk_id, u8 list) mem_store) \<Rightarrow> net \<Rightarrow> net" where
  "on_store a f = on_node a (\<lambda>s. s\<lparr>chunk_store := f (chunk_store s)\<rparr>)"

definition stored :: "net \<Rightarrow> socket_addr \<Rightarrow> chunk_id \<Rightarrow> u8 list option" where
  "stored N a cid = (case nodes N a of None \<Rightarrow> None | Some s \<Rightarrow> mem_get cid (chunk_store s))"

section \<open>Requests\<close>

definition saturating_add :: "nat \<Rightarrow> nat \<Rightarrow> nat" where
  "saturating_add a b = min (a + b) (2 ^ 64 - 1)"

definition read_range :: "u64 \<Rightarrow> u64 \<Rightarrow> u8 list \<Rightarrow> u8 list" where
  "read_range offset len full =
     (let start = min (unat offset) (length full);
          stop = min (saturating_add start (unat len)) (length full)
      in take (stop - start) (drop start full))"

type_synonym exchanger = "socket_addr \<Rightarrow> data_request \<Rightarrow> net \<Rightarrow> (net_error + data_response) \<times> net"

definition forward :: "exchanger \<Rightarrow> socket_addr \<Rightarrow> chunk_id \<Rightarrow> u8 list \<Rightarrow> net \<Rightarrow> (net_error + unit) \<times> net" where
  "forward ex a cid payload N =
     (case ex a (Write cid None payload) N of
        (Inl e, N) \<Rightarrow> (Inl e, N)
      | (Inr Written, N) \<Rightarrow> (Inr (), N)
      | (Inr (Data_Error msg), N) \<Rightarrow> (Inl (Other msg), N)
      | (Inr other, N) \<Rightarrow> (Inl (Unexpected_Reply other), N))"

fun handle_request :: "env \<Rightarrow> exchanger \<Rightarrow> socket_addr \<Rightarrow> data_request \<Rightarrow> net \<Rightarrow> data_response \<times> net" where
  "handle_request env ex self (Write cid forward_to payload) N =
     (let N1 = on_store self (mem_set cid payload) N in
      case forward_to of
        Some a \<Rightarrow>
          (case forward ex a cid payload N1 of
             (Inr _, N2) \<Rightarrow> (Written, N2)
           | (Inl e, N2) \<Rightarrow> (Data_Error (error_text env a e), N2))
      | None \<Rightarrow> (Written, N1))"
| "handle_request env ex self (Read cid) N =
     (case stored N self cid of Some bytes \<Rightarrow> (Data bytes, N) | None \<Rightarrow> (Data_Not_Found, N))"
| "handle_request env ex self (Read_Range cid offset len) N =
     (case stored N self cid of Some full \<Rightarrow> (Data (read_range offset len full), N) | None \<Rightarrow> (Data_Not_Found, N))"

lemma served_frame_shorter:
  "(Inr req, c1) = read_data_frame w c \<Longrightarrow> (r, c2) = write_data_frame w' resp c1 \<Longrightarrow>
     length (incoming c2) < length (incoming c)"
  using read_data_frame_shorter [of w c req c1] write_data_frame_prefix [of w' resp c1 r c2] by auto

text \<open>The loop of a connection: frames are served until the peer is done or one cannot be read or answered.\<close>

function handle_conn ::
    "env \<Rightarrow> exchanger \<Rightarrow> socket_addr \<Rightarrow> conn \<Rightarrow> net \<Rightarrow> (net_error + unit) \<times> conn \<times> net" where
  "handle_conn env ex self c N =
     (case read_data_frame (request_wire env) c of
        (Inl e, c1) \<Rightarrow> (if e = Eof then Inr () else Inl e, c1, N)
      | (Inr req, c1) \<Rightarrow>
          (case handle_request env ex self req N of
             (resp, N1) \<Rightarrow>
               (case write_data_frame (response_wire env) resp c1 of
                  (Inl e, c2) \<Rightarrow> (Inl e, c2, N1)
                | (Inr _, c2) \<Rightarrow> handle_conn env ex self c2 N1)))"
  by pat_completeness auto
termination
  by (relation "measure (\<lambda>(env, ex, self, c, N). length (incoming c))", simp,
      simp only: in_measure prod.case, erule (1) served_frame_shorter)

declare handle_conn.simps [simp del]

section \<open>Exchanges\<close>

definition client_conn :: "fault \<Rightarrow> conn" where
  "client_conn f = \<lparr> incoming = [], outgoing = [], capacity = (case f of Request_Cut n \<Rightarrow> Some n | _ \<Rightarrow> None) \<rparr>"

definition arriving :: "fault \<Rightarrow> u8 list \<Rightarrow> conn" where
  "arriving f bs = \<lparr> incoming = (case f of Reply_Cut n \<Rightarrow> take n bs | _ \<Rightarrow> bs), outgoing = [], capacity = None \<rparr>"

text \<open>The bound counts the servers a request may pass: a client's write reaches the primary and the
  secondary, so two are enough.\<close>

fun exchange :: "nat \<Rightarrow> env \<Rightarrow> exchanger" where
  "exchange 0 env a req N = (Inl Too_Deep, N)"
| "exchange (Suc d) env a req N =
     (case next_fault N of
        (f, N1) \<Rightarrow>
          (if f = Refused \<or> map_option listening (nodes N1 a) \<noteq> Some True then (Inl Unreachable, N1)
           else (case write_data_frame (request_wire env) req (client_conn f) of
             (sent, c) \<Rightarrow>
               (case handle_conn env (exchange d env) a (arriving Works (outgoing c)) N1 of
                  (_, c', N2) \<Rightarrow>
                    (case sent of
                       Inl e \<Rightarrow> (Inl e, N2)
                     | Inr _ \<Rightarrow> (fst (read_data_frame (response_wire env) (arriving f (outgoing c'))), N2))))))"

section \<open>Life of a server\<close>

definition chunk_register :: "nat \<Rightarrow> socket_addr \<Rightarrow> master \<times> net \<Rightarrow> master \<times> net" where
  "chunk_register now a s =
     (case register now a (fst s) of
        (sid, m) \<Rightarrow>
          (m, (snd s)\<lparr>nodes := (nodes (snd s))(a \<mapsto>
             \<lparr> server_id = sid, data_addr = a, chunk_store = mem_open empty_path, listening = False, beating = False \<rparr>)\<rparr>))"

definition spawn_server :: "socket_addr \<Rightarrow> net \<Rightarrow> net" where
  "spawn_server a = on_node a (\<lambda>s. s\<lparr>listening := True, beating := True\<rparr>)"

definition abort_server :: "socket_addr \<Rightarrow> net \<Rightarrow> net" where
  "abort_server a = on_node a (\<lambda>s. s\<lparr>listening := False, beating := False\<rparr>)"

text \<open>One turn of the heartbeat loop: the report, taken under the store's mutex, and the deletions of the
  reply, under the mutex again.\<close>

definition chunks_held :: "chunk_server \<Rightarrow> chunk_id list" where
  "chunks_held s = (case mem_scan Unbounded Unbounded (chunk_store s) of Some es \<Rightarrow> map fst es | None \<Rightarrow> [])"

definition apply_drops :: "socket_addr \<Rightarrow> chunk_id list \<Rightarrow> net \<Rightarrow> net" where
  "apply_drops a cids N = (if cids = [] then N else on_store a (fold mem_delete cids) N)"

datatype rpc = Rpc_Done | Rpc_Not_Sent | Rpc_Reply_Lost

definition heartbeat_turn :: "nat \<Rightarrow> rpc \<Rightarrow> socket_addr \<Rightarrow> master \<times> net \<Rightarrow> master \<times> net" where
  "heartbeat_turn now rpc a s =
     (case nodes (snd s) a of
        None \<Rightarrow> s
      | Some srv \<Rightarrow>
          if \<not> beating srv \<or> rpc = Rpc_Not_Sent then s
          else (case heartbeat now (server_id srv) (chunks_held srv) (fst s) of
            (drops, m) \<Rightarrow> (m, if rpc = Rpc_Reply_Lost then snd s else apply_drops a drops (snd s))))"

declare on_node_def [gfs_simps]
  on_store_def [gfs_simps]
  stored_def [gfs_simps]

end
