(* ===== verification/Gfs_Net.thy ===== *)
theory Gfs_Net
  imports Gfs_Chunk
begin

text \<open>
  What one exchange does: a write only ever adds its own payload under its own identifier, an acknowledged
  write has reached the primary and the secondary, a read changes nothing and returns what is stored.
  \<open>env_ok\<close> is what the code relies on of the serialiser, that decoding an encoded message gives it back.
\<close>

section \<open>Effects on the nodes\<close>

definition env_ok :: "env \<Rightarrow> bool" where
  "env_ok env \<longleftrightarrow> wire_ok (request_wire env) \<and> wire_ok (response_wire env)"

definition node_id :: "chunk_server \<Rightarrow> server_id \<times> socket_addr \<times> bool \<times> bool" where
  "node_id s = (server_id s, data_addr s, listening s, beating s)"

definition stores_ok :: "net \<Rightarrow> bool" where
  "stores_ok N \<longleftrightarrow> (\<forall>a s. nodes N a = Some s \<longrightarrow> mem_ok (chunk_store s))"

text \<open>Nothing but stores of \<open>p\<close> under \<open>c\<close> happened.\<close>

definition grows :: "chunk_id \<Rightarrow> u8 list \<Rightarrow> net \<Rightarrow> net \<Rightarrow> bool" where
  "grows c p N N' \<longleftrightarrow>
     (\<forall>a. map_option node_id (nodes N' a) = map_option node_id (nodes N a)) \<and>
     (\<forall>a. stored N' a = stored N a \<or> stored N' a = (stored N a)(c \<mapsto> p)) \<and>
     (stores_ok N \<longrightarrow> stores_ok N')"

lemma grows_refl [simp]: "grows c p N N"
  by (simp add: grows_def)

lemma grows_trans: "grows c p N N' \<Longrightarrow> grows c p N' N'' \<Longrightarrow> grows c p N N''"
  unfolding grows_def by (metis fun_upd_upd)

lemma stored_on_store:
  assumes "stores_ok N"
  shows "stored (on_store a (mem_set c p) N) b = (if b = a \<and> nodes N a \<noteq> None then (stored N b)(c \<mapsto> p) else stored N b)"
  using assms
  by (auto simp: fun_eq_iff gfs_simps stores_ok_def mem.get_put split: option.split)

lemma grows_on_store: "grows c p N (on_store a (mem_set c p) N)"
proof -
  have id: "map_option node_id (nodes (on_store a (mem_set c p) N) b) = map_option node_id (nodes N b)" for b
    by (simp add: on_store_def on_node_def node_id_def split: option.split)
  have st: "stored (on_store a (mem_set c p) N) b = stored N b \<or> stored (on_store a (mem_set c p) N) b = (stored N b)(c \<mapsto> p)" for b
    by (auto simp: fun_eq_iff gfs_simps mem_get_def mem_set_def split: option.split)
  have "stores_ok N \<Longrightarrow> stores_ok (on_store a (mem_set c p) N)"
    by (auto simp: stores_ok_def on_store_def on_node_def mem.inv_put split: option.splits if_splits)
  with id st show ?thesis by (simp add: grows_def)
qed

lemma next_fault_net:
  "next_fault N = (f, N') \<Longrightarrow> nodes N' = nodes N" "faults N = [] \<Longrightarrow> next_fault N = (Works, N)"
  by (auto simp: next_fault_def split: list.splits)

lemma same_nodes:
  assumes "nodes N' = nodes N"
  shows "grows c p N N'" "stored N' = stored N"
  using assms by (simp_all add: grows_def stored_def stores_ok_def fun_eq_iff)

section \<open>Serving a connection\<close>

lemma handle_conn_empty: "handle_conn env ex a (arriving Works []) N = (Inr (), arriving Works [], N)"
  by (subst handle_conn.simps) (simp add: read_data_frame_def conn_read_def arriving_def)

text \<open>A connection that carries a prefix of one frame: the request is served if all of it arrived and it is
  not too long, otherwise nothing happens.\<close>

lemma handle_conn_frame:
  assumes "wire_ok (request_wire env)" and "to_bytes (request_wire env) req = Some body"
    and "length body \<le> MAX_FRAME_LEN" and "handle_request env ex a req N = (resp, N')"
  shows "snd (snd (handle_conn env ex a (arriving Works (data_frame body)) N)) = N'"
    "outgoing (fst (snd (handle_conn env ex a (arriving Works (data_frame body)) N))) =
       outgoing (snd (write_data_frame (response_wire env) resp (arriving Works [])))"
proof -
  let ?c = "arriving Works (data_frame body)"
  have "incoming ?c = data_frame body @ []" by (simp add: arriving_def)
  note read_data_frame_bytes [OF this assms(3), of "request_wire env"]
  then have r: "read_data_frame (request_wire env) ?c = (Inr req, arriving Works [])"
    using assms(1,2) by (simp add: wire_ok_def arriving_def)
  obtain w c2 where w: "write_data_frame (response_wire env) resp (arriving Works []) = (w, c2)" by fastforce
  have i: "incoming c2 = []" using write_data_frame_prefix [OF w] by (auto simp: arriving_def)
  then have e: "read_data_frame (request_wire env) c2 = (Inl Eof, c2\<lparr>incoming := []\<rparr>)"
    by (simp add: read_data_frame_def conn_read_def)
  have h: "handle_conn env ex a c2 N' = (Inr (), c2\<lparr>incoming := []\<rparr>, N')"
    by (subst handle_conn.simps) (simp add: e)
  show "snd (snd (handle_conn env ex a ?c N)) = N'"
    "outgoing (fst (snd (handle_conn env ex a ?c N))) = outgoing (snd (write_data_frame (response_wire env) resp (arriving Works [])))"
    by (subst handle_conn.simps; cases w; simp add: r assms(4) w h)+
qed

lemma handle_conn_torn:
  assumes "n < length (data_frame body) \<or> MAX_FRAME_LEN < length body" and "length body < 2 ^ 32"
  shows "snd (snd (handle_conn env ex a (arriving Works (take n (data_frame body))) N)) = N"
    "outgoing (fst (snd (handle_conn env ex a (arriving Works (take n (data_frame body))) N))) = []"
proof -
  let ?c = "arriving Works (take n (data_frame body))"
  obtain r c1 where rc: "read_data_frame (request_wire env) ?c = (r, c1)" by fastforce
  have "outgoing c1 = []" using rc
    by (auto simp: read_data_frame_def conn_read_def arriving_def Let_def split: if_splits option.splits)
  moreover have "isl r"
  proof (cases "MAX_FRAME_LEN < length body \<and> 4 \<le> n")
    case True
    have "unat (of_nat (length body) :: u32) = length body" by (rule unat_frame_length [OF assms(2)])
    then have "fst (read_data_frame (request_wire env) ?c) = Inl Invalid_Data"
      using True by (simp add: read_data_frame_def conn_read_def arriving_def data_frame_def)
    then show ?thesis using rc by simp
  next
    case False
    then have "fst (read_data_frame (request_wire env) ?c) = Inl Eof"
    proof (cases "n < 4")
      case True
      then show ?thesis by (simp add: read_data_frame_def conn_read_def arriving_def data_frame_def)
    next
      case f: False
      with False assms(1) have "n < length (data_frame body)" "length body \<le> MAX_FRAME_LEN" by auto
      then show ?thesis by (intro read_data_frame_torn) (simp_all add: arriving_def)
    qed
    then show ?thesis using rc by simp
  qed
  ultimately show "snd (snd (handle_conn env ex a ?c N)) = N" "outgoing (fst (snd (handle_conn env ex a ?c N))) = []"
    by (subst handle_conn.simps; cases r; simp add: rc)+
qed

section \<open>One exchange\<close>

lemma sent_bytes:
  assumes "to_bytes w m = Some body" and "length body < 2 ^ 32"
  shows "\<exists>n. outgoing (snd (write_data_frame w m (client_conn f))) = take n (data_frame body)"
    "(\<forall>n. f \<noteq> Request_Cut n) \<Longrightarrow>
       write_data_frame w m (client_conn f) = (Inr (), (client_conn f)\<lparr>outgoing := data_frame body\<rparr>)"
proof -
  show whole: "write_data_frame w m (client_conn f) = (Inr (), (client_conn f)\<lparr>outgoing := data_frame body\<rparr>)"
    if "\<forall>n. f \<noteq> Request_Cut n"
  proof -
    have "capacity (client_conn f) = None" using that by (cases f) (simp_all add: client_conn_def)
    from write_data_frame_bytes [OF this assms] show ?thesis by (simp add: client_conn_def)
  qed
  show "\<exists>n. outgoing (snd (write_data_frame w m (client_conn f))) = take n (data_frame body)"
  proof (cases "\<forall>n. f \<noteq> Request_Cut n")
    case True
    then show ?thesis using whole by (intro exI [of _ "length (data_frame body)"]) simp
  next
    case False
    then obtain n where "f = Request_Cut n" by blast
    then show ?thesis using assms
      by (intro exI [of _ n]) (auto simp: write_data_frame_def conn_write_def client_conn_def data_frame_def min_def)
  qed
qed

lemma unsent_bytes:
  assumes "to_bytes w m = None \<or> (\<exists>body. to_bytes w m = Some body \<and> 2 ^ 32 \<le> length body)"
  shows "outgoing (snd (write_data_frame w m c)) = outgoing c" "isl (fst (write_data_frame w m c))"
  using assms by (auto simp: write_data_frame_def)

lemma arriving_take: "\<exists>n. incoming (arriving f bs) = take n bs"
  by (cases f) (auto simp: arriving_def intro: exI [of _ "length bs"])

lemma reply_read:
  assumes "wire_ok w"
  shows "fst (read_data_frame w (arriving f (outgoing (snd (write_data_frame w resp (arriving Works [])))))) = Inr x \<Longrightarrow> x = resp"
    "frameable w resp \<Longrightarrow> (\<forall>n. f \<noteq> Reply_Cut n) \<Longrightarrow>
       fst (read_data_frame w (arriving f (outgoing (snd (write_data_frame w resp (arriving Works [])))))) = Inr resp"
proof -
  let ?bs = "outgoing (snd (write_data_frame w resp (arriving Works [])))"
  have full: "fst (read_data_frame w (arriving g ?bs)) = Inr resp"
    if "to_bytes w resp = Some body" "length body \<le> MAX_FRAME_LEN" "incoming (arriving g ?bs) = ?bs" for g body
  proof -
    have "length body < 2 ^ 32" using that(2) by (simp add: MAX_FRAME_LEN_def)
    from write_data_frame_bytes [OF _ that(1) this, of "arriving Works []"]
    have "incoming (arriving g ?bs) = data_frame body @ []" using that(3) by (simp add: arriving_def)
    from read_data_frame_bytes [OF this that(2), of w] show ?thesis using assms that(1) by (simp add: wire_ok_def)
  qed
  show "fst (read_data_frame w (arriving f ?bs)) = Inr resp" if "frameable w resp" "\<forall>n. f \<noteq> Reply_Cut n"
  proof -
    from that(1) obtain body where b: "to_bytes w resp = Some body" "length body \<le> MAX_FRAME_LEN"
      by (auto simp: frameable_def)
    have "incoming (arriving f ?bs) = ?bs" using that(2) by (cases f) (simp_all add: arriving_def)
    from full [OF b this] show ?thesis .
  qed
  show "x = resp" if x: "fst (read_data_frame w (arriving f ?bs)) = Inr x"
  proof (cases "\<exists>body. to_bytes w resp = Some body \<and> length body < 2 ^ 32")
    case True
    then obtain body where b: "to_bytes w resp = Some body" "length body < 2 ^ 32" by blast
    from write_data_frame_bytes [OF _ b, of "arriving Works []"] have bs: "?bs = data_frame body"
      by (simp add: arriving_def)
    from arriving_take [of f ?bs] obtain n where n: "incoming (arriving f ?bs) = take n (data_frame body)"
      unfolding bs by blast
    have len: "length body \<le> MAX_FRAME_LEN"
    proof (rule ccontr)
      assume "\<not> length body \<le> MAX_FRAME_LEN"
      moreover have "unat (of_nat (length body) :: u32) = length body" by (rule unat_frame_length [OF b(2)])
      ultimately show False using x n
        by (cases "n < 4") (auto simp: read_data_frame_def conn_read_def data_frame_def split: if_splits)
    qed
    have "\<not> n < length (data_frame body)"
      using read_data_frame_torn [OF n _ len, of w] x by auto
    then have "incoming (arriving f ?bs) = data_frame body @ []" using n by simp
    from read_data_frame_bytes [OF this len, of w] x b(1) assms show ?thesis by (simp add: wire_ok_def)
  next
    case False
    then have "?bs = []"
      using unsent_bytes(1) [of w resp "arriving Works []"] by (cases "to_bytes w resp") (auto simp: arriving_def)
    then show ?thesis using x by (cases f) (auto simp: read_data_frame_def conn_read_def arriving_def)
  qed
qed

lemma exchange_cases:
  assumes "env_ok env" and "exchange (Suc d) env a req N = (r, N')"
  obtains (untouched) f where "nodes N' = nodes N" "isl r" "next_fault N = (f, N')"
    | (served) f N1 resp where "next_fault N = (f, N1)" "map_option listening (nodes N a) = Some True"
        "frameable (request_wire env) req" "handle_request env (exchange d env) a req N1 = (resp, N')"
        "isl r \<or> r = Inr resp"
proof -
  obtain f N1 where f: "next_fault N = (f, N1)" by fastforce
  note n1 = next_fault_net(1) [OF f]
  let ?w = "request_wire env"
  show thesis
  proof (cases "f = Refused \<or> map_option listening (nodes N1 a) \<noteq> Some True")
    case True
    then show thesis using assms(2) f n1 untouched [of f] by auto
  next
    case up: False
    obtain sent c where s: "write_data_frame ?w req (client_conn f) = (sent, c)" by fastforce
    obtain e c' N2 where h: "handle_conn env (exchange d env) a (arriving Works (outgoing c)) N1 = (e, c', N2)"
      by (metis prod_cases3)
    have out: "N' = N2" "r = (case sent of Inl e \<Rightarrow> Inl e
        | Inr _ \<Rightarrow> fst (read_data_frame (response_wire env) (arriving f (outgoing c'))))"
      using assms(2) up f s h by (auto split: sum.splits)
    show thesis
    proof (cases "\<exists>body. to_bytes ?w req = Some body \<and> length body < 2 ^ 32")
      case False
      then have u: "outgoing c = []" "isl sent" using unsent_bytes [of ?w req "client_conn f"] s
        by (cases "to_bytes ?w req"; auto simp: client_conn_def)+
      have "N2 = N1" using h u(1) by (simp add: handle_conn_empty)
      then show thesis using out u(2) n1 untouched [of f] f by (cases sent) auto
    next
      case True
      then obtain body where b: "to_bytes ?w req = Some body" "length body < 2 ^ 32" by blast
      from sent_bytes(1) [OF b, of f] s obtain n where n: "outgoing c = take n (data_frame body)" by auto
      show thesis
      proof (cases "n < length (data_frame body) \<or> MAX_FRAME_LEN < length body")
        case True
        from handle_conn_torn [OF True b(2), of env "exchange d env" a N1] h n
        have t: "N2 = N1" "outgoing c' = []" by simp_all
        have "isl r" using t(2) unfolding out(2)
          by (cases sent; cases f) (auto simp: read_data_frame_def conn_read_def arriving_def)
        then show thesis using t(1) out(1) n1 untouched [of f] f by simp
      next
        case False
        obtain resp N3 where q: "handle_request env (exchange d env) a req N1 = (resp, N3)" by fastforce
        have l: "length body \<le> MAX_FRAME_LEN" using False by simp
        from handle_conn_frame [OF _ b(1) l q] assms(1) h n False
        have k: "N2 = N3" "outgoing c' = outgoing (snd (write_data_frame (response_wire env) resp (arriving Works [])))"
          by (simp_all add: env_ok_def)
        have "isl r \<or> r = Inr resp"
          using reply_read(1) [of "response_wire env" f resp] assms(1) unfolding out(2) k(2) env_ok_def
          by (cases sent) (auto simp: isl_def, metis sum.exhaust)
        then show thesis using served [OF f] up n1 q b(1) l k(1) out(1) by (auto simp: frameable_def)
      qed
    qed
  qed
qed

section \<open>Writes\<close>

lemma on_store_nodes: "nodes N1 = nodes N \<Longrightarrow> nodes (on_store a f N1) = nodes (on_store a f N)"
  by (simp add: on_store_def on_node_def split: option.split)

lemma on_store_listening: "map_option listening (nodes (on_store a f N) b) = map_option listening (nodes N b)"
  by (simp add: on_store_def on_node_def split: option.split)

text \<open>How far a write came: nowhere, to the store of the addressed server, or to both stores; and a write that was
  acknowledged came all the way.\<close>

lemma exchange_leaf_write:
  assumes "env_ok env" and "exchange (Suc d) env b (Write c None p) N = (r, N')"
  shows "nodes N' = nodes N \<and> isl r \<or>
    map_option listening (nodes N b) = Some True \<and> nodes N' = nodes (on_store b (mem_set c p) N)"
  using assms
proof (cases rule: exchange_cases)
  case (served f N1 resp)
  then show ?thesis using on_store_nodes [OF next_fault_net(1) [OF served(1)]] by auto
qed simp

lemma exchange_write:
  assumes "env_ok env" and "exchange (Suc (Suc d)) env a (Write c ft p) N = (r, N')"
  obtains (unsent) "nodes N' = nodes N" "isl r"
    | (first) "map_option listening (nodes N a) = Some True" "nodes N' = nodes (on_store a (mem_set c p) N)"
        "r = Inr Written \<Longrightarrow> ft = None"
    | (both) b where "ft = Some b" "map_option listening (nodes N a) = Some True" "map_option listening (nodes N b) = Some True"
        "nodes N' = nodes (on_store b (mem_set c p) (on_store a (mem_set c p) N))"
  using assms
proof (cases rule: exchange_cases)
  case (served f N1 resp)
  let ?N = "on_store a (mem_set c p) N1"
  have n: "nodes ?N = nodes (on_store a (mem_set c p) N)" by (rule on_store_nodes [OF next_fault_net(1) [OF served(1)]])
  show thesis
  proof (cases ft)
    case None
    then show thesis using served(2,4) n by (intro first) simp_all
  next
    case (Some b)
    obtain x N3 where x: "exchange (Suc d) env b (Write c None p) ?N = (x, N3)" by fastforce
    then have N3: "N' = N3" and ack: "r = Inr Written \<Longrightarrow> \<not> isl x"
      using served(4,5) Some by (auto simp: forward_def split: sum.splits data_response.splits)
    from exchange_leaf_write [OF assms(1) x] show thesis
    proof
      assume "nodes N3 = nodes ?N \<and> isl x"
      then show thesis using served(2) n N3 ack by (intro first) auto
    next
      assume b: "map_option listening (nodes ?N b) = Some True \<and> nodes N3 = nodes (on_store b (mem_set c p) ?N)"
      moreover have "map_option listening (nodes ?N b) = map_option listening (nodes N b)"
        unfolding n by (rule on_store_listening)
      ultimately show thesis using served(2) on_store_nodes [OF n] N3 by (intro both [OF Some]) simp_all
    qed
  qed
qed (rule unsent)

lemma exchange_write_grows:
  assumes "env_ok env" and "exchange (Suc (Suc d)) env a (Write c ft p) N = (r, N')"
  shows "grows c p N N'"
  using assms
proof (cases rule: exchange_write)
  case unsent
  then show ?thesis by (intro same_nodes)
next
  case first
  then show ?thesis using grows_trans [OF grows_on_store same_nodes(1)] by simp
next
  case (both b)
  then show ?thesis using grows_trans [OF grows_trans [OF grows_on_store grows_on_store] same_nodes(1)] by simp
qed

section \<open>Reads\<close>

lemma exchange_read:
  assumes "env_ok env" and "exchange (Suc d) env a (Read c) N = (r, N')"
  shows "nodes N' = nodes N" "r = Inr (Data bs) \<Longrightarrow> stored N a c = Some bs" "faults N = [] \<Longrightarrow> N' = N"
proof -
  have "nodes N' = nodes N \<and> (r = Inr (Data bs) \<longrightarrow> stored N a c = Some bs) \<and> (faults N = [] \<longrightarrow> N' = N)"
    using assms
  proof (cases rule: exchange_cases)
    case (served f N1 resp)
    note n = next_fault_net(1) [OF served(1)] 
    then have "stored N1 a c = stored N a c" by (simp add: stored_def)
    have "faults N = [] \<Longrightarrow> N1 = N" using served(1) by (simp add: next_fault_def)
    with \<open>stored N1 a c = stored N a c\<close> show ?thesis using served(4,5) n by (auto split: option.splits)
  qed (auto simp: isl_def next_fault_def)
  then show "nodes N' = nodes N" "r = Inr (Data bs) \<Longrightarrow> stored N a c = Some bs" "faults N = [] \<Longrightarrow> N' = N" by simp_all
qed

section \<open>Calm network\<close>

lemma exchange_works:
  assumes "env_ok env" and "faults N = []" and "map_option listening (nodes N a) = Some True"
    and "frameable (request_wire env) req" and "handle_request env (exchange d env) a req N = (resp, N')"
    and "frameable (response_wire env) resp"
  shows "exchange (Suc d) env a req N = (Inr resp, N')"
proof -
  let ?w = "request_wire env" and ?v = "response_wire env"
  from assms(4) obtain body where b: "to_bytes ?w req = Some body" "length body \<le> MAX_FRAME_LEN"
    by (auto simp: frameable_def)
  then have l: "length body < 2 ^ 32" by (simp add: MAX_FRAME_LEN_def)
  have s: "write_data_frame ?w req (client_conn Works) = (Inr (), (client_conn Works)\<lparr>outgoing := data_frame body\<rparr>)"
    by (rule sent_bytes(2) [OF b(1) l]) simp
  obtain e c' N2 where h: "handle_conn env (exchange d env) a (arriving Works (data_frame body)) N = (e, c', N2)"
    by (metis prod_cases3)
  from handle_conn_frame [OF _ b(1,2) assms(5)] h assms(1)
  have k: "N2 = N'" "outgoing c' = outgoing (snd (write_data_frame ?v resp (arriving Works [])))"
    by (simp_all add: env_ok_def)
  have "fst (read_data_frame ?v (arriving Works (outgoing c'))) = Inr resp"
    unfolding k(2) using assms(1,6) by (intro reply_read(2)) (simp_all add: env_ok_def)
  then show ?thesis using assms(2,3) s h k(1) by (simp add: next_fault_net(2))
qed

lemma exchange_read_works:
  assumes "env_ok env" and "faults N = []" and "map_option listening (nodes N a) = Some True"
    and "stored N a c = Some bs" and "frameable (request_wire env) (Read c)" and "frameable (response_wire env) (Data bs)"
  shows "exchange (Suc d) env a (Read c) N = (Inr (Data bs), N)"
  using assms by (intro exchange_works) simp_all

text \<open>A write with both servers up ends with both stores done.\<close>

lemma on_store_node:
  "faults (on_store a f N) = faults N" "map_option node_id (nodes (on_store a f N) b) = map_option node_id (nodes N b)"
  "map_option listening (nodes (on_store a f N) b) = map_option listening (nodes N b)"
  by (simp_all add: on_store_def on_node_def node_id_def split: option.split)

lemma exchange_write_works:
  assumes "env_ok env" and "faults N = []" and "map_option listening (nodes N a) = Some True"
    and "map_option listening (nodes N b) = Some True" and "frameable (request_wire env) (Write c (Some b) p)"
    and "frameable (request_wire env) (Write c None p)" and "frameable (response_wire env) Written"
  shows "exchange (Suc (Suc d)) env a (Write c (Some b) p) N =
    (Inr Written, on_store b (mem_set c p) (on_store a (mem_set c p) N))"
proof -
  let ?N = "on_store a (mem_set c p) N"
  have "exchange (Suc d) env b (Write c None p) ?N = (Inr Written, on_store b (mem_set c p) ?N)"
    using assms by (intro exchange_works) (simp_all add: on_store_node)
  then show ?thesis
    using assms by (intro exchange_works) (simp_all add: forward_def)
qed

section \<open>The bound on forwarding\<close>

lemma exchange_cong:
  assumes "env_ok env" and "\<And>M. handle_request env ex a req M = handle_request env ex' a req M"
  shows "snd (snd (handle_conn env ex a (arriving Works (outgoing (snd (write_data_frame (request_wire env) req (client_conn f))))) N)) =
      snd (snd (handle_conn env ex' a (arriving Works (outgoing (snd (write_data_frame (request_wire env) req (client_conn f))))) N))"
    "outgoing (fst (snd (handle_conn env ex a (arriving Works (outgoing (snd (write_data_frame (request_wire env) req (client_conn f))))) N))) =
      outgoing (fst (snd (handle_conn env ex' a (arriving Works (outgoing (snd (write_data_frame (request_wire env) req (client_conn f))))) N)))"
proof -
  let ?w = "request_wire env"
  let ?bs = "outgoing (snd (write_data_frame ?w req (client_conn f)))"
  have "snd (snd (handle_conn env ex a (arriving Works ?bs) N)) = snd (snd (handle_conn env ex' a (arriving Works ?bs) N)) \<and>
    outgoing (fst (snd (handle_conn env ex a (arriving Works ?bs) N))) = outgoing (fst (snd (handle_conn env ex' a (arriving Works ?bs) N)))"
  proof (cases "\<exists>body. to_bytes ?w req = Some body \<and> length body < 2 ^ 32")
    case False
    then have "?bs = []" using unsent_bytes(1) [of ?w req "client_conn f"]
      by (cases "to_bytes ?w req") (auto simp: client_conn_def)
    then show ?thesis by (simp add: handle_conn_empty)
  next
    case True
    then obtain body where b: "to_bytes ?w req = Some body" "length body < 2 ^ 32" by blast
    from sent_bytes(1) [OF b, of f] obtain n where n: "?bs = take n (data_frame body)" by auto
    show ?thesis
    proof (cases "n < length (data_frame body) \<or> MAX_FRAME_LEN < length body")
      case True
      then show ?thesis unfolding n using handle_conn_torn [OF True b(2)] by simp
    next
      case False
      obtain resp N3 where q: "handle_request env ex a req N = (resp, N3)" by fastforce
      have q': "handle_request env ex' a req N = (resp, N3)" using q assms(2) by simp
      have w: "wire_ok ?w" using assms(1) by (simp add: env_ok_def)
      have l: "length body \<le> MAX_FRAME_LEN" and n': "?bs = data_frame body" using False n by simp_all
      show ?thesis unfolding n' using handle_conn_frame [OF w b(1) l q] handle_conn_frame [OF w b(1) l q'] by simp
    qed
  qed
  then show "snd (snd (handle_conn env ex a (arriving Works ?bs) N)) = snd (snd (handle_conn env ex' a (arriving Works ?bs) N))"
    "outgoing (fst (snd (handle_conn env ex a (arriving Works ?bs) N))) = outgoing (fst (snd (handle_conn env ex' a (arriving Works ?bs) N)))"
    by simp_all
qed

lemma exchange_Suc_cong:
  assumes "env_ok env" and "\<And>M. handle_request env (exchange d env) a req M = handle_request env (exchange d' env) a req M"
  shows "exchange (Suc d) env a req N = exchange (Suc d') env a req N"
  by (auto simp: split_def exchange_cong [OF assms] split: sum.split)

text \<open>Two levels are enough: a larger bound changes nothing.\<close>

lemma exchange_bound:
  assumes "env_ok env"
  shows "exchange (Suc (Suc d)) env a req N = exchange 2 env a req N"
proof -
  have leaf: "exchange (Suc k) env b (Write c None p) M = exchange (Suc k') env b (Write c None p) M" for k k' b c p M
    by (rule exchange_Suc_cong [OF assms]) simp
  have "handle_request env (exchange (Suc d) env) a req M = handle_request env (exchange (Suc 0) env) a req M" for M
    using leaf [of d _ _ _ _ 0]
    by (cases req) (simp_all add: forward_def Let_def split: option.split)
  from exchange_Suc_cong [OF assms this] show ?thesis by (simp add: numeral_2_eq_2)
qed

declare exchange.simps [simp del]

end
