(* ===== verification/Gfs_Cli.thy ===== *)
theory Gfs_Cli
  imports Gfs_Net Rust_Std
begin

text \<open>
  The command-line client, \<^verbatim>\<open>gfs/src/main.rs\<close>: the parsed commands, the state of the prompt and what each
  command does to the cluster.  What the operating system and the transport answer are arguments: the bytes
  of a local file, the address a socket was bound to, and whether a call to the master got through.  The
  printed text is a constructor with its values.
\<close>

section \<open>State and commands\<close>

datatype cmd =
    Cmd_Master u16 u16
  | Cmd_Chunk u16
  | Cmd_Chunks
  | Cmd_Kill usize
  | Cmd_Status
  | Cmd_Put string string u64
  | Cmd_Get string string
  | Cmd_Delete string
  | Cmd_Help
  | Cmd_Quit
  | Cmd_Empty

record master_ctx =
  client_master_addr :: socket_addr
  chunk_master_addr :: socket_addr

record chunk_ctx =
  ctx_addr :: socket_addr
  alive :: bool

record repl =
  master_of :: "master_ctx option"
  chunk_ctxs :: "chunk_ctx list"

text \<open>The prompt, the in-process master and the chunk servers.\<close>

record world =
  prompt :: repl
  w_master :: master
  w_net :: net

definition repl_new :: repl where
  "repl_new = \<lparr> master_of = None, chunk_ctxs = [] \<rparr>"

fun shutdown :: "world \<Rightarrow> world" where
  "shutdown w =
     w\<lparr>w_net := fold (\<lambda>c N. if alive c then abort_server (ctx_addr c) N else N) (chunk_ctxs (prompt w)) (w_net w),
       prompt := \<lparr> master_of = None, chunk_ctxs = [] \<rparr>\<rparr>"

datatype cli_error =
    Os_Error
  | Rpc_Failed
  | Master_Error master_error
  | Chunk_Failed socket_addr net_error
  | Chunk_Refused socket_addr data_response
  | Both_Failed cli_error cli_error
  | Master_Not_Running
  | Master_Already_Running
  | No_Such_Chunk_Server usize
  | Already_Killed usize

datatype cli_output =
    Out_Master socket_addr socket_addr
  | Out_Chunk nat socket_addr
  | Out_Chunks "(nat \<times> socket_addr \<times> bool) list"
  | Out_Killed usize socket_addr
  | Out_Status "(socket_addr \<times> socket_addr) option" nat
  | Out_Wrote string nat nat
  | Out_Read "u8 list" string nat
  | Out_Deleted string

section \<open>Chunks\<close>

definition write_chunk :: "env \<Rightarrow> chunk_id \<Rightarrow> replica_set \<Rightarrow> u8 list \<Rightarrow> net \<Rightarrow> (cli_error + unit) \<times> net" where
  "write_chunk env cid rs payload N =
     (case exchange 2 env (primary rs) (Write cid (secondary rs) payload) N of
        (Inl e, N) \<Rightarrow> (Inl (Chunk_Failed (primary rs) e), N)
      | (Inr Written, N) \<Rightarrow> (Inr (), N)
      | (Inr other, N) \<Rightarrow> (Inl (Chunk_Refused (primary rs) other), N))"

definition read_chunk_from :: "env \<Rightarrow> socket_addr \<Rightarrow> chunk_id \<Rightarrow> net \<Rightarrow> (cli_error + u8 list) \<times> net" where
  "read_chunk_from env a cid N =
     (case exchange 2 env a (Read cid) N of
        (Inl e, N) \<Rightarrow> (Inl (Chunk_Failed a e), N)
      | (Inr (Data bytes), N) \<Rightarrow> (Inr bytes, N)
      | (Inr other, N) \<Rightarrow> (Inl (Chunk_Refused a other), N))"

definition read_chunk_full :: "env \<Rightarrow> chunk_id \<Rightarrow> replica_set \<Rightarrow> net \<Rightarrow> (cli_error + u8 list) \<times> net" where
  "read_chunk_full env cid rs N =
     (case read_chunk_from env (primary rs) cid N of
        (Inr bytes, N) \<Rightarrow> (Inr bytes, N)
      | (Inl e, N) \<Rightarrow>
          (case secondary rs of
             None \<Rightarrow> (Inl e, N)
           | Some sec \<Rightarrow>
               (case read_chunk_from env sec cid N of
                  (Inr bytes, N) \<Rightarrow> (Inr bytes, N)
                | (Inl e', N) \<Rightarrow> (Inl (Both_Failed e e'), N))))"

section \<open>File commands\<close>

text \<open>The part of the file that goes into its \<open>i\<close>-th chunk.\<close>

definition slice :: "u8 list \<Rightarrow> u64 \<Rightarrow> nat \<Rightarrow> u8 list" where
  "slice bytes chunk_size i =
     (let start = of_nat i * chunk_size;
          stop = min ((of_nat i + 1) * chunk_size) (of_nat (length bytes))
      in take (unat stop - unat start) (drop (unat start) bytes))"

fun put_chunks :: "env \<Rightarrow> u8 list \<Rightarrow> u64 \<Rightarrow> nat \<Rightarrow> allocation \<Rightarrow> net \<Rightarrow> (cli_error + unit) \<times> net" where
  "put_chunks env bytes chunk_size i [] N = (Inr (), N)"
| "put_chunks env bytes chunk_size i ((cid, rs) # rest) N =
     (case write_chunk env cid rs (slice bytes chunk_size i) N of
        (Inl e, N) \<Rightarrow> (Inl e, N)
      | (Inr _, N) \<Rightarrow> put_chunks env bytes chunk_size (i + 1) rest N)"

text \<open>A call to the master: not sent, answered, or answered with the answer lost.  A panic of the master's task
  looks like a lost answer.\<close>

definition call_master :: "rpc \<Rightarrow> (master \<Rightarrow> 'a option \<times> master) \<Rightarrow> master \<Rightarrow> (cli_error + 'a) \<times> master" where
  "call_master rpc f m =
     (if rpc = Rpc_Not_Sent then (Inl Rpc_Failed, m)
      else (case f m of
        (Some r, m) \<Rightarrow> (if rpc = Rpc_Reply_Lost then Inl Rpc_Failed else Inr r, m)
      | (None, m) \<Rightarrow> (Inl Rpc_Failed, m)))"

text \<open>\<open>None\<close> is the panic of the assertion on the number of chunks.\<close>

definition cmd_put ::
    "env \<Rightarrow> rpc \<Rightarrow> u8 list option \<Rightarrow> string \<Rightarrow> u64 \<Rightarrow> world \<Rightarrow> (cli_error + cli_output) option \<times> world" where
  "cmd_put env rpc local remote chunk_size w =
     (case local of
        None \<Rightarrow> (Some (Inl Os_Error), w)
      | Some bytes \<Rightarrow>
          (let len = (of_nat (length bytes) :: u64) in
           case call_master rpc (allocate remote len chunk_size) (w_master w) of
             (Inl e, m) \<Rightarrow> (Some (Inl e), w\<lparr>w_master := m\<rparr>)
           | (Inr (Inl e), m) \<Rightarrow> (Some (Inl (Master_Error e)), w\<lparr>w_master := m\<rparr>)
           | (Inr (Inr allocation), m) \<Rightarrow>
               (let expected = (if len = 0 then 0 else unat (div_ceil len chunk_size)) in
                if length allocation \<noteq> expected then (None, w\<lparr>w_master := m\<rparr>)
                else (case put_chunks env bytes chunk_size 0 allocation (w_net w) of
                  (Inl e, N) \<Rightarrow> (Some (Inl e), w\<lparr>w_master := m, w_net := N\<rparr>)
                | (Inr _, N) \<Rightarrow>
                    (Some (Inr (Out_Wrote remote (length bytes) (length allocation))), w\<lparr>w_master := m, w_net := N\<rparr>)))))"

fun get_chunks :: "env \<Rightarrow> allocation \<Rightarrow> net \<Rightarrow> (cli_error + u8 list) \<times> net" where
  "get_chunks env [] N = (Inr [], N)"
| "get_chunks env ((cid, rs) # rest) N =
     (case read_chunk_full env cid rs N of
        (Inl e, N) \<Rightarrow> (Inl e, N)
      | (Inr bytes, N) \<Rightarrow>
          (case get_chunks env rest N of (Inl e, N) \<Rightarrow> (Inl e, N) | (Inr out, N) \<Rightarrow> (Inr (bytes @ out), N)))"

text \<open>\<open>saved\<close>: writing the local file succeeded.\<close>

definition cmd_get :: "env \<Rightarrow> rpc \<Rightarrow> bool \<Rightarrow> string \<Rightarrow> world \<Rightarrow> (cli_error + cli_output) \<times> world" where
  "cmd_get env rpc saved remote w =
     (case call_master rpc (\<lambda>m. (Some (lookup remote m), m)) (w_master w) of
        (Inl e, m) \<Rightarrow> (Inl e, w)
      | (Inr (Inl e), m) \<Rightarrow> (Inl (Master_Error e), w)
      | (Inr (Inr allocation), m) \<Rightarrow>
          (case get_chunks env allocation (w_net w) of
             (Inl e, N) \<Rightarrow> (Inl e, w\<lparr>w_net := N\<rparr>)
           | (Inr out, N) \<Rightarrow>
               (if saved then Inr (Out_Read out remote (length allocation)) else Inl Os_Error, w\<lparr>w_net := N\<rparr>)))"

definition cmd_delete :: "rpc \<Rightarrow> string \<Rightarrow> world \<Rightarrow> (cli_error + cli_output) \<times> world" where
  "cmd_delete rpc remote w =
     (case call_master rpc (\<lambda>m. map_prod Some id (delete_path remote m)) (w_master w) of
        (Inl e, m) \<Rightarrow> (Inl e, w\<lparr>w_master := m\<rparr>)
      | (Inr (Inl e), m) \<Rightarrow> (Inl (Master_Error e), w\<lparr>w_master := m\<rparr>)
      | (Inr (Inr _), m) \<Rightarrow> (Inr (Out_Deleted remote), w\<lparr>w_master := m\<rparr>))"

section \<open>Cluster commands\<close>

definition require_master :: "repl \<Rightarrow> cli_error + master_ctx" where
  "require_master r = (case master_of r of None \<Rightarrow> Inl Master_Not_Running | Some c \<Rightarrow> Inr c)"

text \<open>\<open>bound\<close>: the addresses the operating system gave, \<open>None\<close> if binding or connecting failed.\<close>

definition cmd_master :: "(socket_addr \<times> socket_addr) option \<Rightarrow> world \<Rightarrow> (cli_error + cli_output) \<times> world" where
  "cmd_master bound w =
     (case master_of (prompt w) of
        Some _ \<Rightarrow> (Inl Master_Already_Running, w)
      | None \<Rightarrow>
          (case bound of
             None \<Rightarrow> (Inl Os_Error, w)
           | Some (c, k) \<Rightarrow>
               (Inr (Out_Master c k),
                w\<lparr>w_master := master_new,
                  prompt := (prompt w)\<lparr>master_of := Some \<lparr> client_master_addr = c, chunk_master_addr = k \<rparr>\<rparr>\<rparr>)))"

definition cmd_chunk :: "nat \<Rightarrow> rpc \<Rightarrow> socket_addr option \<Rightarrow> world \<Rightarrow> (cli_error + cli_output) \<times> world" where
  "cmd_chunk now rpc bound w =
     (case master_of (prompt w) of
        None \<Rightarrow> (Inl Master_Not_Running, w)
      | Some _ \<Rightarrow>
          (case bound of
             None \<Rightarrow> (Inl Os_Error, w)
           | Some a \<Rightarrow>
               (if rpc = Rpc_Not_Sent then (Inl Rpc_Failed, w)
                else if rpc = Rpc_Reply_Lost then (Inl Rpc_Failed, w\<lparr>w_master := snd (register now a (w_master w))\<rparr>)
                else (case chunk_register now a (w_master w, w_net w) of
                  (m, N) \<Rightarrow>
                    (Inr (Out_Chunk (length (chunk_ctxs (prompt w))) a),
                     w\<lparr>w_master := m, w_net := spawn_server a N,
                       prompt := (prompt w)\<lparr>chunk_ctxs := chunk_ctxs (prompt w) @ [\<lparr> ctx_addr = a, alive = True \<rparr>]\<rparr>\<rparr>)))))"

definition cmd_chunks :: "world \<Rightarrow> cli_output" where
  "cmd_chunks w =
     (let cs = chunk_ctxs (prompt w) in Out_Chunks (map (\<lambda>(i, c). (i, ctx_addr c, alive c)) (enumerate 0 cs)))"

definition cmd_kill :: "usize \<Rightarrow> world \<Rightarrow> (cli_error + cli_output) \<times> world" where
  "cmd_kill index w =
     (let cs = chunk_ctxs (prompt w) in
      if unat index \<ge> length cs then (Inl (No_Such_Chunk_Server index), w)
      else (let c = cs ! unat index in
        if alive c
        then (Inr (Out_Killed index (ctx_addr c)),
              w\<lparr>w_net := abort_server (ctx_addr c) (w_net w),
                prompt := (prompt w)\<lparr>chunk_ctxs := cs[unat index := c\<lparr>alive := False\<rparr>]\<rparr>\<rparr>)
        else (Inl (Already_Killed index), w)))"

definition cmd_status :: "world \<Rightarrow> cli_output" where
  "cmd_status w =
     Out_Status (map_option (\<lambda>c. (client_master_addr c, chunk_master_addr c)) (master_of (prompt w)))
       (length (chunk_ctxs (prompt w)))"

text \<open>What the outside answers during one command.\<close>

record outside =
  clock :: nat
  transport :: rpc
  master_bind :: "(socket_addr \<times> socket_addr) option"
  chunk_bind :: "socket_addr option"
  file_bytes_of :: "string \<Rightarrow> u8 list option"
  file_saved :: "string \<Rightarrow> bool"

fun dispatch :: "env \<Rightarrow> outside \<Rightarrow> cmd \<Rightarrow> world \<Rightarrow> (cli_error + cli_output) option \<times> world" where
  "dispatch env x (Cmd_Master _ _) w = map_prod Some id (cmd_master (master_bind x) w)"
| "dispatch env x (Cmd_Chunk _) w = map_prod Some id (cmd_chunk (clock x) (transport x) (chunk_bind x) w)"
| "dispatch env x Cmd_Chunks w = (Some (Inr (cmd_chunks w)), w)"
| "dispatch env x (Cmd_Kill i) w = map_prod Some id (cmd_kill i w)"
| "dispatch env x Cmd_Status w = (Some (Inr (cmd_status w)), w)"
| "dispatch env x (Cmd_Put local remote chunk_size) w =
     (case require_master (prompt w) of
        Inl e \<Rightarrow> (Some (Inl e), w)
      | Inr _ \<Rightarrow> cmd_put env (transport x) (file_bytes_of x local) remote chunk_size w)"
| "dispatch env x (Cmd_Get remote local) w =
     (case require_master (prompt w) of
        Inl e \<Rightarrow> (Some (Inl e), w)
      | Inr _ \<Rightarrow> map_prod Some id (cmd_get env (transport x) (file_saved x local) remote w))"
| "dispatch env x (Cmd_Delete remote) w =
     (case require_master (prompt w) of
        Inl e \<Rightarrow> (Some (Inl e), w)
      | Inr _ \<Rightarrow> map_prod Some id (cmd_delete (transport x) remote w))"
| "dispatch env x _ w = (None, w)"

end
