(* ===== verification/Gfs_Parse.thy ===== *)
theory Gfs_Parse
  imports Gfs_Cli
begin

text \<open>
  The parser of the client's prompt, \<^verbatim>\<open>gfs/src/main.rs\<close>: one line to a command or a message.  A message is a
  constructor with the values that are printed in it.
\<close>

section \<open>Messages\<close>

datatype parse_error =
    Unknown_Command string
  | Unexpected_Argument string string
  | Missing_Value string string
  | Bad_Port string string
  | Unexpected_Word string string
  | Usage string
  | Bad_Index string
  | Bad_Chunk_Size string
  | Zero_Chunk_Size
  | Unexpected_Flag string

section \<open>Commands\<close>

definition parse_no_args :: "string list \<Rightarrow> string \<Rightarrow> cmd \<Rightarrow> parse_error + cmd" where
  "parse_no_args rest name c = (case rest of [] \<Rightarrow> Inr c | t # _ \<Rightarrow> Inl (Unexpected_Argument name t))"

text \<open>The loops over the tokens of \<^verbatim>\<open>master\<close>, \<^verbatim>\<open>chunk\<close> and \<^verbatim>\<open>put\<close>, with what was read so far.\<close>

fun master_args :: "u16 \<Rightarrow> u16 \<Rightarrow> string list \<Rightarrow> parse_error + cmd" where
  "master_args client_port chunk_port [] = Inr (Cmd_Master client_port chunk_port)"
| "master_args client_port chunk_port (t # ts) =
     (if t = ''--client-port'' then
        (case ts of
           [] \<Rightarrow> Inl (Missing_Value ''master'' t)
         | v # ts' \<Rightarrow>
             (case parse_u16 v of None \<Rightarrow> Inl (Bad_Port ''master'' v) | Some p \<Rightarrow> master_args p chunk_port ts'))
      else if t = ''--chunk-port'' then
        (case ts of
           [] \<Rightarrow> Inl (Missing_Value ''master'' t)
         | v # ts' \<Rightarrow>
             (case parse_u16 v of None \<Rightarrow> Inl (Bad_Port ''master'' v) | Some p \<Rightarrow> master_args client_port p ts'))
      else Inl (Unexpected_Word ''master'' t))"

definition parse_master :: "string list \<Rightarrow> parse_error + cmd" where
  "parse_master rest = master_args 0 0 rest"

definition parse_kill :: "string list \<Rightarrow> parse_error + cmd" where
  "parse_kill rest =
     (case rest of
        [t] \<Rightarrow> (case parse_u64 t of None \<Rightarrow> Inl (Bad_Index t) | Some i \<Rightarrow> Inr (Cmd_Kill i))
      | _ \<Rightarrow> Inl (Usage ''kill''))"

fun chunk_args :: "u16 \<Rightarrow> string list \<Rightarrow> parse_error + cmd" where
  "chunk_args data_port [] = Inr (Cmd_Chunk data_port)"
| "chunk_args data_port (t # ts) =
     (if t = ''--data-port'' then
        (case ts of
           [] \<Rightarrow> Inl (Missing_Value ''chunk'' t)
         | v # ts' \<Rightarrow> (case parse_u16 v of None \<Rightarrow> Inl (Bad_Port ''chunk'' v) | Some p \<Rightarrow> chunk_args p ts'))
      else Inl (Unexpected_Word ''chunk'' t))"

definition parse_chunk :: "string list \<Rightarrow> parse_error + cmd" where
  "parse_chunk rest = chunk_args 0 rest"

definition starts_with :: "string \<Rightarrow> string \<Rightarrow> bool" where
  "starts_with p s \<longleftrightarrow> take (length p) s = p"

fun put_args :: "string list \<Rightarrow> u64 \<Rightarrow> string list \<Rightarrow> parse_error + cmd" where
  "put_args positional chunk_size [] =
     (case positional of [local, remote] \<Rightarrow> Inr (Cmd_Put local remote chunk_size) | _ \<Rightarrow> Inl (Usage ''put''))"
| "put_args positional chunk_size (t # ts) =
     (if t = ''--chunk-size'' then
        (case ts of
           [] \<Rightarrow> Inl (Missing_Value ''put'' t)
         | v # ts' \<Rightarrow>
             (case parse_u64 v of
                None \<Rightarrow> Inl (Bad_Chunk_Size v)
              | Some n \<Rightarrow> if n = 0 then Inl Zero_Chunk_Size else put_args positional n ts'))
      else if starts_with ''--'' t then Inl (Unexpected_Flag t)
      else put_args (positional @ [t]) chunk_size ts)"

definition parse_put :: "string list \<Rightarrow> parse_error + cmd" where
  "parse_put rest = put_args [] CHUNK_SIZE rest"

definition parse_get :: "string list \<Rightarrow> parse_error + cmd" where
  "parse_get rest = (case rest of [remote, local] \<Rightarrow> Inr (Cmd_Get remote local) | _ \<Rightarrow> Inl (Usage ''get''))"

definition parse_delete :: "string list \<Rightarrow> parse_error + cmd" where
  "parse_delete rest = (case rest of [remote] \<Rightarrow> Inr (Cmd_Delete remote) | _ \<Rightarrow> Inl (Usage ''delete''))"

definition parse_line :: "string \<Rightarrow> parse_error + cmd" where
  "parse_line line =
     (case words_of line of
        [] \<Rightarrow> Inr Cmd_Empty
      | head # rest \<Rightarrow>
          if head = ''master'' then parse_master rest
          else if head = ''chunk'' then parse_chunk rest
          else if head = ''chunks'' then parse_no_args rest ''chunks'' Cmd_Chunks
          else if head = ''kill'' then parse_kill rest
          else if head = ''status'' then parse_no_args rest ''status'' Cmd_Status
          else if head = ''put'' then parse_put rest
          else if head = ''get'' then parse_get rest
          else if head = ''delete'' then parse_delete rest
          else if head = ''help'' \<or> head = ''?'' then Inr Cmd_Help
          else if head = ''quit'' \<or> head = ''exit'' \<or> head = ''q'' then Inr Cmd_Quit
          else Inl (Unknown_Command head))"

section \<open>Printing and parsing\<close>

fun unwords :: "string list \<Rightarrow> string" where
  "unwords [] = []"
| "unwords [w] = w"
| "unwords (w # ws) = w @ CHR '' '' # unwords ws"

lemma words_of_unwords: "ws \<noteq> [] \<Longrightarrow> list_all ascii_word ws \<Longrightarrow> words_of (unwords ws) = ws"
  by (induction ws rule: unwords.induct) (simp_all add: words_of_ascii)

definition show_u16 :: "u16 \<Rightarrow> string" where
  "show_u16 p = show_nat (unat p)"

lemma parse_show_u16 [simp]: "parse_u16 (show_u16 p) = Some p"
proof -
  have "unat p < 2 ^ 16" using unsigned_less [of p] by simp
  from parse_uint_show [OF this] show ?thesis by (simp add: parse_u16_def show_u16_def)
qed

lemma show_u16_ascii: "ascii_word (show_u16 p)"
  using show_nat_nonempty
  by (auto simp: ascii_word_def show_u16_def list_all_iff is_digit_def byte_in_def dest!: show_nat_digits)

text \<open>The words of a command as the help text spells them.\<close>

fun cmd_words :: "cmd \<Rightarrow> string list" where
  "cmd_words (Cmd_Master c k) = [''master'', ''--client-port'', show_u16 c, ''--chunk-port'', show_u16 k]"
| "cmd_words (Cmd_Chunk p) = [''chunk'', ''--data-port'', show_u16 p]"
| "cmd_words Cmd_Chunks = [''chunks'']"
| "cmd_words (Cmd_Kill i) = [''kill'', show_u64 i]"
| "cmd_words Cmd_Status = [''status'']"
| "cmd_words (Cmd_Put local remote n) = [''put'', local, remote, ''--chunk-size'', show_u64 n]"
| "cmd_words (Cmd_Get remote local) = [''get'', remote, local]"
| "cmd_words (Cmd_Delete remote) = [''delete'', remote]"
| "cmd_words Cmd_Help = [''help'']"
| "cmd_words Cmd_Quit = [''quit'']"
| "cmd_words Cmd_Empty = []"

text \<open>The commands a line can stand for, and what their operands satisfy.\<close>

fun cmd_wf :: "(string \<Rightarrow> bool) \<Rightarrow> cmd \<Rightarrow> bool" where
  "cmd_wf ok (Cmd_Put local remote n) \<longleftrightarrow>
     n \<noteq> 0 \<and> ok local \<and> ok remote \<and> \<not> starts_with ''--'' local \<and> \<not> starts_with ''--'' remote"
| "cmd_wf ok (Cmd_Get remote local) \<longleftrightarrow> ok remote \<and> ok local"
| "cmd_wf ok (Cmd_Delete remote) \<longleftrightarrow> ok remote"
| "cmd_wf ok _ \<longleftrightarrow> True"

text \<open>C38. Every command can be written as a line: the line that spells a command out parses to that command,
  for all ports, indices and chunk sizes of their types and all operands of visible characters, those of
  \<^verbatim>\<open>put\<close> not starting with two dashes.\<close>

theorem parse_line_roundtrip:
  assumes "cmd_wf ascii_word c"
  shows "parse_line (unwords (cmd_words c)) = Inr c"
proof (cases "c = Cmd_Empty")
  case True
  then show ?thesis by (simp add: parse_line_def words_of.simps [of "[]"] skip_ws.simps [of "[]"])
next
  case False
  have "list_all ascii_word (cmd_words c)"
    using assms by (cases c) (simp_all add: show_u16_ascii show_u64_ascii, simp_all add: ascii_word_def byte_in_def)
  moreover have "cmd_words c \<noteq> []" using False by (cases c) simp_all
  ultimately have w: "words_of (unwords (cmd_words c)) = cmd_words c" by (intro words_of_unwords)
  have dash: "\<not> starts_with ''--'' t \<Longrightarrow> t \<noteq> ''--chunk-size''" for t by (auto simp: starts_with_def)
  note line = parse_line_def [of "unwords (cmd_words c)", unfolded w]
  show ?thesis
  proof (cases c)
    case (Cmd_Put local remote n)
    then have "local \<noteq> ''--chunk-size''" "remote \<noteq> ''--chunk-size''" using assms dash by auto
    then show ?thesis unfolding line using assms Cmd_Put by (simp add: parse_put_def)
  qed (unfold line, use False in \<open>simp_all add: parse_no_args_def parse_master_def parse_chunk_def parse_kill_def
      parse_get_def parse_delete_def\<close>)
qed

text \<open>The operands of \<^verbatim>\<open>put\<close> are words of the line.\<close>

lemma put_args_wf:
  "put_args ps n ts = Inr c \<Longrightarrow> n \<noteq> 0 \<Longrightarrow> (\<forall>p \<in> set ps. \<not> starts_with ''--'' p \<and> p \<noteq> []) \<Longrightarrow> [] \<notin> set ts \<Longrightarrow>
     cmd_wf (\<lambda>w. w \<noteq> []) c \<and> (\<exists>l r k. c = Cmd_Put l r k)"
proof (induction ps n ts rule: put_args.induct)
  case (1 ps n)
  then show ?case by (auto split: list.splits)
next
  case (2 ps n t ts)
  show ?case
  proof (cases "t = ''--chunk-size''")
    case True
    then obtain v ts' k where k: "ts = v # ts'" "parse_u64 v = Some k" "k \<noteq> 0" "put_args ps k ts' = Inr c"
      using 2(3) by (auto split: list.splits option.splits if_splits)
    then show ?thesis using 2(1) [OF True k(1,2)] 2(5,6) by simp
  next
    case False
    then have "\<not> starts_with ''--'' t" "put_args (ps @ [t]) n ts = Inr c" using 2(3) by (auto split: if_splits)
    then show ?thesis using 2(2) [OF False] 2(4-6) by auto
  qed
qed

lemma port_args_wf:
  "master_args a b ts = Inr c \<Longrightarrow> \<exists>p q. c = Cmd_Master p q" "chunk_args a ts = Inr c \<Longrightarrow> \<exists>p. c = Cmd_Chunk p"
proof -
  show "master_args a b ts = Inr c \<Longrightarrow> \<exists>p q. c = Cmd_Master p q"
    by (induction a b ts rule: master_args.induct) (auto split: if_splits list.splits option.splits)
  show "chunk_args a ts = Inr c \<Longrightarrow> \<exists>p. c = Cmd_Chunk p"
    by (induction a ts rule: chunk_args.induct) (auto split: if_splits list.splits option.splits)
qed

lemma operands_wf:
  assumes "[] \<notin> set rest"
  shows "parse_master rest = Inr c \<Longrightarrow> cmd_wf (\<lambda>w. w \<noteq> []) c \<and> c \<noteq> Cmd_Empty"
    "parse_chunk rest = Inr c \<Longrightarrow> cmd_wf (\<lambda>w. w \<noteq> []) c \<and> c \<noteq> Cmd_Empty"
    "parse_kill rest = Inr c \<Longrightarrow> cmd_wf (\<lambda>w. w \<noteq> []) c \<and> c \<noteq> Cmd_Empty"
    "parse_get rest = Inr c \<Longrightarrow> cmd_wf (\<lambda>w. w \<noteq> []) c \<and> c \<noteq> Cmd_Empty"
    "parse_delete rest = Inr c \<Longrightarrow> cmd_wf (\<lambda>w. w \<noteq> []) c \<and> c \<noteq> Cmd_Empty"
    "parse_put rest = Inr c \<Longrightarrow> cmd_wf (\<lambda>w. w \<noteq> []) c \<and> c \<noteq> Cmd_Empty"
proof -
  show "parse_master rest = Inr c \<Longrightarrow> cmd_wf (\<lambda>w. w \<noteq> []) c \<and> c \<noteq> Cmd_Empty"
    by (auto simp: parse_master_def dest: port_args_wf(1))
  show "parse_chunk rest = Inr c \<Longrightarrow> cmd_wf (\<lambda>w. w \<noteq> []) c \<and> c \<noteq> Cmd_Empty"
    by (auto simp: parse_chunk_def dest: port_args_wf(2))
  show "parse_put rest = Inr c \<Longrightarrow> cmd_wf (\<lambda>w. w \<noteq> []) c \<and> c \<noteq> Cmd_Empty"
    using put_args_wf [of "[]" CHUNK_SIZE rest c] assms by (auto simp: parse_put_def CHUNK_SIZE_def)
qed (use assms in \<open>auto simp: parse_kill_def parse_get_def parse_delete_def split: list.splits option.splits\<close>)

text \<open>The parser is type-correct: a line that parses gives a well-formed command, so \<^verbatim>\<open>put\<close> never asks for
  chunks of size zero, no operand is empty and no flag is taken for a file name; and a line parses to the
  empty command exactly when it holds nothing but white space.\<close>

theorem parse_line_wf:
  assumes "parse_line line = Inr c"
  shows "cmd_wf (\<lambda>w. w \<noteq> []) c \<and> (c = Cmd_Empty \<longleftrightarrow> skip_ws line = [])"
proof -
  have empty: "words_of line = [] \<longleftrightarrow> skip_ws line = []"
    by (subst words_of.simps) (simp split: list.split)
  show ?thesis
  proof (cases "words_of line")
    case Nil
    then show ?thesis using assms empty by (simp add: parse_line_def)
  next
    case (Cons head rest)
    have ne: "[] \<notin> set rest" using words_of_nonempty [of _ line] Cons by auto
    have "parse_master rest = Inr c \<or> parse_chunk rest = Inr c \<or> parse_kill rest = Inr c \<or> parse_get rest = Inr c \<or>
        parse_delete rest = Inr c \<or> parse_put rest = Inr c \<or> c \<in> {Cmd_Chunks, Cmd_Status, Cmd_Help, Cmd_Quit}"
      using assms unfolding parse_line_def Cons list.case parse_no_args_def by (auto split: if_splits list.splits)
    then have "cmd_wf (\<lambda>w. w \<noteq> []) c \<and> c \<noteq> Cmd_Empty"
      by (elim disjE) (erule operands_wf [OF ne] | force)+
    then show ?thesis using empty Cons by simp
  qed
qed

theorem parse_line_roundtrip_witness:
  "parse_line ''put a.txt b --chunk-size 7'' = Inr (Cmd_Put ''a.txt'' ''b'' 7)"
proof -
  have "show_nat 7 = ''7''" by (simp add: show_nat.simps digit_char_def char_of_def bit_0)
  then have "unwords (cmd_words (Cmd_Put ''a.txt'' ''b'' 7)) = ''put a.txt b --chunk-size 7''"
    by (simp add: show_u64_def)
  then show ?thesis
    using parse_line_roundtrip [of "Cmd_Put ''a.txt'' ''b'' 7"] by (simp add: ascii_word_def byte_in_def starts_with_def)
qed

theorem parse_line_wf_witness: "cmd_wf (\<lambda>w. w \<noteq> []) Cmd_Status"
proof -
  have "parse_line ''status'' = Inr Cmd_Status"
    using words_of_ascii(2) [of "''status''"] by (simp add: parse_line_def parse_no_args_def ascii_word_def byte_in_def)
  from parse_line_wf [OF this] show ?thesis by blast
qed

end
