(* ===== verification/Gfs_Namespace.thy ===== *)
theory Gfs_Namespace
  imports Gfs_Master
begin

text \<open>
  What the master keeps true of its namespace: the invariant of the metadata, preserved by every request,
  and what it gives for allocation, lookup and deletion.
\<close>

section \<open>The invariant\<close>

definition file_chunk_ok :: "master \<Rightarrow> chunk_id \<Rightarrow> bool" where
  "file_chunk_ok m cid \<longleftrightarrow>
     (\<exists>info. map_of (chunks m) cid = Some info \<and> \<not> deleted info \<and> length (replicas info) = REPLICATION_FACTOR \<and>
        set (replicas info) \<subseteq> dom (map_of (servers m)))"

definition files_ok :: "master \<Rightarrow> bool" where
  "files_ok m \<longleftrightarrow>
     (\<forall>p cids. map_of (files m) p = Some cids \<longrightarrow> distinct cids \<and> (\<forall>cid \<in> set cids. file_chunk_ok m cid)) \<and>
     (\<forall>p q cids dids. map_of (files m) p = Some cids \<longrightarrow> map_of (files m) q = Some dids \<longrightarrow> p \<noteq> q \<longrightarrow>
        set cids \<inter> set dids = {})"

definition chunks_ok :: "master \<Rightarrow> bool" where
  "chunks_ok m \<longleftrightarrow>
     (\<forall>cid info. map_of (chunks m) cid = Some info \<longrightarrow> replicas info \<noteq> [] \<and>
        (\<not> deleted info \<longrightarrow> (\<exists>p cids. map_of (files m) p = Some cids \<and> cid \<in> set cids)))"

definition maps_ok :: "master \<Rightarrow> bool" where
  "maps_ok m \<longleftrightarrow> distinct (map fst (files m)) \<and> distinct (map fst (chunks m)) \<and> distinct (map fst (servers m))"

text \<open>The identifiers handed out so far, in order, are the first values of the counter.\<close>

definition ids_ok :: "chunk_id list \<Rightarrow> master \<Rightarrow> bool" where
  "ids_ok ids m \<longleftrightarrow> length ids \<le> 2 ^ 64 \<and> ids = map of_nat [0..<length ids] \<and>
     next_chunk_id m = of_nat (length ids) \<and> dom (map_of (chunks m)) \<subseteq> set ids"

definition master_ok :: "chunk_id list \<times> master \<Rightarrow> bool" where
  "master_ok s \<longleftrightarrow> (case s of (ids, m) \<Rightarrow> maps_ok m \<and> ids_ok ids m \<and> files_ok m \<and> chunks_ok m)"

lemma master_okI:
  "maps_ok m \<Longrightarrow> ids_ok ids m \<Longrightarrow> files_ok m \<Longrightarrow> chunks_ok m \<Longrightarrow> master_ok (ids, m)"
  by (simp add: master_ok_def)

lemma master_okD:
  assumes "master_ok (ids, m)"
  shows "maps_ok m" "ids_ok ids m" "files_ok m" "chunks_ok m"
  using assms by (simp_all add: master_ok_def)

lemma master_ok_new: "master_ok ([], master_new)"
  by (simp add: master_ok_def maps_ok_def ids_ok_def files_ok_def chunks_ok_def master_new_def)

section \<open>Changes to the servers\<close>

text \<open>Registrations, heartbeats and timeouts change the servers; no server is ever forgotten.\<close>

lemma master_ok_servers:
  assumes "master_ok (ids, m)" and "distinct (map fst ss)" and "dom (map_of (servers m)) \<subseteq> dom (map_of ss)"
  shows "master_ok (ids, m\<lparr>next_server_id := i, servers := ss\<rparr>)"
proof -
  note m = master_okD [OF assms(1)]
  have "file_chunk_ok (m\<lparr>next_server_id := i, servers := ss\<rparr>) cid" if "file_chunk_ok m cid" for cid
    using that assms(3) by (fastforce simp: file_chunk_ok_def)
  with m(3) have "files_ok (m\<lparr>next_server_id := i, servers := ss\<rparr>)" by (simp add: files_ok_def)
  with m assms(2) show ?thesis by (simp add: master_ok_def maps_ok_def ids_ok_def chunks_ok_def)
qed

lemma map_of_map_snd: "map_of (map (\<lambda>(i, s). (i, f s)) xs) = map_option f \<circ> map_of xs"
  by (induction xs) auto

lemma detect_ok:
  assumes "master_ok (ids, m)"
  shows "master_ok (ids, detect_timeouts now m)"
proof -
  let ?f = "\<lambda>s. if online s \<and> HEARTBEAT_INTERVAL * MISSED_HEARTBEATS \<le> now - last_seen s then s\<lparr>online := False\<rparr> else s"
  let ?ss = "map (\<lambda>(i, s). (i, ?f s)) (servers m)"
  have keys: "map fst ?ss = map fst (servers m)" by auto
  have "distinct (map fst ?ss)" unfolding keys using master_okD(1) [OF assms] by (simp add: maps_ok_def)
  moreover have "dom (map_of (servers m)) \<subseteq> dom (map_of ?ss)" by (auto simp: map_of_map_snd)
  ultimately have "master_ok (ids, m\<lparr>next_server_id := next_server_id m, servers := ?ss\<rparr>)"
    by (rule master_ok_servers [OF assms])
  then show ?thesis by (simp add: detect_timeouts_def)
qed

lemma register_ok:
  assumes "master_ok (ids, m)"
  shows "master_ok (ids, snd (register now a m))"
proof -
  let ?ss = "AList.update (next_server_id m) \<lparr> addr = a, last_seen = now, online = True \<rparr> (servers m)"
  have "distinct (map fst ?ss)" using master_okD(1) [OF assms] by (simp add: maps_ok_def distinct_update)
  moreover have "dom (map_of (servers m)) \<subseteq> dom (map_of ?ss)" by (auto simp: update_conv')
  ultimately have "master_ok (ids, m\<lparr>next_server_id := next_server_id m + 1, servers := ?ss\<rparr>)"
    by (rule master_ok_servers [OF assms])
  then show ?thesis by (simp add: register_def Let_def)
qed

lemma touch_ok:
  assumes "master_ok (ids, m)"
  shows "master_ok (ids, touch_server now sid m)"
proof (cases "map_of (servers m) sid")
  case (Some s)
  let ?ss = "AList.update sid (s\<lparr>last_seen := now, online := True\<rparr>) (servers m)"
  have "distinct (map fst ?ss)" using master_okD(1) [OF assms] by (simp add: maps_ok_def distinct_update)
  moreover have "dom (map_of (servers m)) \<subseteq> dom (map_of ?ss)" by (auto simp: update_conv')
  ultimately have "master_ok (ids, m\<lparr>next_server_id := next_server_id m, servers := ?ss\<rparr>)"
    by (rule master_ok_servers [OF assms])
  then show ?thesis by (simp add: touch_server_def Some)
qed (simp add: touch_server_def assms)

section \<open>Deletion and garbage collection\<close>

lemma map_of_mark_deleted:
  "map_of (mark_deleted cid cs) j =
     (if j = cid then map_option (\<lambda>i. i\<lparr>deleted := True\<rparr>) (map_of cs j) else map_of cs j)"
  by (auto simp: mark_deleted_def update_conv' split: option.split)

lemma distinct_mark_deleted: "distinct (map fst cs) \<Longrightarrow> distinct (map fst (mark_deleted cid cs))"
  by (simp add: mark_deleted_def distinct_update split: option.split)

lemma map_of_marks_deleted:
  "map_of (fold mark_deleted cids cs) j =
     (if j \<in> set cids then map_option (\<lambda>i. i\<lparr>deleted := True\<rparr>) (map_of cs j) else map_of cs j)"
  by (induction cids arbitrary: cs) (auto simp: map_of_mark_deleted option.map_comp o_def)

lemma distinct_marks_deleted: "distinct (map fst cs) \<Longrightarrow> distinct (map fst (fold mark_deleted cids cs))"
  by (induction cids arbitrary: cs) (auto simp: distinct_mark_deleted)

lemma delete_ok:
  assumes "master_ok (ids, m)"
  shows "master_ok (ids, snd (delete_path p m))"
proof (cases "map_of (files m) p")
  case (Some cids)
  let ?m = "m\<lparr>files := AList.delete p (files m), chunks := fold mark_deleted cids (chunks m)\<rparr>"
  note m = master_okD [OF assms]
  have f: "map_of (files ?m) q = (if q = p then None else map_of (files m) q)" for q
    by (simp add: delete_conv')
  have c: "map_of (chunks ?m) j =
      (if j \<in> set cids then map_option (\<lambda>i. i\<lparr>deleted := True\<rparr>) (map_of (chunks m) j) else map_of (chunks m) j)" for j
    by (simp add: map_of_marks_deleted)
  have apart: "set cids \<inter> set dids = {}" if "map_of (files m) q = Some dids" "q \<noteq> p" for q dids
    using m(3) Some that unfolding files_ok_def by blast
  have "master_ok (ids, ?m)"
  proof (rule master_okI)
    show "maps_ok ?m" using m(1) by (simp add: maps_ok_def distinct_delete distinct_marks_deleted)
    have "dom (map_of (chunks ?m)) = dom (map_of (chunks m))" by (auto simp: map_of_marks_deleted split: if_splits)
    with m(2) show "ids_ok ids ?m" by (simp add: ids_ok_def)
    show "files_ok ?m"
    proof -
      have "file_chunk_ok ?m j" if "file_chunk_ok m j" "j \<notin> set cids" for j
        using that by (simp add: file_chunk_ok_def map_of_marks_deleted)
      then show ?thesis using m(3) apart unfolding files_ok_def f by (auto split: if_splits; blast)
    qed
    show "chunks_ok ?m"
      unfolding chunks_ok_def
    proof (intro allI impI conjI)
      fix j info assume j: "map_of (chunks ?m) j = Some info"
      then obtain info0 where j0: "map_of (chunks m) j = Some info0" "replicas info = replicas info0"
        "\<not> deleted info \<longrightarrow> info = info0 \<and> j \<notin> set cids" by (auto simp: map_of_marks_deleted split: if_splits)
      then show "replicas info \<noteq> []" using m(4) by (auto simp: chunks_ok_def)
      assume "\<not> deleted info"
      with j0 m(4) obtain q dids where "map_of (files m) q = Some dids" "j \<in> set dids" "j \<notin> set cids"
        unfolding chunks_ok_def by blast
      then show "\<exists>q dids. map_of (files ?m) q = Some dids \<and> j \<in> set dids" unfolding f using Some by (intro exI [of _ q]) auto
    qed
  qed
  then show ?thesis by (simp add: delete_path_def Some)
qed (simp add: delete_path_def assms)

lemma map_of_fold_delete: "map_of (fold AList.delete ks xs) j = (if j \<in> set ks then None else map_of xs j)"
  by (induction ks arbitrary: xs) (auto simp: delete_conv')

lemma distinct_fold_delete: "distinct (map fst xs) \<Longrightarrow> distinct (map fst (fold AList.delete ks xs))"
  by (induction ks arbitrary: xs) (auto simp: distinct_delete)

text \<open>What reconciliation leaves of a chunk.\<close>

definition reconciled :: "server_id \<Rightarrow> chunk_id list \<Rightarrow> chunk_id \<Rightarrow> chunk_info \<Rightarrow> chunk_info option" where
  "reconciled sid held cid info =
     (if \<not> dropped sid held (cid, info) then Some info
      else if replicas (without_replica sid info) = [] then None
      else Some (without_replica sid info))"

lemma map_of_reconcile:
  assumes "distinct (map fst cs)"
  shows "map_of (reconcile sid held cs) j = Option.bind (map_of cs j) (reconciled sid held j)"
proof -
  let ?f = "\<lambda>ci. if dropped sid held ci then (fst ci, without_replica sid (snd ci)) else ci"
  have keys: "map fst (map ?f cs) = map fst cs" by simp
  have m: "map_of (map ?f cs) j = map_option (\<lambda>i. snd (?f (j, i))) (map_of cs j)"
    by (induction cs) auto
  have "j \<in> fst ` {x \<in> set cs. dropped sid held x \<and> replicas (without_replica sid (snd x)) = []} \<longleftrightarrow>
      (\<exists>info. map_of cs j = Some info \<and> dropped sid held (j, info) \<and> replicas (without_replica sid info) = [])"
    using assms by (force simp: image_iff)
  then show ?thesis
    unfolding reconcile_def Let_def map_of_fold_delete m by (cases "map_of cs j") (auto simp: reconciled_def)
qed

lemma distinct_reconcile: "distinct (map fst cs) \<Longrightarrow> distinct (map fst (reconcile sid held cs))"
proof -
  assume d: "distinct (map fst cs)"
  have "map fst (map (\<lambda>ci. if dropped sid held ci then (fst ci, without_replica sid (snd ci)) else ci) cs) = map fst cs"
    by simp
  with d show ?thesis unfolding reconcile_def Let_def by (intro distinct_fold_delete) (metis)
qed

lemma reconcile_ok:
  assumes "master_ok (ids, m)"
  shows "master_ok (ids, m\<lparr>chunks := reconcile sid held (chunks m)\<rparr>)"
proof -
  let ?m = "m\<lparr>chunks := reconcile sid held (chunks m)\<rparr>"
  note m = master_okD [OF assms]
  have d: "distinct (map fst (chunks m))" using m(1) by (simp add: maps_ok_def)
  have c: "map_of (chunks ?m) j = Option.bind (map_of (chunks m) j) (reconciled sid held j)" for j
    by (simp add: map_of_reconcile [OF d])
  have keep: "map_of (chunks ?m) j = Some info" if "map_of (chunks m) j = Some info" "\<not> deleted info" for j info
    using that by (simp add: map_of_reconcile [OF d] reconciled_def dropped_def)
  show ?thesis
  proof (rule master_okI)
    show "maps_ok ?m" using m(1) by (simp add: maps_ok_def distinct_reconcile)
    have "dom (map_of (chunks ?m)) \<subseteq> dom (map_of (chunks m))" by (auto simp: map_of_reconcile [OF d] bind_eq_Some_conv)
    with m(2) show "ids_ok ids ?m" by (auto simp: ids_ok_def)
    have "file_chunk_ok ?m j" if "file_chunk_ok m j" for j
      using that keep by (fastforce simp: file_chunk_ok_def)
    with m(3) show "files_ok ?m" by (simp add: files_ok_def)
    show "chunks_ok ?m"
      unfolding chunks_ok_def
    proof (intro allI impI)
      fix j info assume "map_of (chunks ?m) j = Some info"
      then obtain i0 where i0: "map_of (chunks m) j = Some i0" "reconciled sid held j i0 = Some info"
        by (auto simp: map_of_reconcile [OF d] bind_eq_Some_conv)
      have "replicas info \<noteq> [] \<and> deleted info = deleted i0"
        using i0 m(4) by (auto simp: reconciled_def chunks_ok_def without_replica_def split: if_splits)
      then show "replicas info \<noteq> [] \<and> (\<not> deleted info \<longrightarrow> (\<exists>p cids. map_of (files ?m) p = Some cids \<and> j \<in> set cids))"
        using i0(1) m(4) by (simp add: chunks_ok_def)
    qed
  qed
qed

lemma heartbeat_ok: "master_ok (ids, m) \<Longrightarrow> master_ok (ids, snd (heartbeat now sid held m))"
  by (simp add: heartbeat_def Let_def reconcile_ok touch_ok)

section \<open>Allocation\<close>

lemma pick_replicas_eq:
  "pick_replicas ids k c = (map (\<lambda>i. ids ! (unat (c + of_nat i) mod length ids)) [0..<k], c + of_nat k)"
proof (induction k arbitrary: c)
  case (Suc k)
  have "[0..<Suc k] = 0 # map Suc [0..<k]" by (simp add: upt_conv_Cons map_Suc_upt)
  then show ?case using Suc [of "c + 1"] by (simp add: ac_simps Let_def del: upt_Suc)
qed simp

text \<open>The replicas of the \<open>i\<close>-th chunk of an allocation that starts at cursor \<open>c\<close>.\<close>

definition placed :: "server_id list \<Rightarrow> usize \<Rightarrow> nat \<Rightarrow> server_id list" where
  "placed ids c i =
     [ids ! (unat (c + of_nat (2 * i)) mod length ids), ids ! (unat (c + of_nat (2 * i + 1)) mod length ids)]"

lemma pick_placed: "pick_replicas ids REPLICATION_FACTOR c = (placed ids c 0, c + 2)"
  by (simp add: pick_replicas_eq REPLICATION_FACTOR_def placed_def numeral_2_eq_2)

lemma placed_shift: "placed ids (c + 2) i = placed ids c (Suc i)"
  by (simp add: placed_def algebra_simps)

lemma placed_in: "ids \<noteq> [] \<Longrightarrow> set (placed ids c i) \<subseteq> set ids"
  by (simp add: placed_def)

definition new_chunks :: "server_id list \<Rightarrow> nat \<Rightarrow> master \<Rightarrow> (chunk_id \<times> chunk_info) list" where
  "new_chunks ids n m =
     fold (\<lambda>i. AList.update (next_chunk_id m + of_nat i) \<lparr> replicas = placed ids (rr_cursor m) i, deleted = False \<rparr>)
       [0..<n] (chunks m)"

definition allocated :: "server_id list \<Rightarrow> nat \<Rightarrow> master \<Rightarrow> master" where
  "allocated ids n m =
     m\<lparr>next_chunk_id := next_chunk_id m + of_nat n, rr_cursor := rr_cursor m + of_nat (2 * n),
       chunks := new_chunks ids n m\<rparr>"

lemma addrs_of_placed:
  "set (placed ids c i) \<subseteq> dom (map_of (servers m)) \<Longrightarrow> \<exists>a b. addrs_of m (placed ids c i) = Some [a, b]"
  by (auto simp: addrs_of_def placed_def)

lemma allocate_chunks_eq:
  assumes "set ids \<subseteq> dom (map_of (servers m))" and "ids \<noteq> []"
  shows "\<exists>r. allocate_chunks ids n m = (Some r, allocated ids n m) \<and> length r = n \<and>
    (\<forall>i < n. \<exists>a b. r ! i = (next_chunk_id m + of_nat i, \<lparr> primary = a, secondary = Some b \<rparr>) \<and>
       addrs_of m (placed ids (rr_cursor m) i) = Some [a, b])"
  using assms(1)
proof (induction n arbitrary: m)
  case 0
  then show ?case by (simp add: allocated_def new_chunks_def)
next
  case (Suc n)
  let ?c = "rr_cursor m" and ?k = "next_chunk_id m"
  define m2 where "m2 = m\<lparr>next_chunk_id := ?k + 1, rr_cursor := ?c + 2,
    chunks := AList.update ?k \<lparr> replicas = placed ids ?c 0, deleted = False \<rparr> (chunks m)\<rparr>"
  have m2: "servers m2 = servers m" "next_chunk_id m2 = ?k + 1" "rr_cursor m2 = ?c + 2" by (simp_all add: m2_def)
  have "set (placed ids ?c 0) \<subseteq> dom (map_of (servers m))" using placed_in [OF assms(2)] Suc.prems by blast
  then obtain a b where ab: "addrs_of m (placed ids ?c 0) = Some [a, b]"
    using addrs_of_placed by blast
  from Suc.IH [of m2] Suc.prems m2(1) obtain r where
    r: "allocate_chunks ids n m2 = (Some r, allocated ids n m2)" "length r = n"
    "\<forall>i < n. \<exists>a b. r ! i = (?k + 1 + of_nat i, \<lparr> primary = a, secondary = Some b \<rparr>) \<and>
       addrs_of m2 (placed ids (?c + 2) i) = Some [a, b]" unfolding m2(2,3) by auto
  have up: "[0..<Suc n] = 0 # map Suc [0..<n]" by (simp add: upt_conv_Cons map_Suc_upt)
  have "new_chunks ids n m2 = new_chunks ids (Suc n) m"
    unfolding new_chunks_def m2(2,3) up
    by (simp add: fold_map o_def placed_shift m2_def ac_simps del: upt_Suc)
  then have al: "allocated ids n m2 = allocated ids (Suc n) m"
    by (simp add: allocated_def m2_def algebra_simps)
  have step: "allocate_chunks ids (Suc n) m = (Some ((?k, \<lparr> primary = a, secondary = Some b \<rparr>) # r), allocated ids (Suc n) m)"
    using r(1) ab by (simp add: pick_placed m2_def [symmetric] al Let_def)
  have ad: "addrs_of m2 = addrs_of m" by (auto simp: addrs_of_def m2(1) fun_eq_iff)
  have "\<exists>a' b'. ((?k, \<lparr> primary = a, secondary = Some b \<rparr>) # r) ! i = (?k + of_nat i, \<lparr> primary = a', secondary = Some b' \<rparr>) \<and>
      addrs_of m (placed ids ?c i) = Some [a', b']" if "i < Suc n" for i
  proof (cases i)
    case 0
    then show ?thesis using ab by simp
  next
    case (Suc j)
    then show ?thesis using r(3) that unfolding ad placed_shift by (auto simp: ac_simps)
  qed
  with step r(2) show ?case by (intro exI) auto
qed

lemma find_unique:
  assumes "inj_on f (set (x # xs))"
  shows "find (\<lambda>i. f i = f x) xs = None \<or> find (\<lambda>i. f i = f x) xs = Some x"
proof (cases "find (\<lambda>i. f i = f x) xs")
  case (Some y)
  then have "y \<in> set xs" "f y = f x" by (auto simp: find_Some_iff)
  then show ?thesis using assms Some by (auto simp: inj_on_def)
qed simp

lemma map_of_fold_update:
  "inj_on f (set xs) \<Longrightarrow> map_of (fold (\<lambda>i. AList.update (f i) (g i)) xs cs) j =
     (case find (\<lambda>i. f i = j) xs of Some i \<Rightarrow> Some (g i) | None \<Rightarrow> map_of cs j)"
proof (induction xs arbitrary: cs)
  case (Cons x xs)
  let ?cs = "AList.update (f x) (g x) cs"
  have "inj_on f (set xs)" using Cons.prems by simp
  note IH = Cons.IH [OF this, of ?cs]
  show ?case
  proof (cases "f x = j")
    case True
    have l: "map_of ?cs j = Some (g x)" using True by (simp add: update_conv')
    from find_unique [OF Cons.prems] have "find (\<lambda>i. f i = j) xs = None \<or> find (\<lambda>i. f i = j) xs = Some x"
      unfolding True .
    then have "map_of (fold (\<lambda>i. AList.update (f i) (g i)) xs ?cs) j = Some (g x)"
      unfolding IH l by (elim disjE) simp_all
    then show ?thesis using True by simp
  next
    case False
    then have "map_of ?cs j = map_of cs j" by (simp add: update_conv')
    with IH False show ?thesis by (simp split: option.split)
  qed
qed simp

lemma distinct_fold_update:
  "distinct (map fst cs) \<Longrightarrow> distinct (map fst (fold (\<lambda>i. AList.update (f i) (g i)) xs cs))"
  by (induction xs arbitrary: cs) (auto simp: distinct_update)

lemma of_nat_inj_64: "i < 2 ^ 64 \<Longrightarrow> j < 2 ^ 64 \<Longrightarrow> (of_nat i :: u64) = of_nat j \<Longrightarrow> i = j"
proof -
  assume ij: "i < 2 ^ 64" "j < 2 ^ 64" and e: "(of_nat i :: u64) = of_nat j"
  have "unat (of_nat i :: u64) = i" "unat (of_nat j :: u64) = j"
    using ij by (auto intro!: unat_of_nat_small)
  then show "i = j" unfolding e by simp
qed

lemma map_of_new_chunks:
  assumes "n \<le> 2 ^ 64"
  shows "map_of (new_chunks ids n m) j =
    (if \<exists>i < n. j = next_chunk_id m + of_nat i
     then Some \<lparr> replicas = placed ids (rr_cursor m) (unat (j - next_chunk_id m)), deleted = False \<rparr>
     else map_of (chunks m) j)"
proof -
  let ?f = "\<lambda>i. next_chunk_id m + of_nat i"
  have "inj_on ?f (set [0..<n])" using assms by (auto simp: inj_on_def intro: of_nat_inj_64)
  from map_of_fold_update [OF this]
  have e: "map_of (new_chunks ids n m) j =
      (case find (\<lambda>i. ?f i = j) [0..<n] of
         Some i \<Rightarrow> Some \<lparr> replicas = placed ids (rr_cursor m) i, deleted = False \<rparr> | None \<Rightarrow> map_of (chunks m) j)"
    unfolding new_chunks_def .
  show ?thesis
  proof (cases "find (\<lambda>i. ?f i = j) [0..<n]")
    case None
    then have "\<not> (\<exists>i < n. j = ?f i)" by (auto simp: find_None_iff)
    then show ?thesis using e None by (simp only: if_False) simp
  next
    case (Some i)
    then have i: "i < n" "j = ?f i" by (auto simp: find_Some_iff)
    then have "unat (j - next_chunk_id m) = i" using assms unat_of_nat_small [of i, where 'a = 64] by simp
    then show ?thesis using e Some i by auto
  qed
qed

lemma online_ids:
  "set (online_server_ids m) \<subseteq> dom (map_of (servers m))"
  "distinct (map fst (servers m)) \<Longrightarrow>
     sid \<in> set (online_server_ids m) \<longleftrightarrow> (\<exists>s. map_of (servers m) sid = Some s \<and> online s)"
  "distinct (map fst (servers m)) \<Longrightarrow> distinct (online_server_ids m)"
proof -
  show "set (online_server_ids m) \<subseteq> dom (map_of (servers m))"
    by (auto simp: online_server_ids_def dom_map_of_conv_image_fst)
  assume d: "distinct (map fst (servers m))"
  then show "sid \<in> set (online_server_ids m) \<longleftrightarrow> (\<exists>s. map_of (servers m) sid = Some s \<and> online s)"
    by (force simp: online_server_ids_def)
  show "distinct (online_server_ids m)"
    using d by (auto simp: online_server_ids_def distinct_map intro: inj_on_subset)
qed

text \<open>The outcomes of \<open>allocate\<close>: a rejection, a panic on a huge count, or the chunks.\<close>

definition chunk_count :: "u64 \<Rightarrow> u64 \<Rightarrow> nat" where
  "chunk_count len chunk_size = unat (if len = 0 then 0 else div_ceil len chunk_size)"

lemma allocate_cases:
  obtains (rejected) e where "allocate p len cs m = (Some (Inl e), m)"
    | (overflow) "allocate p len cs m = (None, m)" "capacity_overflow (chunk_count len cs) 72"
    | (granted) r where "allocate p len cs m = (Some (Inr r),
          (allocated (online_server_ids m) (chunk_count len cs) m)\<lparr>files := AList.update p (map fst r) (files m)\<rparr>)"
        "length r = chunk_count len cs" "map_of (files m) p = None" "cs \<noteq> 0" "2 \<le> length (online_server_ids m)"
        "\<forall>i < length r. \<exists>a b. r ! i = (next_chunk_id m + of_nat i, \<lparr> primary = a, secondary = Some b \<rparr>) \<and>
           addrs_of m (placed (online_server_ids m) (rr_cursor m) i) = Some [a, b]"
        "chunk_count len cs < 2 ^ 60"
proof -
  let ?ids = "online_server_ids m" and ?n = "chunk_count len cs"
  consider (bad) "cs = 0 \<or> map_of (files m) p \<noteq> None \<or> length ?ids < REPLICATION_FACTOR"
    | (good) "cs \<noteq> 0" "map_of (files m) p = None" "\<not> length ?ids < REPLICATION_FACTOR" by blast
  then show thesis
  proof cases
    case bad
    then have "\<exists>e. allocate p len cs m = (Some (Inl e), m)" by (auto simp: allocate_def Let_def)
    then show thesis using rejected by blast
  next
    case good
    show thesis
    proof (cases "capacity_overflow ?n 8 \<or> capacity_overflow ?n 72")
      case True
      then have "allocate p len cs m = (None, m)" using good unfolding allocate_def chunk_count_def Let_def by simp
      moreover have "capacity_overflow ?n 72" using True by (auto simp: capacity_overflow_def)
      ultimately show thesis by (rule overflow)
    next
      case False
      have ne: "?ids \<noteq> []" using good(3) by (auto simp: REPLICATION_FACTOR_def)
      from allocate_chunks_eq [OF online_ids(1) ne, of ?n] obtain r where
        r: "allocate_chunks ?ids ?n m = (Some r, allocated ?ids ?n m)" "length r = ?n"
        "\<forall>i < ?n. \<exists>a b. r ! i = (next_chunk_id m + of_nat i, \<lparr> primary = a, secondary = Some b \<rparr>) \<and>
           addrs_of m (placed ?ids (rr_cursor m) i) = Some [a, b]" by blast
      have "files (allocated ?ids ?n m) = files m" by (simp add: allocated_def)
      then have "allocate p len cs m =
          (Some (Inr r), (allocated ?ids ?n m)\<lparr>files := AList.update p (map fst r) (files m)\<rparr>)"
        using good False r(1) unfolding allocate_def chunk_count_def Let_def by simp
      moreover have "?n < 2 ^ 60" using False by (auto simp: capacity_overflow_def)
      ultimately show thesis using granted good r(2,3) by (auto simp: REPLICATION_FACTOR_def)
    qed
  qed
qed

lemma fresh_ids:
  "\<forall>i < length r. fst (r ! i) = k + of_nat i \<Longrightarrow> map fst r = map (\<lambda>i. k + of_nat i) [0..<length r]"
  by (rule nth_equalityI) simp_all

lemma counter_append:
  "map of_nat [0..<a] @ map (\<lambda>i. of_nat a + of_nat i) [0..<n] = (map of_nat [0..<a + n] :: u64 list)"
  by (rule nth_equalityI) (auto simp: nth_append)

text \<open>What remains of the invariant when one file and its fresh chunks are added to the namespace.\<close>

lemma new_file_files_ok:
  assumes m: "files_ok m" and dist: "distinct new"
    and old: "\<And>q cids. map_of (files m) q = Some cids \<Longrightarrow> set cids \<inter> set new = {}"
    and f: "\<And>q. map_of (files m') q = (if q = p then Some new else map_of (files m) q)"
    and fresh_ok: "\<And>j. j \<in> set new \<Longrightarrow> file_chunk_ok m' j"
    and kept: "\<And>j. file_chunk_ok m j \<Longrightarrow> j \<notin> set new \<Longrightarrow> file_chunk_ok m' j"
  shows "files_ok m'"
  unfolding files_ok_def
proof (intro conjI allI impI)
  fix q cids assume q: "map_of (files m') q = Some cids"
  have "distinct cids \<and> (\<forall>j \<in> set cids. file_chunk_ok m' j)"
  proof (cases "q = p")
    case True
    then show ?thesis using q f dist fresh_ok by auto
  next
    case False
    then have "map_of (files m) q = Some cids" using q f by simp
    then show ?thesis using old m kept unfolding files_ok_def by blast
  qed
  then show "distinct cids" "\<forall>j \<in> set cids. file_chunk_ok m' j" by simp_all
  fix q' dids assume q': "map_of (files m') q' = Some dids" "q \<noteq> q'"
  have apart: "set as \<inter> set bs = {}"
    if "map_of (files m) q = Some as" "map_of (files m) q' = Some bs" for as bs
    using that m q'(2) unfolding files_ok_def by blast
  show "set cids \<inter> set dids = {}"
    using q q' old [of q cids] old [of q' dids] apart [of cids dids] unfolding f
    by (cases "q = p"; cases "q' = p") auto
qed

lemma new_file_chunks_ok:
  assumes m: "chunks_ok m" and free: "map_of (files m) p = None"
    and c: "\<And>j. map_of (chunks m') j = (if j \<in> set new then Some \<lparr> replicas = reps j, deleted = False \<rparr> else map_of (chunks m) j)"
    and f: "\<And>q. map_of (files m') q = (if q = p then Some new else map_of (files m) q)"
    and reps: "\<And>j. reps j \<noteq> []"
  shows "chunks_ok m'"
  unfolding chunks_ok_def
proof (intro allI impI conjI)
  fix j info assume j: "map_of (chunks m') j = Some info"
  then show "replicas info \<noteq> []" using m reps by (auto simp: c chunks_ok_def split: if_splits)
  assume "\<not> deleted info"
  then show "\<exists>q cids. map_of (files m') q = Some cids \<and> j \<in> set cids"
    using j m free unfolding c f chunks_ok_def by (auto split: if_splits) (metis option.distinct(1))
qed

lemma allocate_ok:
  assumes ok: "master_ok (ids, m)" and al: "allocate p len cs m = (reply, m')"
    and small: "length (ids @ new_ids (Reply_Allocation reply)) \<le> 2 ^ 64"
  shows "master_ok (ids @ new_ids (Reply_Allocation reply), m')"
  using al
proof (cases rule: allocate_cases [of p len cs m])
  case (granted r)
  let ?on = "online_server_ids m" and ?k = "next_chunk_id m" and ?n = "length r" and ?new = "map fst r"
  let ?reps = "\<lambda>j. placed ?on (rr_cursor m) (unat (j - ?k))"
  have m': "m' = (allocated ?on ?n m)\<lparr>files := AList.update p ?new (files m)\<rparr>" and rep: "reply = Some (Inr r)"
    using al granted(1,2) by simp_all
  have fresh: "?new = map (\<lambda>i. ?k + of_nat i) [0..<?n]" using granted(6) by (intro fresh_ids) (metis fst_conv)
  note m = master_okD [OF ok]
  have k: "?k = of_nat (length ids)" and ids: "ids = map of_nat [0..<length ids]"
    and dom: "dom (map_of (chunks m)) \<subseteq> set ids" using m(2) by (auto simp: ids_ok_def)
  have all: "ids @ ?new = map of_nat [0..<length ids + ?n]"
    using ids counter_append [of "length ids" ?n] unfolding fresh k by metis
  have len: "length ids + ?n \<le> 2 ^ 64" using small rep by simp
  have dist: "distinct (ids @ ?new)"
    unfolding all using len by (auto simp: distinct_map inj_on_def intro: of_nat_inj_64)
  have n: "?n \<le> 2 ^ 64" using len by simp
  have c: "map_of (chunks m') j =
      (if j \<in> set ?new then Some \<lparr> replicas = ?reps j, deleted = False \<rparr> else map_of (chunks m) j)" for j
    unfolding m' fresh using map_of_new_chunks [OF n, of ?on m j] by (auto simp: allocated_def)
  have f: "map_of (files m') q = (if q = p then Some ?new else map_of (files m) q)" for q
    unfolding m' by (simp add: update_conv')
  have sv: "servers m' = servers m" and nx: "next_chunk_id m' = ?k + of_nat ?n" unfolding m' by (simp_all add: allocated_def)
  have old: "set cids \<inter> set ?new = {}" if "map_of (files m) q = Some cids" for q cids
  proof -
    have "\<forall>j \<in> set cids. file_chunk_ok m j" using that m(3) unfolding files_ok_def by blast
    then have "set cids \<subseteq> dom (map_of (chunks m))" by (auto simp: file_chunk_ok_def)
    then show ?thesis using dom dist by auto
  qed
  have on: "?on \<noteq> []" using granted(5) by auto
  have reps: "set (?reps j) \<subseteq> dom (map_of (servers m))" "length (?reps j) = REPLICATION_FACTOR" for j
    using placed_in [OF on] online_ids(1) [of m] by (blast, simp add: placed_def REPLICATION_FACTOR_def)
  have "dom (map_of (chunks m')) \<subseteq> set (ids @ ?new)" using dom by (auto simp: c split: if_splits)
  then have "ids_ok (ids @ ?new) m'" unfolding ids_ok_def using len all nx k by simp
  moreover have "maps_ok m'" using m(1) unfolding m'
    by (simp add: maps_ok_def distinct_update allocated_def new_chunks_def distinct_fold_update)
  moreover have "files_ok m'"
    using m(3) _ old f by (rule new_file_files_ok) (use dist reps in \<open>auto simp: file_chunk_ok_def c sv\<close>)
  moreover have "chunks_ok m'"
    using m(4) granted(3) c f by (rule new_file_chunks_ok) (simp add: placed_def)
  ultimately show ?thesis using rep by (simp add: master_okI)
qed (use ok al in \<open>auto\<close>)

end
