(* ===== verification/Gfs_Master_Props.thy ===== *)
theory Gfs_Master_Props
  imports Gfs_Namespace
begin

text \<open>
  What clients and chunk servers can rely on of the master: the namespace invariant in every state it
  reaches, the outcome of \<^verbatim>\<open>allocate\<close> and \<^verbatim>\<open>lookup\<close> on every branch, and the placement of replicas.  A state
  is paired with the chunk identifiers handed out so far; the counter is 64 bits wide, so the steps are
  taken while at most \<open>2 ^ 64\<close> identifiers have been handed out.
\<close>

section \<open>Reachable states\<close>

inductive master_step :: "chunk_id list \<times> master \<Rightarrow> chunk_id list \<times> master \<Rightarrow> bool" where
  served: "master_serve now c m = (r, m') \<Longrightarrow> length (ids @ new_ids r) \<le> 2 ^ 64 \<Longrightarrow>
    master_step (ids, m) (ids @ new_ids r, m')"

inductive_cases master_stepE: "master_step s t"

definition master_start :: "chunk_id list \<times> master \<Rightarrow> bool" where
  "master_start s \<longleftrightarrow> s = ([], master_new)"

lemma serve_ok:
  assumes "master_ok (ids, m)" and "master_serve now c m = (r, m')" and "length (ids @ new_ids r) \<le> 2 ^ 64"
  shows "master_ok (ids @ new_ids r, m')"
proof (cases c)
  case (Call_Allocate p l k)
  obtain rep m1 where "allocate p l k m = (rep, m1)" by fastforce
  with allocate_ok [OF assms(1) this] assms(2,3) Call_Allocate show ?thesis by auto
next
  case (Call_Delete p)
  then have "m' = snd (delete_path p m)" "new_ids r = []" using assms(2) by (cases "delete_path p m"; auto)+
  then show ?thesis using delete_ok [OF assms(1)] by simp
next
  case (Call_Register a)
  then have "m' = snd (register now a m)" "new_ids r = []" using assms(2) by (cases "register now a m"; auto)+
  then show ?thesis using register_ok [OF assms(1)] by simp
next
  case (Call_Heartbeat sid held)
  then have "m' = snd (heartbeat now sid held m)" "new_ids r = []" using assms(2) by (cases "heartbeat now sid held m"; auto)+
  then show ?thesis using heartbeat_ok [OF assms(1)] by simp
next
  case (Call_Lookup p)
  then show ?thesis using assms(1,2) by auto
next
  case Tick
  then show ?thesis using assms(2) detect_ok [OF assms(1)] by auto
qed

interpretation gfs: invariant_system master_start master_step master_ok
proof unfold_locales
  show "master_ok s" if "master_start s" for s using that master_ok_new by (simp add: master_start_def)
  show "master_ok t" if "master_ok s" "master_step s t" for s t
    using that(2,1) by (cases rule: master_step.cases) (auto intro: serve_ok)
qed

text \<open>C20. In every state the master reaches, the chunk identifiers handed out are pairwise different, even
  across deletions; every file consists of different chunks that the master knows, has not marked deleted
  and has placed on two registered servers; two files never share a chunk; and a chunk outside every file
  is marked deleted and still waits for the report of some server.\<close>

theorem master_namespace:
  assumes "reach master_start master_step (ids, m)"
  shows "distinct ids \<and>
    (\<forall>p cids. map_of (files m) p = Some cids \<longrightarrow> distinct cids \<and> set cids \<subseteq> set ids \<and>
       (\<forall>cid \<in> set cids. \<exists>info. map_of (chunks m) cid = Some info \<and> \<not> deleted info \<and>
          length (replicas info) = 2 \<and> set (replicas info) \<subseteq> dom (map_of (servers m)))) \<and>
    (\<forall>p q cids dids. map_of (files m) p = Some cids \<longrightarrow> map_of (files m) q = Some dids \<longrightarrow> p \<noteq> q \<longrightarrow>
       set cids \<inter> set dids = {}) \<and>
    (\<forall>cid info. map_of (chunks m) cid = Some info \<longrightarrow>
       (\<forall>p cids. map_of (files m) p = Some cids \<longrightarrow> cid \<notin> set cids) \<longrightarrow> deleted info \<and> replicas info \<noteq> [])"
proof (intro conjI)
  note m = master_okD [OF gfs.reach_inv [OF assms]]
  have ids: "ids = map of_nat [0..<length ids]" "length ids \<le> 2 ^ 64" "dom (map_of (chunks m)) \<subseteq> set ids"
    using m(2) by (simp_all add: ids_ok_def)
  show "distinct ids"
    by (subst ids(1)) (use ids(2) in \<open>auto simp: distinct_map inj_on_def intro: of_nat_inj_64\<close>)
  show "\<forall>p q cids dids. map_of (files m) p = Some cids \<longrightarrow> map_of (files m) q = Some dids \<longrightarrow> p \<noteq> q \<longrightarrow>
      set cids \<inter> set dids = {}" using m(3) unfolding files_ok_def by blast
  show "\<forall>cid info. map_of (chunks m) cid = Some info \<longrightarrow>
      (\<forall>p cids. map_of (files m) p = Some cids \<longrightarrow> cid \<notin> set cids) \<longrightarrow> deleted info \<and> replicas info \<noteq> []"
    using m(4) unfolding chunks_ok_def by blast
  show "\<forall>p cids. map_of (files m) p = Some cids \<longrightarrow> distinct cids \<and> set cids \<subseteq> set ids \<and>
       (\<forall>cid \<in> set cids. \<exists>info. map_of (chunks m) cid = Some info \<and> \<not> deleted info \<and>
          length (replicas info) = 2 \<and> set (replicas info) \<subseteq> dom (map_of (servers m)))"
  proof (intro allI impI)
    fix p cids assume "map_of (files m) p = Some cids"
    then have "distinct cids" and c: "\<forall>cid \<in> set cids. file_chunk_ok m cid" using m(3) unfolding files_ok_def by blast+
    moreover have "set cids \<subseteq> dom (map_of (chunks m))" using c by (auto simp: file_chunk_ok_def)
    ultimately show "distinct cids \<and> set cids \<subseteq> set ids \<and> (\<forall>cid \<in> set cids. \<exists>info. map_of (chunks m) cid = Some info \<and>
        \<not> deleted info \<and> length (replicas info) = 2 \<and> set (replicas info) \<subseteq> dom (map_of (servers m)))"
      using ids(3) by (auto simp: file_chunk_ok_def REPLICATION_FACTOR_def)
  qed
qed

section \<open>Lookup\<close>

definition is_online :: "master \<Rightarrow> server_id \<Rightarrow> bool" where
  "is_online m sid \<longleftrightarrow> (\<exists>s. map_of (servers m) sid = Some s \<and> online s)"

definition address :: "master \<Rightarrow> server_id \<Rightarrow> socket_addr" where
  "address m sid = addr (the (map_of (servers m) sid))"

definition placement :: "master \<Rightarrow> chunk_id \<Rightarrow> server_id list" where
  "placement m cid = (case map_of (chunks m) cid of Some info \<Rightarrow> replicas info | None \<Rightarrow> [])"

text \<open>The replica set of a chunk placed on \<open>s\<close> and \<open>t\<close>, one of which is online.\<close>

definition surviving :: "master \<Rightarrow> server_id \<Rightarrow> server_id \<Rightarrow> replica_set" where
  "surviving m s t =
     (if is_online m s
      then \<lparr> primary = address m s, secondary = (if is_online m t then Some (address m t) else None) \<rparr>
      else \<lparr> primary = address m t, secondary = None \<rparr>)"

lemma live_addrs_eq: "live_addrs m info = map (address m) (filter (is_online m) (replicas info))"
proof -
  let ?f = "\<lambda>sid. case map_of (servers m) sid of Some s \<Rightarrow> if online s then Some (addr s) else None | None \<Rightarrow> None"
  have "?f sid = (if is_online m sid then Some (address m sid) else None)" for sid
    by (simp add: is_online_def address_def split: option.split)
  then have "List.map_filter ?f sids = map (address m) (filter (is_online m) sids)" for sids
    by (induction sids) simp_all
  then show ?thesis by (simp add: live_addrs_def)
qed

lemma live_pair:
  "replicas info = [s, t] \<Longrightarrow> live_addrs m info = [] \<longleftrightarrow> \<not> is_online m s \<and> \<not> is_online m t"
  "replicas info = [s, t] \<Longrightarrow> live_addrs m info = a # as \<Longrightarrow>
     surviving m s t = \<lparr> primary = a, secondary = (case as of [] \<Rightarrow> None | q # _ \<Rightarrow> Some q) \<rparr>"
  by (auto simp: live_addrs_eq surviving_def split: if_splits)

text \<open>Looking up chunks that are placed on pairs of servers.\<close>

lemma lookup_chunks_eq:
  assumes "\<And>cid. cid \<in> set cids \<Longrightarrow>
    \<exists>info s t. map_of (chunks m) cid = Some info \<and> replicas info = [s, t] \<and> pick cid = (s, t)"
  shows "lookup_chunks m cids =
    (if \<exists>cid \<in> set cids. \<not> is_online m (fst (pick cid)) \<and> \<not> is_online m (snd (pick cid)) then Inl No_Live_Replicas
     else Inr (map (\<lambda>cid. (cid, surviving m (fst (pick cid)) (snd (pick cid)))) cids))"
  using assms
proof (induction cids)
  case (Cons cid cids)
  from Cons.prems [of cid] obtain info s t where
    i: "map_of (chunks m) cid = Some info" "replicas info = [s, t]" "pick cid = (s, t)" by auto
  have IH: "lookup_chunks m cids =
    (if \<exists>cid \<in> set cids. \<not> is_online m (fst (pick cid)) \<and> \<not> is_online m (snd (pick cid)) then Inl No_Live_Replicas
     else Inr (map (\<lambda>cid. (cid, surviving m (fst (pick cid)) (snd (pick cid)))) cids))"
    by (rule Cons.IH, rule Cons.prems) simp
  show ?case
  proof (cases "live_addrs m info")
    case Nil
    then show ?thesis using i live_pair(1) [OF i(2), of m] by simp
  next
    case (Cons a as)
    then show ?thesis using i IH live_pair [OF i(2), of m] by auto
  qed
qed simp

lemma pair_of_placement:
  assumes "file_chunk_ok m cid"
  shows "\<exists>info s t. map_of (chunks m) cid = Some info \<and> replicas info = [s, t] \<and> placement m cid = [s, t]"
  using assms by (auto simp: file_chunk_ok_def REPLICATION_FACTOR_def placement_def numeral_2_eq_2 length_Suc_conv)

lemma lookup_eq:
  assumes "master_ok (ids, m)" and p: "map_of (files m) p = Some cids"
  shows "lookup p m =
    (if \<exists>cid \<in> set cids. \<forall>sid \<in> set (placement m cid). \<not> is_online m sid then Inl No_Live_Replicas
     else Inr (map (\<lambda>cid. (cid, surviving m (placement m cid ! 0) (placement m cid ! 1))) cids))"
proof -
  have ok: "\<forall>cid \<in> set cids. file_chunk_ok m cid"
    using master_okD(3) [OF assms(1)] p unfolding files_ok_def by blast
  let ?pick = "\<lambda>cid. (placement m cid ! 0, placement m cid ! 1)"
  have pick: "\<exists>info s t. map_of (chunks m) cid = Some info \<and> replicas info = [s, t] \<and> ?pick cid = (s, t)"
    if "cid \<in> set cids" for cid
  proof -
    from ok that pair_of_placement obtain info s t where
      "map_of (chunks m) cid = Some info" "replicas info = [s, t]" "placement m cid = [s, t]" by blast
    then show ?thesis by simp
  qed
  have "(\<forall>sid \<in> set (placement m cid). \<not> is_online m sid) \<longleftrightarrow>
      \<not> is_online m (placement m cid ! 0) \<and> \<not> is_online m (placement m cid ! 1)" if "cid \<in> set cids" for cid
  proof -
    from ok that pair_of_placement obtain s t where "placement m cid = [s, t]" by blast
    then show ?thesis by simp
  qed
  then have "(\<exists>cid \<in> set cids. \<forall>sid \<in> set (placement m cid). \<not> is_online m sid) \<longleftrightarrow>
      (\<exists>cid \<in> set cids. \<not> is_online m (placement m cid ! 0) \<and> \<not> is_online m (placement m cid ! 1))" by blast
  with lookup_chunks_eq [OF pick] show "lookup p m =
      (if \<exists>cid \<in> set cids. \<forall>sid \<in> set (placement m cid). \<not> is_online m sid then Inl No_Live_Replicas
       else Inr (map (\<lambda>cid. (cid, surviving m (placement m cid ! 0) (placement m cid ! 1))) cids))"
    by (simp add: lookup_def p)
qed

text \<open>C35. What a lookup answers: a path that is no file is rejected; a file with a chunk none of whose two
  servers is online is rejected; otherwise the chunks come in file order, each with its online servers in
  write order, so that a primary that went offline is replaced by the secondary.\<close>

theorem lookup_outcome:
  assumes "reach master_start master_step (ids, m)"
  shows "(map_of (files m) p = None \<longrightarrow> lookup p m = Inl Path_Not_Found) \<and>
    (\<forall>cids. map_of (files m) p = Some cids \<longrightarrow>
       lookup p m =
         (if \<exists>cid \<in> set cids. \<forall>sid \<in> set (placement m cid). \<not> is_online m sid then Inl No_Live_Replicas
          else Inr (map (\<lambda>cid. (cid, surviving m (placement m cid ! 0) (placement m cid ! 1))) cids)))"
  using lookup_eq [OF gfs.reach_inv [OF assms]] by (simp add: lookup_def)

section \<open>Allocation\<close>

lemma unat_div_ceil: "b \<noteq> 0 \<Longrightarrow> unat (div_ceil a b) = (unat a + unat b - 1) div unat b"
proof -
  assume "b \<noteq> 0"
  define x y where "x = unat a" and "y = unat b"
  have y: "y > 0" using \<open>b \<noteq> 0\<close> by (simp add: y_def unat_gt_0)
  have d: "unat (a div b) = x div y" "unat (a mod b) = x mod y"
    by (simp_all add: x_def y_def unat_div_distrib unat_mod_distrib)
  have e: "(x + y - 1) div y = x div y + (if x mod y = 0 then 0 else 1)"
  proof -
    have "x + y - 1 = x div y * y + (x mod y + y - 1)" using y by simp
    then have "(x + y - 1) div y = x div y + (x mod y + y - 1) div y" using y by (metis div_mult_self3 neq0_conv)
    moreover have "(x mod y + y - 1) div y = (if x mod y = 0 then 0 else 1)"
    proof (cases "x mod y = 0")
      case False
      then have "x mod y + y - 1 = y + (x mod y - 1)" and l: "x mod y - 1 < y" using y mod_less_divisor [of y x] by linarith+
      then have "(x mod y + y - 1) div y = 1 + (x mod y - 1) div y" using y by (metis div_add_self1 add.commute neq0_conv)
      then show ?thesis using False l by simp
    qed (use y in simp)
    ultimately show ?thesis by simp
  qed
  show ?thesis
  proof (cases "x mod y = 0")
    case True
    then have "a mod b = 0" using d(2) by (simp add: unat_eq_zero)
    then show ?thesis using True d(1) e by (simp add: div_ceil_def x_def y_def)
  next
    case False
    have "y \<noteq> 1" using False by auto
    then have "x div y < x \<or> x = 0" using y by (metis div_less_dividend gr_zeroI less_one nat_neq_iff)
    then have "Suc (x div y) \<le> x" using False by auto
    then have "Suc (unat (a div b)) < 2 ^ 64" using d(1) unat_lt_64 [of a] unfolding x_def by linarith
    then have "unat (a div b + 1) = x div y + 1" using d(1) by (simp add: unat_word_ariths)
    moreover have "a mod b > 0" using False d(2) by (metis unat_0 word_gt_0)
    ultimately show ?thesis using False e by (simp add: div_ceil_def x_def y_def)
  qed
qed

lemma chunk_count_eq: "cs \<noteq> 0 \<Longrightarrow> chunk_count len cs = (unat len + unat cs - 1) div unat cs"
  by (simp add: chunk_count_def unat_div_ceil unat_gt_0)

lemma addrs_of_SomeD:
  "addrs_of m [s, t] = Some [a, b] \<Longrightarrow> a = address m s \<and> b = address m t"
  by (auto simp: addrs_of_def address_def split: option.splits)

text \<open>The state after a successful allocation of \<open>n\<close> chunks, and what a lookup of the new file finds.\<close>

lemma granted_lookup:
  fixes m :: master and r :: allocation
  defines "on \<equiv> online_server_ids m"
  assumes ok: "maps_ok m" and n: "length r < 2 ^ 60" and on: "2 \<le> length on"
    and r: "\<forall>i < length r. \<exists>a b. r ! i = (next_chunk_id m + of_nat i, \<lparr> primary = a, secondary = Some b \<rparr>) \<and>
      addrs_of m (placed on (rr_cursor m) i) = Some [a, b]"
    and m': "m' = (allocated on (length r) m)\<lparr>files := AList.update p (map fst r) (files m)\<rparr>"
  shows "i < length r \<Longrightarrow> placement m' (fst (r ! i)) = placed on (rr_cursor m) i"
    and "lookup p m' = Inr r"
proof -
  let ?k = "next_chunk_id m" and ?c = "rr_cursor m"
  have ne: "on \<noteq> []" using on by auto
  have n64: "length r \<le> 2 ^ 64" using n by simp
  have sv: "servers m' = servers m" unfolding m' by (simp add: allocated_def)
  have index_of: "unat (?k + of_nat i - ?k) = i" if "i < length r" for i
    using that n64 unat_of_nat_small [of i, where 'a = 64] by simp
  have c: "map_of (chunks m') (?k + of_nat i) = Some \<lparr> replicas = placed on ?c i, deleted = False \<rparr>"
    if "i < length r" for i
  proof -
    have "chunks m' = new_chunks on (length r) m" unfolding m' by (simp add: allocated_def)
    then show ?thesis using map_of_new_chunks [OF n64, of on m "?k + of_nat i"] index_of [OF that] that by auto
  qed
  have fst_r: "fst (r ! i) = ?k + of_nat i" if "i < length r" for i using r that by (metis fst_conv)
  show pl: "placement m' (fst (r ! i)) = placed on ?c i" if "i < length r" for i
    using that by (simp add: placement_def fst_r c)
  have live: "is_online m' (placed on ?c i ! 0) \<and> is_online m' (placed on ?c i ! 1)" for i
    using placed_in [OF ne, of ?c i] online_ids(2) [of m] ok unfolding on_def maps_ok_def
    by (auto simp: is_online_def sv placed_def)
  let ?pick = "\<lambda>cid. (placed on ?c (unat (cid - ?k)) ! 0, placed on ?c (unat (cid - ?k)) ! 1)"
  have pick: "\<exists>info s t. map_of (chunks m') cid = Some info \<and> replicas info = [s, t] \<and> ?pick cid = (s, t)"
    if "cid \<in> set (map fst r)" for cid
  proof -
    from that obtain e where e: "e \<in> set r" "cid = fst e" by auto
    then obtain i where "i < length r" "r ! i = e" by (auto simp: in_set_conv_nth)
    then have i: "i < length r" "cid = ?k + of_nat i" using fst_r [of i] e(2) by simp_all
    show ?thesis using c [OF i(1)] unfolding i(2) by (simp add: placed_def)
  qed
  have "lookup_chunks m' (map fst r) =
      Inr (map (\<lambda>cid. (cid, surviving m' (fst (?pick cid)) (snd (?pick cid)))) (map fst r))"
    using lookup_chunks_eq [of "map fst r" m' ?pick, OF pick] live by simp
  moreover have "map (\<lambda>cid. (cid, surviving m' (fst (?pick cid)) (snd (?pick cid)))) (map fst r) = r"
  proof (rule nth_equalityI)
    fix i assume "i < length (map (\<lambda>cid. (cid, surviving m' (fst (?pick cid)) (snd (?pick cid)))) (map fst r))"
    then have i: "i < length r" by simp
    from r i obtain a b where ab: "r ! i = (?k + of_nat i, \<lparr> primary = a, secondary = Some b \<rparr>)"
      "addrs_of m (placed on ?c i) = Some [a, b]" by blast
    have "placed on ?c i = [placed on ?c i ! 0, placed on ?c i ! 1]" by (simp add: placed_def)
    with ab(2) addrs_of_SomeD have "a = address m (placed on ?c i ! 0) \<and> b = address m (placed on ?c i ! 1)" by metis
    then have "surviving m' (placed on ?c i ! 0) (placed on ?c i ! 1) = \<lparr> primary = a, secondary = Some b \<rparr>"
      using live [of i] by (simp add: surviving_def address_def sv)
    then show "map (\<lambda>cid. (cid, surviving m' (fst (?pick cid)) (snd (?pick cid)))) (map fst r) ! i = r ! i"
      using i ab(1) index_of [OF i] by simp
  qed simp
  moreover have "map_of (files m') p = Some (map fst r)" unfolding m' by (simp add: update_conv')
  ultimately show "lookup p m' = Inr r" by (simp add: lookup_def)
qed

text \<open>C21. The outcome of an allocation on every branch: a zero chunk size, a path in use and too few online
  servers are rejected without a change; a count of chunks whose result would exceed the address space
  panics; otherwise the file gets \<open>\<lceil>len / chunk_size\<rceil>\<close> chunks with the next identifiers, nothing else
  changes in the namespace, and a lookup right after it answers what the allocation answered.\<close>

theorem allocate_outcome:
  assumes "reach master_start master_step (ids, m)" and "allocate p len cs m = (reply, m')"
  shows "if cs = 0 then reply = Some (Inl Invalid_Chunk_Size) \<and> m' = m
    else if map_of (files m) p \<noteq> None then reply = Some (Inl Already_Exists) \<and> m' = m
    else if length (online_server_ids m) < 2 then reply = Some (Inl Not_Enough_Servers) \<and> m' = m
    else if capacity_overflow ((unat len + unat cs - 1) div unat cs) 72 then reply = None \<and> m' = m
    else (\<exists>r. reply = Some (Inr r) \<and>
           map fst r = map (\<lambda>i. of_nat (length ids + i)) [0..<(unat len + unat cs - 1) div unat cs] \<and>
           map_of (files m') = (map_of (files m))(p \<mapsto> map fst r) \<and> servers m' = servers m \<and> lookup p m' = Inr r)"
proof -
  note m = master_okD [OF gfs.reach_inv [OF assms(1)]]
  consider (bad) "cs = 0 \<or> map_of (files m) p \<noteq> None \<or> length (online_server_ids m) < 2"
    | (good) "cs \<noteq> 0" "map_of (files m) p = None" "\<not> length (online_server_ids m) < 2" by blast
  then show ?thesis
  proof cases
    case bad
    then show ?thesis using assms(2) by (auto simp: allocate_def Let_def REPLICATION_FACTOR_def split: if_splits)
  next
    case good
    note n = chunk_count_eq [OF good(1), of len]
    show ?thesis
    proof (cases rule: allocate_cases [of p len cs m])
      case (rejected e)
      then show ?thesis using good
        by (auto simp: allocate_def Let_def REPLICATION_FACTOR_def split: if_splits prod.splits option.splits)
    next
      case overflow
      then show ?thesis using good assms(2) n by simp
    next
      case (granted r)
      have m': "m' = (allocated (online_server_ids m) (length r) m)\<lparr>files := AList.update p (map fst r) (files m)\<rparr>"
        and rep: "reply = Some (Inr r)" using assms(2) granted(1,2) by simp_all
      have "length r < 2 ^ 60" using granted(2,7) by simp
      from granted_lookup(2) [OF m(1) this granted(5,6) m'] have l: "lookup p m' = Inr r" .
      have "map fst r = map (\<lambda>i. next_chunk_id m + of_nat i) [0..<length r]"
        using granted(6) by (intro fresh_ids) (metis fst_conv)
      then have f: "map fst r = map (\<lambda>i. of_nat (length ids + i)) [0..<chunk_count len cs]"
        using m(2) granted(2) by (simp add: ids_ok_def)
      have "\<not> capacity_overflow ((unat len + unat cs - 1) div unat cs) 72"
        using granted(1) good n by (auto simp: allocate_def Let_def chunk_count_def REPLICATION_FACTOR_def split: if_splits)
      then show ?thesis using good l f rep n unfolding m' by (simp add: update_conv' allocated_def)
    qed
  qed
qed

section \<open>Placement\<close>

lemma one_per_window:
  fixes L :: nat
  assumes "a < L"
  shows "length (filter (\<lambda>j. (u + j) mod L = a) [0..<L]) = 1"
proof -
  let ?f = "\<lambda>j. (u + j) mod L"
  have inj: "inj_on ?f {..<L}"
  proof (rule inj_onI)
    fix i j assume "i \<in> {..<L}" "j \<in> {..<L}" "?f i = ?f j"
    then have "u + i = u + j" by (intro mod_window_inj [of "u + i" L "u + j" u]) auto
    then show "i = j" by simp
  qed
  have "?f ` {..<L} \<subseteq> {..<L}" using assms by auto
  then have "?f ` {..<L} = {..<L}" using inj by (intro endo_inj_surj) auto
  then have "a \<in> ?f ` {..<L}" using assms by simp
  then obtain j where j: "j < L" "?f j = a" by auto
  then have "{i. i < L \<and> ?f i = a} = {j}" using inj by (auto simp: inj_on_def)
  moreover have "length (filter (\<lambda>j. ?f j = a) [0..<L]) = card {i. i < L \<and> ?f i = a}"
    by (subst distinct_card [symmetric]) (auto intro: arg_cong [where f = card])
  ultimately show ?thesis by simp
qed

lemma residue_balance:
  fixes L :: nat
  assumes "a < L" and "b < L"
  shows "length (filter (\<lambda>j. (u + j) mod L = a) [0..<N]) \<le> length (filter (\<lambda>j. (u + j) mod L = b) [0..<N]) + 1"
proof (induction N arbitrary: u rule: less_induct)
  case (less N)
  show ?case
  proof (cases "N < L")
    case True
    have "[0..<N + (L - N)] = [0..<N] @ [N..<N + (L - N)]" by (rule upt_add_eq_append) simp
    then have win: "[0..<L] = [0..<N] @ [N..<L]" using True by simp
    have "length (filter (\<lambda>j. (u + j) mod L = a) [0..<N]) \<le> length (filter (\<lambda>j. (u + j) mod L = a) [0..<L])"
      unfolding win filter_append length_append by simp
    with one_per_window [OF assms(1), of u] show ?thesis by simp
  next
    case False
    have "[0..<L + (N - L)] = [0..<L] @ [L..<L + (N - L)]" by (rule upt_add_eq_append) simp
    then have split: "[0..<N] = [0..<L] @ map (\<lambda>j. j + L) [0..<N - L]"
      using False by (simp add: map_add_upt)
    have shift: "(u + (j + L)) mod L = (u + j) mod L" for j by (metis add.assoc mod_add_self2)
    have "length (filter (\<lambda>j. (u + j) mod L = c) [0..<N]) =
        length (filter (\<lambda>j. (u + j) mod L = c) [0..<L]) + length (filter (\<lambda>j. (u + j) mod L = c) [0..<N - L])" for c
      unfolding split using shift by (simp add: filter_map o_def)
    then show ?thesis using less.IH [of "N - L" u] one_per_window [OF assms(1), of u] one_per_window [OF assms(2), of u]
      False assms(1) by simp
  qed
qed

lemma concat_placed:
  "concat (map (placed on c) [0..<n]) = map (\<lambda>j. on ! (unat (c + of_nat j) mod length on)) [0..<2 * n]"
  by (induction n) (simp_all add: placed_def)

lemma count_nth:
  assumes "distinct on" and "i < length on" and "\<And>x. x \<in> set xs \<Longrightarrow> f x < length on"
  shows "count_list (map (\<lambda>x. on ! f x) xs) (on ! i) = length (filter (\<lambda>x. f x = i) xs)"
  using assms(3) by (induction xs) (use assms(1,2) nth_eq_iff_index_eq in \<open>auto\<close>)

text \<open>Two picks in a row are the same server only when the cursor wraps between them.\<close>

lemma same_pick:
  assumes dist: "distinct on" and L: "2 \<le> length on"
  shows "on ! (unat (c + of_nat (2 * i)) mod length on) = on ! (unat (c + of_nat (2 * i + 1)) mod length on) \<longleftrightarrow>
    (c :: u64) + of_nat (2 * i) = - 1 \<and> length on dvd 2 ^ 64 - 1"
proof -
  let ?L = "length on" and ?x = "c + of_nat (2 * i)"
  have e: "on ! (unat ?x mod ?L) = on ! (unat (?x + 1) mod ?L) \<longleftrightarrow> unat ?x mod ?L = unat (?x + 1) mod ?L"
    by (rule nth_eq_iff_index_eq [OF dist]; rule mod_less_divisor) (use L in linarith)+
  have "unat ?x mod ?L = unat (?x + 1) mod ?L \<longleftrightarrow> ?x = - 1 \<and> ?L dvd 2 ^ 64 - 1"
  proof (cases "?x = - 1")
    case True
    then have "unat ?x = 2 ^ 64 - 1" "unat (?x + 1) = 0" by (simp_all add: unsigned_minus_1_eq_mask mask_eq_exp_minus_1)
    then show ?thesis using True by (simp add: dvd_eq_mod_eq_0)
  next
    case False
    then have "?x + 1 \<noteq> 0" by (metis add_eq_0_iff2)
    then have "unat (?x + 1) = Suc (unat ?x)" by (metis unatSuc add.commute)
    moreover have "Suc (unat ?x) mod ?L \<noteq> unat ?x mod ?L" using L by (simp add: mod_Suc)
    ultimately show ?thesis using False by auto
  qed
  with e show ?thesis by (simp add: ac_simps)
qed

text \<open>Without a wrap the picks go round the servers in order.\<close>

lemma picks_in_turn:
  assumes "unat (c :: u64) + 2 * k \<le> 2 ^ 64"
  shows "concat (map (placed on c) [0..<k]) = map (\<lambda>j. on ! ((unat c + j) mod length on)) [0..<2 * k]"
proof -
  have "concat (map (placed on c) [0..<k]) = map (\<lambda>j. on ! (unat (c + of_nat j) mod length on)) [0..<2 * k]"
    by (simp add: concat_placed)
  also have "\<dots> = map (\<lambda>j. on ! ((unat c + j) mod length on)) [0..<2 * k]"
  proof (rule map_cong)
    fix j assume "j \<in> set [0..<2 * k]"
    then have "unat c + j < 2 ^ 64" using assms by simp
    then have "unat (c + of_nat j) = unat c + j"
      using unat_of_nat_small [of j, where 'a = 64] by (simp add: unat_word_ariths)
    then show "on ! (unat (c + of_nat j) mod length on) = on ! ((unat c + j) mod length on)" by simp
  qed simp
  finally show ?thesis .
qed

text \<open>C36. How replicas are placed: every chunk of a new file is placed on two online servers, and they are two
  different servers except when the cursor wraps around between them and the number of online servers
  divides \<open>2 ^ 64 - 1\<close>; while the cursor does not wrap, any two online servers get the same number of
  replicas of the file, up to one.\<close>

theorem placement_balanced:
  fixes m :: master
  defines "on \<equiv> online_server_ids m"
  assumes "reach master_start master_step (ids, m)" and "allocate p len cs m = (Some (Inr r), m')"
  shows "(\<forall>i < length r. \<exists>s t. placement m' (fst (r ! i)) = [s, t] \<and> s \<in> set on \<and> t \<in> set on \<and>
      (s = t \<longleftrightarrow> rr_cursor m + of_nat (2 * i) = - 1 \<and> length on dvd 2 ^ 64 - 1)) \<and>
    (unat (rr_cursor m) + 2 * length r \<le> 2 ^ 64 \<longrightarrow>
      (\<forall>s \<in> set on. \<forall>t \<in> set on.
         count_list (concat (map (placement m' \<circ> fst) r)) s \<le> count_list (concat (map (placement m' \<circ> fst) r)) t + 1))"
proof -
  note m = master_okD [OF gfs.reach_inv [OF assms(2)]]
  let ?c = "rr_cursor m" and ?L = "length on"
  have dist: "distinct on" using online_ids(3) [of m] m(1) by (simp add: on_def maps_ok_def)
  show ?thesis
    using assms(3)
  proof (cases rule: allocate_cases [of p len cs m])
    case (granted r')
    then have r': "r' = r" and m': "m' = (allocated on (length r) m)\<lparr>files := AList.update p (map fst r) (files m)\<rparr>"
      using assms(3) unfolding on_def by simp_all
    note g = granted(2-7) [unfolded r', folded on_def]
    have "length r < 2 ^ 60" using g(1,6) by simp
    note pl = granted_lookup(1) [OF m(1) this [unfolded r'] g(4) [unfolded on_def] g(5) [unfolded on_def] m' [unfolded on_def],
        folded on_def]
    have L: "2 \<le> ?L" and ne: "on \<noteq> []" using g(4) by auto
    note diff = same_pick [OF dist L, of ?c]
    have "\<exists>s t. placement m' (fst (r ! i)) = [s, t] \<and> s \<in> set on \<and> t \<in> set on \<and>
        (s = t \<longleftrightarrow> ?c + of_nat (2 * i) = - 1 \<and> ?L dvd 2 ^ 64 - 1)" if "i < length r" for i
      using pl [OF that] diff [of i] placed_in [OF ne, of ?c i] by (simp add: placed_def)
    moreover have "count_list (concat (map (placement m' \<circ> fst) r)) s \<le> count_list (concat (map (placement m' \<circ> fst) r)) t + 1"
      if nowrap: "unat ?c + 2 * length r \<le> 2 ^ 64" and st: "s \<in> set on" "t \<in> set on" for s t
    proof -
      have "map (placement m' \<circ> fst) r = map (placed on ?c) [0..<length r]"
        by (rule nth_equalityI) (simp_all add: pl)
      with picks_in_turn [OF nowrap] have picks:
        "concat (map (placement m' \<circ> fst) r) = map (\<lambda>j. on ! ((unat ?c + j) mod ?L)) [0..<2 * length r]" by simp
      from st obtain a b where ab: "a < ?L" "b < ?L" "s = on ! a" "t = on ! b" by (auto simp: in_set_conv_nth)
      have inL: "(unat ?c + j) mod ?L < ?L" for j by (rule mod_less_divisor) (use L in linarith)
      show ?thesis
        using residue_balance [OF ab(1,2), of "unat ?c" "2 * length r"]
        unfolding picks ab(3,4) count_nth [OF dist ab(1) inL] count_nth [OF dist ab(2) inL] .
    qed
    ultimately show ?thesis by blast
  qed simp_all
qed

section \<open>Witnesses\<close>

definition demo_master :: master where
  "demo_master = snd (register 7 (V4 1 20) (snd (register 5 (V4 1 10) master_new)))"

lemma reach_registered:
  assumes "reach master_start master_step (ids, m)"
  shows "reach master_start master_step (ids, snd (register now a m))"
proof -
  have e: "master_serve now (Call_Register a) m = (Reply_Registered (fst (register now a m)), snd (register now a m))"
    by (simp add: map_prod_def split: prod.split)
  have "length ids \<le> 2 ^ 64" using gfs.reach_inv [OF assms] by (simp add: master_ok_def ids_ok_def)
  with served [OF e, of ids] reach_step [OF assms] show ?thesis by simp
qed

lemma demo_master_reach: "reach master_start master_step ([], demo_master)"
  unfolding demo_master_def by (intro reach_registered reach_start) (simp add: master_start_def)

lemma upto_three: "[0..<3] = [0, 1, 2]"
  by (simp add: upt_rec)

lemma demo_servers:
  "online_server_ids demo_master = [0, 1]" "files demo_master = []" "rr_cursor demo_master = 0" "next_chunk_id demo_master = 0"
  by (simp_all add: demo_master_def register_def master_new_def online_server_ids_def)

lemma demo_allocate:
  "\<exists>r m'. allocate ''f'' 5 2 demo_master = (Some (Inr r), m') \<and> map fst r = [0, 1, 2] \<and>
     map_of (files m') ''f'' = Some [0, 1, 2] \<and> length r = 3"
proof (cases rule: allocate_cases [of "''f''" 5 2 demo_master])
  case (rejected e)
  then show ?thesis
    by (auto simp: allocate_def demo_servers REPLICATION_FACTOR_def Let_def split: if_splits prod.splits option.splits)
next
  case overflow
  then show ?thesis by (simp add: capacity_overflow_def chunk_count_def div_ceil_def)
next
  case (granted r)
  have n: "chunk_count 5 2 = 3" by (simp add: chunk_count_def div_ceil_def)
  have "map fst r = map (\<lambda>i. 0 + of_nat i) [0..<length r]"
    using granted(6) demo_servers by (intro fresh_ids) (metis fst_conv)
  also have "\<dots> = [0, 1, 2]" using granted(2) n by (simp add: upto_three)
  finally show ?thesis using granted(1,2) n by (simp add: update_conv')
qed

theorem master_namespace_witness:
  "\<exists>ids. \<exists>m :: master. map_of (files m) ''f'' = Some [0, 1, 2] \<and> distinct ids \<and> set [0, 1, 2 :: chunk_id] \<subseteq> set ids"
proof -
  obtain r m' where a: "allocate ''f'' 5 2 demo_master = (Some (Inr r), m')" "map fst r = [0, 1, 2]"
    "map_of (files m') ''f'' = Some [0, 1, 2]" using demo_allocate by (elim exE conjE) (rule that)
  have "master_step ([], demo_master) ([] @ new_ids (Reply_Allocation (Some (Inr r))), m')"
    by (rule served [of 9 "Call_Allocate ''f'' 5 2"]) (simp_all add: a)
  with reach_step [OF demo_master_reach] have "reach master_start master_step (map fst r, m')" by simp
  from master_namespace [OF this] have d: "distinct (map fst r)"
    and f: "\<forall>p cids. map_of (files m') p = Some cids \<longrightarrow> set cids \<subseteq> set (map fst r)" by simp_all
  from f a(3) have "set [0, 1, 2 :: chunk_id] \<subseteq> set (map fst r)" by blast
  with d a(3) show ?thesis by blast
qed

theorem lookup_outcome_witness: "lookup ''g'' demo_master = Inl Path_Not_Found"
  using lookup_outcome [OF demo_master_reach, of "''g''"] by (simp add: demo_servers)

theorem allocate_outcome_witness:
  "\<exists>r m'. allocate ''f'' 5 2 demo_master = (Some (Inr r), m') \<and> map fst r = [0, 1, 2] \<and> lookup ''f'' m' = Inr r"
proof -
  obtain r m' where a: "allocate ''f'' 5 2 demo_master = (Some (Inr r), m')" using demo_allocate by blast
  from allocate_outcome [OF demo_master_reach a] show ?thesis
    using a by (simp add: demo_servers capacity_overflow_def upto_three)
qed

theorem placement_balanced_witness:
  "\<exists>r m'. allocate ''f'' 5 2 demo_master = (Some (Inr r), m') \<and>
     (\<exists>s t. placement m' (fst (r ! 2)) = [s, t] \<and> s \<noteq> t)"
proof -
  obtain r m' where a: "allocate ''f'' 5 2 demo_master = (Some (Inr r), m')" "length r = 3" using demo_allocate by blast
  have "(0 :: usize) + of_nat (2 * 2) \<noteq> - 1" by simp
  with placement_balanced [OF demo_master_reach a(1)] a(2)
  have "\<exists>s t. placement m' (fst (r ! 2)) = [s, t] \<and> s \<noteq> t"
    unfolding demo_servers by (metis lessI numeral_3_eq_3 numeral_2_eq_2)
  with a(1) show ?thesis by blast
qed

end
