(* ===== verification/Gfs_Cluster.thy ===== *)
theory Gfs_Cluster
  imports Gfs_Cli Gfs_Master_Props
begin

text \<open>
  The whole file system: the master, the chunk servers and any number of clients, whose steps interleave.
  A client's \<^verbatim>\<open>put\<close> is its allocation and then the writes of its chunks; a write is three steps, the store at the
  primary under its mutex, the store at the secondary it is forwarded to, and the reply to the client; a
  heartbeat is three steps too, the report, the master's reconciliation and the deletions.  Anything may come in
  between, and any message may be lost; servers are aborted, time out and come back to the master's view at any
  time, and the faults of the network are arbitrary.  Aborting a server does not stop the tasks already spawned
  for its connections (\<^verbatim>\<open>chunk.rs\<close>, \<open>data_loop\<close>), so a store may come after the abort.

  The record keeps, beside the parts of the system, what is in flight and what the clients know: the payload
  of every chunk, the acknowledged chunks and the bytes of every file.
\<close>

section \<open>Slices of a file\<close>

lemma slice_eq:
  assumes "cs \<noteq> 0" and "length bytes < 2 ^ 63" and "i < chunk_count (of_nat (length bytes)) cs"
  shows "slice bytes cs i = take (unat cs) (drop (i * unat cs) bytes)"
proof -
  let ?l = "length bytes" and ?k = "unat cs"
  have l: "unat (of_nat ?l :: u64) = ?l" using assms(2) by (intro unat_of_nat_small) simp
  have k: "?k > 0" using assms(1) by (simp add: unat_gt_0)
  have "i < (?l + ?k - 1) div ?k" using assms(3) chunk_count_eq [OF assms(1)] l by simp
  then have "Suc i * ?k \<le> ?l + ?k - 1" using k by (simp add: less_eq_div_iff_mult_less_eq Suc_le_eq [symmetric])
  then have il: "i * ?k < ?l" using k by simp
  have ki: "(i + 1) * ?k < 2 ^ 64"
  proof (cases i)
    case 0
    then show ?thesis using unat_lt_64 [of cs] by simp
  next
    case (Suc j)
    then have "?k \<le> i * ?k" by simp
    moreover have "(i + 1) * ?k = i * ?k + ?k" by simp
    ultimately have "(i + 1) * ?k < 2 * 2 ^ 63" using il assms(2) by linarith
    then show ?thesis by simp
  qed
  have i64: "unat (of_nat i :: u64) = i"
  proof -
    have "i \<le> i * ?k" using k by simp
    then have "i < 2 ^ 63" using il assms(2) by linarith
    then show ?thesis by (intro unat_of_nat_small) simp
  qed
  have start: "unat (of_nat i * cs) = i * ?k"
    using ki i64 by (simp add: unat_word_ariths)
  have "unat (of_nat i + 1 :: u64) = i + 1"
  proof -
    have "i \<le> i * ?k" "(i + 1) * ?k = i * ?k + ?k" using k by simp_all
    then have "i + 1 \<le> (i + 1) * ?k" using k by linarith
    then have "i + 1 < 2 ^ 64" using ki by linarith
    then show ?thesis using i64 by (simp add: unat_word_ariths)
  qed
  then have stop: "unat ((of_nat i + 1) * cs) = (i + 1) * ?k" using ki by (simp add: unat_word_ariths)
  have "unat (min ((of_nat i + 1) * cs) (of_nat ?l)) = min ((i + 1) * ?k) ?l"
    using stop l by (simp add: min_def word_le_nat_alt)
  then have "slice bytes cs i = take (min ((i + 1) * ?k) ?l - i * ?k) (drop (i * ?k) bytes)"
    by (simp add: slice_def Let_def start)
  moreover have "take (min ((i + 1) * ?k) ?l - i * ?k) (drop (i * ?k) bytes) = take ?k (drop (i * ?k) bytes)"
    by (cases "(i + 1) * ?k \<le> ?l") (simp_all add: min_def)
  ultimately show ?thesis by simp
qed

lemma concat_windows: "concat (map (\<lambda>i. take k (drop (i * k) xs)) [0..<n]) = take (n * k) xs"
  by (induction n) (simp_all add: take_add [symmetric] add.commute)

lemma concat_slices:
  assumes "cs \<noteq> 0" and "length bytes < 2 ^ 63"
  shows "concat (map (slice bytes cs) [0..<chunk_count (of_nat (length bytes)) cs]) = bytes"
proof -
  let ?n = "chunk_count (of_nat (length bytes)) cs"
  have "map (slice bytes cs) [0..<?n] = map (\<lambda>i. take (unat cs) (drop (i * unat cs) bytes)) [0..<?n]"
    using slice_eq [OF assms] by (intro map_cong) simp_all
  then have "concat (map (slice bytes cs) [0..<?n]) = take (?n * unat cs) bytes"
    by (simp only: concat_windows)
  moreover have "length bytes \<le> ?n * unat cs"
  proof -
    have k: "unat cs > 0" using assms(1) by (simp add: unat_gt_0)
    have "unat (of_nat (length bytes) :: u64) = length bytes" using assms(2) by (intro unat_of_nat_small) simp
    then have n: "?n = (length bytes + unat cs - 1) div unat cs" using chunk_count_eq [OF assms(1)] by simp
    show ?thesis using k div_mult_mod_eq [of "length bytes + unat cs - 1" "unat cs"]
        mod_less_divisor [OF k, of "length bytes + unat cs - 1"] unfolding n by linarith
  qed
  ultimately show ?thesis by simp
qed

section \<open>Steps\<close>

datatype progress = At_Primary | At_Both

fun reached :: "replica_set \<Rightarrow> progress \<Rightarrow> socket_addr set" where
  "reached rs At_Primary = {primary rs}"
| "reached rs At_Both = insert (primary rs) (set_option (secondary rs))"

record cluster =
  c_master :: master
  c_ids :: "chunk_id list"
  c_net :: net
  reports :: "(socket_addr \<times> server_id \<times> chunk_id list) list"
  drops :: "(socket_addr \<times> chunk_id list) list"
  pending :: "(chunk_id \<times> replica_set) list"
  in_flight :: "((chunk_id \<times> replica_set) \<times> progress) list"
  content :: "chunk_id \<rightharpoonup> u8 list"
  acked :: "chunk_id set"
  file_data :: "string \<rightharpoonup> u8 list"

definition cluster_start :: "cluster \<Rightarrow> bool" where
  "cluster_start K \<longleftrightarrow> K = \<lparr> c_master = master_new, c_ids = [], c_net = \<lparr> nodes = Map.empty, faults = [] \<rparr>,
     reports = [], drops = [], pending = [], in_flight = [], content = Map.empty, acked = {}, file_data = Map.empty \<rparr>"

definition payloads :: "u8 list \<Rightarrow> u64 \<Rightarrow> allocation \<Rightarrow> (chunk_id \<times> u8 list) list" where
  "payloads bytes cs r = zip (map fst r) (map (slice bytes cs) [0..<length r])"

inductive cluster_step :: "cluster \<Rightarrow> cluster \<Rightarrow> bool" where
  join: "nodes (c_net K) a = None \<Longrightarrow> map_of (servers (c_master K)) (next_server_id (c_master K)) = None \<Longrightarrow>
    chunk_register now a (c_master K, c_net K) = (m, N) \<Longrightarrow>
    cluster_step K (K\<lparr>c_master := m, c_net := spawn_server a N\<rparr>)"
| put: "allocate p (of_nat (length bytes)) cs (c_master K) = (Some (Inr r), m) \<Longrightarrow> length bytes < 2 ^ 63 \<Longrightarrow>
    length (c_ids K @ map fst r) \<le> 2 ^ 64 \<Longrightarrow>
    cluster_step K (K\<lparr>c_master := m, c_ids := c_ids K @ map fst r, pending := pending K @ r,
      content := content K ++ map_of (payloads bytes cs r), file_data := (file_data K)(p \<mapsto> bytes)\<rparr>)"
| arrive: "(cid, rs) \<in> set (pending K) \<Longrightarrow> content K cid = Some payload \<Longrightarrow> nodes (c_net K) (primary rs) \<noteq> None \<Longrightarrow>
    cluster_step K (K\<lparr>c_net := on_store (primary rs) (mem_set cid payload) (c_net K),
      pending := remove1 (cid, rs) (pending K), in_flight := ((cid, rs), At_Primary) # in_flight K\<rparr>)"
| relay: "((cid, rs), At_Primary) \<in> set (in_flight K) \<Longrightarrow> content K cid = Some payload \<Longrightarrow> secondary rs = Some b \<Longrightarrow>
    nodes (c_net K) b \<noteq> None \<Longrightarrow>
    cluster_step K (K\<lparr>c_net := on_store b (mem_set cid payload) (c_net K),
      in_flight := ((cid, rs), At_Both) # remove1 ((cid, rs), At_Primary) (in_flight K)\<rparr>)"
| confirm: "((cid, rs), g) \<in> set (in_flight K) \<Longrightarrow> g = At_Both \<or> secondary rs = None \<Longrightarrow>
    cluster_step K (K\<lparr>in_flight := remove1 ((cid, rs), g) (in_flight K), acked := insert cid (acked K)\<rparr>)"
| delete: "delete_path p (c_master K) = (Inr u, m) \<Longrightarrow>
    cluster_step K (K\<lparr>c_master := m, file_data := (file_data K)(p := None)\<rparr>)"
| timeout: "cluster_step K (K\<lparr>c_master := detect_timeouts now (c_master K)\<rparr>)"
| report: "nodes (c_net K) a = Some s \<Longrightarrow> beating s \<Longrightarrow>
    cluster_step K (K\<lparr>reports := reports K @ [(a, server_id s, chunks_held s)]\<rparr>)"
| reconcile: "(a, sid, held) \<in> set (reports K) \<Longrightarrow> heartbeat now sid held (c_master K) = (d, m) \<Longrightarrow>
    cluster_step K (K\<lparr>c_master := m, drops := drops K @ [(a, d)], reports := remove1 (a, sid, held) (reports K)\<rparr>)"
| drop: "(a, d) \<in> set (drops K) \<Longrightarrow>
    cluster_step K (K\<lparr>c_net := apply_drops a d (c_net K), drops := remove1 (a, d) (drops K)\<rparr>)"
| lose: "set rs \<subseteq> set (reports K) \<Longrightarrow> set ds \<subseteq> set (drops K) \<Longrightarrow> set ps \<subseteq> set (pending K) \<Longrightarrow>
    set fl \<subseteq> set (in_flight K) \<Longrightarrow>
    cluster_step K (K\<lparr>reports := rs, drops := ds, pending := ps, in_flight := fl\<rparr>)"
| abort: "cluster_step K (K\<lparr>c_net := abort_server a (c_net K)\<rparr>)"
| weather: "cluster_step K (K\<lparr>c_net := (c_net K)\<lparr>faults := fs\<rparr>\<rparr>)"

inductive_cases cluster_stepE: "cluster_step K L"

section \<open>The invariant\<close>

definition nodes_ok :: "master \<Rightarrow> net \<Rightarrow> bool" where
  "nodes_ok m N \<longleftrightarrow> stores_ok N \<and>
     (\<forall>a s. nodes N a = Some s \<longrightarrow> (\<exists>i. map_of (servers m) (server_id s) = Some i \<and> addr i = a)) \<and>
     (\<forall>sid i. map_of (servers m) sid = Some i \<longrightarrow> (\<exists>s. nodes N (addr i) = Some s \<and> server_id s = sid))"

definition data_ok :: "cluster \<Rightarrow> bool" where
  "data_ok K \<longleftrightarrow> dom (content K) = set (c_ids K) \<and>
     (\<forall>a cid bs. stored (c_net K) a cid = Some bs \<longrightarrow> content K cid = Some bs) \<and>
     (\<forall>p cids. map_of (files (c_master K)) p = Some cids \<longrightarrow> file_data K p = Some (concat (map (the \<circ> content K) cids)))"

definition writes :: "cluster \<Rightarrow> (chunk_id \<times> replica_set) set" where
  "writes K = set (pending K) \<union> fst ` set (in_flight K)"

definition writes_ok :: "cluster \<Rightarrow> bool" where
  "writes_ok K \<longleftrightarrow>
     (\<forall>cid rs. (cid, rs) \<in> writes K \<longrightarrow> cid \<in> set (c_ids K) \<and>
        (\<forall>info. map_of (chunks (c_master K)) cid = Some info \<longrightarrow> \<not> deleted info \<longrightarrow>
           (\<exists>s t. replicas info = [s, t] \<and> primary rs = address (c_master K) s \<and>
              secondary rs = Some (address (c_master K) t)))) \<and>
     acked K \<subseteq> set (c_ids K) \<and>
     (\<forall>cid sid. cid \<in> acked K \<longrightarrow> wanted (c_master K) sid cid \<longrightarrow>
        stored (c_net K) (address (c_master K) sid) cid \<noteq> None) \<and>
     (\<forall>cid rs g sid a. ((cid, rs), g) \<in> set (in_flight K) \<longrightarrow> wanted (c_master K) sid cid \<longrightarrow> a \<in> reached rs g \<longrightarrow>
        stored (c_net K) a cid \<noteq> None)"

definition flight_ok :: "cluster \<Rightarrow> bool" where
  "flight_ok K \<longleftrightarrow>
     (\<forall>a sid held. (a, sid, held) \<in> set (reports K) \<longrightarrow> set held \<subseteq> set (c_ids K) \<and>
        map_option server_id (nodes (c_net K) a) = Some sid) \<and>
     (\<forall>a d cid. (a, d) \<in> set (drops K) \<longrightarrow> cid \<in> set d \<longrightarrow> cid \<in> set (c_ids K) \<and>
        (\<forall>s. nodes (c_net K) a = Some s \<longrightarrow> \<not> wanted (c_master K) (server_id s) cid))"

definition cluster_ok :: "cluster \<Rightarrow> bool" where
  "cluster_ok K \<longleftrightarrow> master_ok (c_ids K, c_master K) \<and> nodes_ok (c_master K) (c_net K) \<and> data_ok K \<and> writes_ok K \<and> flight_ok K"

lemma cluster_okI:
  "master_ok (c_ids K, c_master K) \<Longrightarrow> nodes_ok (c_master K) (c_net K) \<Longrightarrow> data_ok K \<Longrightarrow> writes_ok K \<Longrightarrow> flight_ok K \<Longrightarrow>
     cluster_ok K"
  by (simp add: cluster_ok_def)

lemma cluster_okD:
  assumes "cluster_ok K"
  shows "master_ok (c_ids K, c_master K)" "nodes_ok (c_master K) (c_net K)" "data_ok K" "writes_ok K" "flight_ok K"
  using assms by (simp_all add: cluster_ok_def)

lemma data_okD:
  assumes "data_ok K"
  shows "dom (content K) = set (c_ids K)"
    and "stored (c_net K) a cid = Some bs \<Longrightarrow> content K cid = Some bs"
    and "map_of (files (c_master K)) p = Some cids \<Longrightarrow> file_data K p = Some (concat (map (the \<circ> content K) cids))"
  using assms unfolding data_ok_def by blast+

lemma writes_okD:
  assumes "writes_ok K"
  shows "(cid, rs) \<in> writes K \<Longrightarrow> cid \<in> set (c_ids K)"
    and "(cid, rs) \<in> writes K \<Longrightarrow> map_of (chunks (c_master K)) cid = Some info \<Longrightarrow> \<not> deleted info \<Longrightarrow>
      \<exists>s t. replicas info = [s, t] \<and> primary rs = address (c_master K) s \<and> secondary rs = Some (address (c_master K) t)"
    and "acked K \<subseteq> set (c_ids K)"
    and "cid \<in> acked K \<Longrightarrow> wanted (c_master K) sid cid \<Longrightarrow> stored (c_net K) (address (c_master K) sid) cid \<noteq> None"
    and "((cid, rs), g) \<in> set (in_flight K) \<Longrightarrow> wanted (c_master K) sid cid \<Longrightarrow> a \<in> reached rs g \<Longrightarrow> stored (c_net K) a cid \<noteq> None"
  using assms unfolding writes_ok_def by blast+

lemma flight_okD:
  assumes "flight_ok K"
  shows "(a, sid, held) \<in> set (reports K) \<Longrightarrow> set held \<subseteq> set (c_ids K)"
    and "(a, sid, held) \<in> set (reports K) \<Longrightarrow> map_option server_id (nodes (c_net K) a) = Some sid"
    and "(a, d) \<in> set (drops K) \<Longrightarrow> cid \<in> set d \<Longrightarrow> cid \<in> set (c_ids K)"
    and "(a, d) \<in> set (drops K) \<Longrightarrow> cid \<in> set d \<Longrightarrow> nodes (c_net K) a = Some s \<Longrightarrow>
      \<not> wanted (c_master K) (server_id s) cid"
  using assms unfolding flight_ok_def by blast+

section \<open>Steps of the master that hand out nothing\<close>

definition quiet :: "master \<Rightarrow> master \<Rightarrow> bool" where
  "quiet m m' \<longleftrightarrow>
     (\<forall>sid. map_option addr (map_of (servers m') sid) = map_option addr (map_of (servers m) sid)) \<and>
     (\<forall>cid info. map_of (chunks m') cid = Some info \<longrightarrow> \<not> deleted info \<longrightarrow> map_of (chunks m) cid = Some info) \<and>
     (\<forall>p cids. map_of (files m') p = Some cids \<longrightarrow> map_of (files m) p = Some cids)"

lemma quiet_address: "quiet m m' \<Longrightarrow> address m' = address m"
proof
  fix sid assume "quiet m m'"
  then have "map_option addr (map_of (servers m') sid) = map_option addr (map_of (servers m) sid)"
    by (simp add: quiet_def)
  then show "address m' sid = address m sid"
    by (cases "map_of (servers m') sid"; cases "map_of (servers m) sid") (simp_all add: address_def)
qed

lemma quiet_wanted: "quiet m m' \<Longrightarrow> wanted m' sid cid \<Longrightarrow> wanted m sid cid"
  by (auto simp: quiet_def wanted_def split: option.splits)

lemma quiet_nodes: "quiet m m' \<Longrightarrow> nodes_ok m N \<Longrightarrow> nodes_ok m' N"
proof -
  assume q: "quiet m m'" and ok: "nodes_ok m N"
  have same: "(\<exists>i. map_of (servers m') sid = Some i \<and> addr i = a) \<longleftrightarrow> (\<exists>i. map_of (servers m) sid = Some i \<and> addr i = a)"
    for sid a
  proof -
    have "map_option addr (map_of (servers m') sid) = map_option addr (map_of (servers m) sid)"
      using q by (simp add: quiet_def)
    then show ?thesis by (cases "map_of (servers m') sid"; cases "map_of (servers m) sid") auto
  qed
  then show "nodes_ok m' N" using ok unfolding nodes_ok_def by metis
qed

lemma quiet_step:
  assumes ok: "cluster_ok K" and q: "quiet (c_master K) m'" and m': "master_ok (c_ids K, m')"
    and fd: "\<And>p cids. map_of (files m') p = Some cids \<Longrightarrow> fd p = file_data K p"
  shows "cluster_ok (K\<lparr>c_master := m', file_data := fd\<rparr>)"
proof (rule cluster_okI)
  note d = data_okD [OF cluster_okD(3) [OF ok]] and w = writes_okD [OF cluster_okD(4) [OF ok]]
    and f = flight_okD [OF cluster_okD(5) [OF ok]]
  let ?K = "K\<lparr>c_master := m', file_data := fd\<rparr>"
  show "master_ok (c_ids ?K, c_master ?K)" using m' by simp
  show "nodes_ok (c_master ?K) (c_net ?K)" using quiet_nodes [OF q] cluster_okD(2) [OF ok] by simp
  show "data_ok ?K"
  proof -
    have "fd p = Some (concat (map (the \<circ> content K) cids))" if "map_of (files m') p = Some cids" for p cids
      using fd [OF that] d(3) q that by (simp add: quiet_def)
    then show ?thesis using d(1,2) by (simp add: data_ok_def)
  qed
  show "writes_ok ?K"
    unfolding writes_ok_def
  proof (intro conjI allI impI)
    fix cid rs info assume "(cid, rs) \<in> writes ?K"
    then have p: "(cid, rs) \<in> writes K" by (simp add: writes_def)
    then show "cid \<in> set (c_ids ?K)" using w(1) by simp
    assume "map_of (chunks (c_master ?K)) cid = Some info" "\<not> deleted info"
    then have "map_of (chunks (c_master K)) cid = Some info" using q by (simp add: quiet_def)
    then show "\<exists>s t. replicas info = [s, t] \<and> primary rs = address (c_master ?K) s \<and> secondary rs = Some (address (c_master ?K) t)"
      using w(2) p \<open>\<not> deleted info\<close> quiet_address [OF q] by simp
  next
    show "acked ?K \<subseteq> set (c_ids ?K)" using w(3) by simp
    show "stored (c_net ?K) (address (c_master ?K) sid) cid \<noteq> None"
      if "cid \<in> acked ?K" "wanted (c_master ?K) sid cid" for cid sid
      using w(4) [of cid sid] quiet_wanted [OF q, of sid cid] that quiet_address [OF q] by simp
    show "stored (c_net ?K) a cid \<noteq> None"
      if "((cid, rs), g) \<in> set (in_flight ?K)" "wanted (c_master ?K) sid cid" "a \<in> reached rs g" for cid rs g sid a
      using w(5) [of cid rs g sid a] quiet_wanted [OF q, of sid cid] that by simp
  qed
  show "flight_ok ?K"
    unfolding flight_ok_def using f quiet_wanted [OF q] by simp blast
qed

lemma delete_quiet: "delete_path p m = (r, m') \<Longrightarrow> quiet m m' \<and> (r = Inr u \<longrightarrow> map_of (files m') p = None)"
proof (cases "map_of (files m) p")
  case (Some cids)
  assume "delete_path p m = (r, m')"
  then have m': "m' = m\<lparr>files := AList.delete p (files m), chunks := fold mark_deleted cids (chunks m)\<rparr>"
    using Some by (simp add: delete_path_def)
  have "quiet m m'"
    unfolding quiet_def m'
    by (auto simp: map_of_marks_deleted delete_conv' split: if_splits)
  then show ?thesis unfolding m' by (simp add: delete_conv')
qed (auto simp: delete_path_def quiet_def)

lemma detect_quiet: "quiet m (detect_timeouts now m)"
  by (simp add: quiet_def detect_timeouts_def map_of_map_snd option.map_comp o_def if_distrib [of addr] cong: if_cong)

lemma touch_quiet: "quiet m (touch_server now sid m)"
  by (auto simp: quiet_def touch_server_def update_conv' split: option.split)

lemma heartbeat_quiet:
  assumes "maps_ok m"
  shows "quiet m (snd (heartbeat now sid held m))"
proof -
  let ?m = "touch_server now sid m"
  have d: "distinct (map fst (chunks m))" and c: "chunks ?m = chunks m" "files ?m = files m"
    using assms by (auto simp: touch_server_def maps_ok_def split: option.split)
  have "map_of (chunks m) j = Some info"
    if "map_of (reconcile sid held (chunks m)) j = Some info" "\<not> deleted info" for j info
    using that by (auto simp: map_of_reconcile [OF d] bind_eq_Some_conv reconciled_def without_replica_def dropped_def
        split: if_splits)
  moreover have "\<forall>sid'. map_option addr (map_of (servers ?m) sid') = map_option addr (map_of (servers m) sid')"
    using touch_quiet [of m now sid] by (simp add: quiet_def)
  ultimately show ?thesis by (simp add: heartbeat_def Let_def quiet_def c)
qed

section \<open>Steps of the network\<close>

lemma wanted_registered:
  assumes "master_ok (ids, m)" and "wanted m sid cid"
  shows "sid \<in> dom (map_of (servers m))" "cid \<in> set ids"
proof -
  note m = master_okD [OF assms(1)]
  from assms(2) obtain info where i: "map_of (chunks m) cid = Some info" "\<not> deleted info" "sid \<in> set (replicas info)"
    by (auto simp: wanted_def split: option.splits)
  with m(4) obtain p cids where "map_of (files m) p = Some cids" "cid \<in> set cids" unfolding chunks_ok_def by blast
  with m(3) have "file_chunk_ok m cid" unfolding files_ok_def by blast
  with i show "sid \<in> dom (map_of (servers m))" by (auto simp: file_chunk_ok_def)
  show "cid \<in> set ids" using i(1) m(2) by (auto simp: ids_ok_def)
qed

lemma net_step:
  assumes ok: "cluster_ok K"
    and ids: "\<And>a. map_option server_id (nodes N a) = map_option server_id (nodes (c_net K) a)" and st: "stores_ok N"
    and data: "\<And>a cid bs. stored N a cid = Some bs \<Longrightarrow> stored (c_net K) a cid = Some bs \<or> content K cid = Some bs"
    and keep: "\<And>cid sid. cid \<in> A \<Longrightarrow> wanted (c_master K) sid cid \<Longrightarrow> stored N (address (c_master K) sid) cid \<noteq> None"
    and fly: "\<And>cid rs g sid a. ((cid, rs), g) \<in> set fl \<Longrightarrow> wanted (c_master K) sid cid \<Longrightarrow> a \<in> reached rs g \<Longrightarrow> stored N a cid \<noteq> None"
    and sub: "A \<subseteq> set (c_ids K)" "set ps \<union> fst ` set fl \<subseteq> writes K" "set rs \<subseteq> set (reports K)" "set ds \<subseteq> set (drops K)"
  shows "cluster_ok (K\<lparr>c_net := N, reports := rs, drops := ds, pending := ps, in_flight := fl, acked := A\<rparr>)"
proof (rule cluster_okI)
  let ?K = "K\<lparr>c_net := N, reports := rs, drops := ds, pending := ps, in_flight := fl, acked := A\<rparr>"
  note d = data_okD [OF cluster_okD(3) [OF ok]] and w = writes_okD [OF cluster_okD(4) [OF ok]]
    and f = flight_okD [OF cluster_okD(5) [OF ok]]
  have id': "(\<exists>s. nodes N a = Some s \<and> server_id s = sid) \<longleftrightarrow> (\<exists>s. nodes (c_net K) a = Some s \<and> server_id s = sid)" for a sid
    using ids [of a] by (cases "nodes N a"; cases "nodes (c_net K) a") auto
  show "master_ok (c_ids ?K, c_master ?K)" using cluster_okD(1) [OF ok] by simp
  show "nodes_ok (c_master ?K) (c_net ?K)" using cluster_okD(2) [OF ok] st id' unfolding nodes_ok_def by simp metis
  show "data_ok ?K" using d data by (simp add: data_ok_def) blast
  have "writes ?K \<subseteq> writes K" using sub(2) by (simp add: writes_def)
  then show "writes_ok ?K" unfolding writes_ok_def using w(1,2) keep fly sub(1) by simp blast
  show "flight_ok ?K"
    unfolding flight_ok_def
  proof (intro conjI allI impI)
    fix a sid held assume "(a, sid, held) \<in> set (reports ?K)"
    then have "(a, sid, held) \<in> set (reports K)" using sub(3) by auto
    then show "set held \<subseteq> set (c_ids ?K)" "map_option server_id (nodes (c_net ?K) a) = Some sid"
      using f(1,2) ids [of a] by simp_all
  next
    fix a d cid assume "(a, d) \<in> set (drops ?K)" and c: "cid \<in> set d"
    then have r: "(a, d) \<in> set (drops K)" using sub(4) by auto
    show "cid \<in> set (c_ids ?K)" using f(3) [OF r c] by simp
    show "\<not> wanted (c_master ?K) (server_id s) cid" if "nodes (c_net ?K) a = Some s" for s
    proof -
      have "map_option server_id (nodes (c_net K) a) = Some (server_id s)" using that ids [of a] by simp
      then obtain s' where "nodes (c_net K) a = Some s'" "server_id s' = server_id s" by auto
      with f(4) [OF r c] show ?thesis by simp
    qed
  qed
qed

text \<open>Acknowledged chunks at an address of a wanted replica.\<close>

lemma wanted_node:
  assumes "cluster_ok K" and "wanted (c_master K) sid cid"
  shows "\<exists>s. nodes (c_net K) (address (c_master K) sid) = Some s \<and> server_id s = sid"
proof -
  from wanted_registered(1) [OF cluster_okD(1) [OF assms(1)] assms(2)] obtain i where
    i: "map_of (servers (c_master K)) sid = Some i" by auto
  then have "\<exists>s. nodes (c_net K) (addr i) = Some s \<and> server_id s = sid"
    using cluster_okD(2) [OF assms(1)] unfolding nodes_ok_def by blast
  then show ?thesis using i by (simp add: address_def)
qed

lemma grows_id: "grows c p N N' \<Longrightarrow> map_option server_id (nodes N' a) = map_option server_id (nodes N a)"
proof -
  assume "grows c p N N'"
  then have "map_option node_id (nodes N' a) = map_option node_id (nodes N a)" by (simp add: grows_def)
  then show ?thesis by (cases "nodes N' a"; cases "nodes N a") (simp_all add: node_id_def)
qed

lemma grows_cases: "grows c p N N' \<Longrightarrow> stored N' a x = Some bs \<Longrightarrow> stored N a x = Some bs \<or> x = c \<and> bs = p"
  unfolding grows_def by (metis fun_upd_apply option.inject)

lemma grows_keeps: "grows c p N N' \<Longrightarrow> stored N a x \<noteq> None \<Longrightarrow> stored N' a x \<noteq> None"
  unfolding grows_def by (metis fun_upd_apply option.discI)

lemma write_chunk_grows: "env_ok env \<Longrightarrow> write_chunk env cid rs payload N = (res, N') \<Longrightarrow> grows cid payload N N'"
  by (auto simp: write_chunk_def numeral_2_eq_2 dest!: exchange_write_grows
      split: prod.splits sum.splits data_response.splits)

text \<open>A chunk on its way that the master wants somewhere is wanted on exactly the servers it is sent to.\<close>

lemma writes_wanted:
  assumes "cluster_ok K" and "(cid, rs) \<in> writes K" and "wanted (c_master K) sid cid"
  obtains s t where "primary rs = address (c_master K) s" "secondary rs = Some (address (c_master K) t)"
    "sid = s \<or> sid = t" "wanted (c_master K) s cid" "wanted (c_master K) t cid"
proof -
  from assms(3) obtain info where i: "map_of (chunks (c_master K)) cid = Some info" "\<not> deleted info" "sid \<in> set (replicas info)"
    by (auto simp: wanted_def split: option.splits)
  from writes_okD(2) [OF cluster_okD(4) [OF assms(1)] assms(2) i(1,2)] obtain s t where
    st: "replicas info = [s, t]" "primary rs = address (c_master K) s" "secondary rs = Some (address (c_master K) t)"
    by blast
  then show thesis using that [of s t] i by (auto simp: wanted_def)
qed

text \<open>The stores of a write, at the primary and at the secondary.\<close>

lemma store_step:
  assumes ok: "cluster_ok K" and p: "content K cid = Some payload" "nodes (c_net K) a \<noteq> None"
    and sub: "set ps \<union> fst ` set fl \<subseteq> writes K"
    and new: "\<And>x rs g b. ((x, rs), g) \<in> set fl \<Longrightarrow> b \<in> reached rs g \<Longrightarrow>
      x = cid \<and> b = a \<or> (\<exists>g'. ((x, rs), g') \<in> set (in_flight K) \<and> b \<in> reached rs g')"
  shows "cluster_ok (K\<lparr>c_net := on_store a (mem_set cid payload) (c_net K), reports := reports K, drops := drops K,
    pending := ps, in_flight := fl, acked := acked K\<rparr>)"
proof (rule net_step [OF ok])
  let ?N = "on_store a (mem_set cid payload) (c_net K)"
  note w = writes_okD [OF cluster_okD(4) [OF ok]] and g = grows_on_store [of cid payload "c_net K" a]
  have so: "stores_ok (c_net K)" using cluster_okD(2) [OF ok] by (simp add: nodes_ok_def)
  show "map_option server_id (nodes ?N b) = map_option server_id (nodes (c_net K) b)" for b by (rule grows_id [OF g])
  show "stores_ok ?N" using g so by (simp add: grows_def)
  show "stored (c_net K) b x = Some bs \<or> content K x = Some bs" if "stored ?N b x = Some bs" for b x bs
    using grows_cases [OF g that] p(1) by auto
  show "stored ?N (address (c_master K) sid) x \<noteq> None" if "x \<in> acked K" "wanted (c_master K) sid x" for x sid
    using grows_keeps [OF g w(4) [OF that]] .
  show "stored ?N b x \<noteq> None" if f: "((x, rs), k) \<in> set fl" "wanted (c_master K) sid x" "b \<in> reached rs k" for x rs k sid b
    using new [OF f(1,3)]
  proof (elim disjE exE conjE)
    assume "x = cid" "b = a"
    then show ?thesis using stored_on_store [OF so] p(2) by simp
  next
    fix k' assume "((x, rs), k') \<in> set (in_flight K)" "b \<in> reached rs k'"
    then show ?thesis using grows_keeps [OF g w(5)] f(2) by blast
  qed
  show "acked K \<subseteq> set (c_ids K)" by (rule w(3))
  show "set ps \<union> fst ` set fl \<subseteq> writes K" by (rule sub)
qed simp_all

lemma arrive_ok:
  assumes ok: "cluster_ok K" and p: "(cid, rs) \<in> set (pending K)" "content K cid = Some payload" "nodes (c_net K) (primary rs) \<noteq> None"
  shows "cluster_ok (K\<lparr>c_net := on_store (primary rs) (mem_set cid payload) (c_net K),
      pending := remove1 (cid, rs) (pending K), in_flight := ((cid, rs), At_Primary) # in_flight K\<rparr>)"
proof -
  have "set (remove1 (cid, rs) (pending K)) \<union> fst ` set (((cid, rs), At_Primary) # in_flight K) \<subseteq> writes K"
    using p(1) set_remove1_subset [of "(cid, rs)" "pending K"] by (auto simp: writes_def)
  moreover have "x = cid \<and> a = primary rs \<or> (\<exists>g'. ((x, rs'), g') \<in> set (in_flight K) \<and> a \<in> reached rs' g')"
    if "((x, rs'), g) \<in> set (((cid, rs), At_Primary) # in_flight K)" "a \<in> reached rs' g" for x rs' g a
    using that by (cases "((x, rs'), g) = ((cid, rs), At_Primary)") auto
  ultimately have "cluster_ok (K\<lparr>c_net := on_store (primary rs) (mem_set cid payload) (c_net K), reports := reports K, drops := drops K,
    pending := remove1 (cid, rs) (pending K), in_flight := ((cid, rs), At_Primary) # in_flight K, acked := acked K\<rparr>)"
    by (rule store_step [OF ok p(2,3)])
  then show ?thesis by simp
qed

lemma relay_ok:
  assumes ok: "cluster_ok K" and p: "((cid, rs), At_Primary) \<in> set (in_flight K)" "content K cid = Some payload"
    "secondary rs = Some b" "nodes (c_net K) b \<noteq> None"
  shows "cluster_ok (K\<lparr>c_net := on_store b (mem_set cid payload) (c_net K),
      in_flight := ((cid, rs), At_Both) # remove1 ((cid, rs), At_Primary) (in_flight K)\<rparr>)"
proof -
  let ?fl = "((cid, rs), At_Both) # remove1 ((cid, rs), At_Primary) (in_flight K)"
  note sub = set_remove1_subset [of "((cid, rs), At_Primary)" "in_flight K"]
  have "fst ` set ?fl \<subseteq> fst ` set (in_flight K)" using p(1) sub by force
  then have "set (pending K) \<union> fst ` set ?fl \<subseteq> writes K" by (auto simp: writes_def)
  moreover have "x = cid \<and> a = b \<or> (\<exists>g'. ((x, rs'), g') \<in> set (in_flight K) \<and> a \<in> reached rs' g')"
    if "((x, rs'), g) \<in> set ?fl" "a \<in> reached rs' g" for x rs' g a
  proof (cases "((x, rs'), g) = ((cid, rs), At_Both)")
    case True
    then have "a = b \<or> a \<in> reached rs At_Primary" using that(2) p(3) by auto
    then show ?thesis using p(1) True by blast
  next
    case False
    then show ?thesis using that sub by auto
  qed
  ultimately have "cluster_ok (K\<lparr>c_net := on_store b (mem_set cid payload) (c_net K), reports := reports K, drops := drops K,
    pending := pending K, in_flight := ?fl, acked := acked K\<rparr>)" by (rule store_step [OF ok p(2,4)])
  then show ?thesis by simp
qed

lemma confirm_ok:
  assumes ok: "cluster_ok K" and f: "((cid, rs), g) \<in> set (in_flight K)" and g: "g = At_Both \<or> secondary rs = None"
  shows "cluster_ok (K\<lparr>in_flight := remove1 ((cid, rs), g) (in_flight K), acked := insert cid (acked K)\<rparr>)"
proof -
  let ?fl = "remove1 ((cid, rs), g) (in_flight K)"
  note w = writes_okD [OF cluster_okD(4) [OF ok]] and sub = set_remove1_subset [of "((cid, rs), g)" "in_flight K"]
  have wr: "(cid, rs) \<in> writes K" using f by (force simp: writes_def)
  have "cluster_ok (K\<lparr>c_net := c_net K, reports := reports K, drops := drops K, pending := pending K, in_flight := ?fl,
    acked := insert cid (acked K)\<rparr>)"
  proof (rule net_step [OF ok])
    show "stored (c_net K) (address (c_master K) sid) x \<noteq> None" if x: "x \<in> insert cid (acked K)" "wanted (c_master K) sid x" for x sid
    proof (cases "x \<in> acked K")
      case False
      then have "wanted (c_master K) sid cid" using x by simp
      from writes_wanted [OF ok wr this] obtain s t where "primary rs = address (c_master K) s"
        "secondary rs = Some (address (c_master K) t)" "sid = s \<or> sid = t" by metis
      then have "address (c_master K) sid \<in> reached rs g" using g by auto
      then show ?thesis using w(5) [OF f] x False by auto
    qed (use w(4) x(2) in blast)
    show "stored (c_net K) a x \<noteq> None" if "((x, rs'), g') \<in> set ?fl" "wanted (c_master K) sid x" "a \<in> reached rs' g'" for x rs' g' sid a
      using w(5) that sub by blast
    show "set (pending K) \<union> fst ` set ?fl \<subseteq> writes K" using sub by (auto simp: writes_def)
    show "stores_ok (c_net K)" using cluster_okD(2) [OF ok] by (simp add: nodes_ok_def)
    show "insert cid (acked K) \<subseteq> set (c_ids K)" using w(1) [OF wr] w(3) by simp
  qed simp_all
  then show ?thesis by simp
qed

lemma fold_mem_delete:
  "mem_ok st \<Longrightarrow> mem_ok (fold mem_delete d st)"
  "mem_ok st \<Longrightarrow> mem_get k (fold mem_delete d st) = (if k \<in> set d then None else mem_get k st)"
  by (induction d arbitrary: st) (auto simp: mem.inv_del mem.get_del)

lemma apply_drops_effect:
  assumes "stores_ok N"
  shows "stores_ok (apply_drops a d N)" "map_option server_id (nodes (apply_drops a d N) b) = map_option server_id (nodes N b)"
    "stored (apply_drops a d N) b cid = (if b = a \<and> cid \<in> set d then None else stored N b cid)"
  using assms
  by (auto simp: apply_drops_def gfs_simps stores_ok_def fold_mem_delete split: option.splits if_splits)

lemma drop_ok:
  assumes ok: "cluster_ok K" and d: "(a, d) \<in> set (drops K)"
  shows "cluster_ok (K\<lparr>c_net := apply_drops a d (c_net K), drops := remove1 (a, d) (drops K)\<rparr>)"
proof -
  let ?N = "apply_drops a d (c_net K)"
  note wr = writes_okD [OF cluster_okD(4) [OF ok]] and f = flight_okD [OF cluster_okD(5) [OF ok]]
  have so: "stores_ok (c_net K)" using cluster_okD(2) [OF ok] by (simp add: nodes_ok_def)
  note e = apply_drops_effect [OF so, of a d]
  have safe: "\<not> (address (c_master K) sid = a \<and> x \<in> set d)" if x: "wanted (c_master K) sid x" for x sid
  proof -
    from wanted_node [OF ok x] obtain s where "nodes (c_net K) (address (c_master K) sid) = Some s" "server_id s = sid" by blast
    then show ?thesis using f(4) [OF d] x by auto
  qed
  have "cluster_ok (K\<lparr>c_net := ?N, reports := reports K, drops := remove1 (a, d) (drops K), pending := pending K,
    in_flight := in_flight K, acked := acked K\<rparr>)"
  proof (rule net_step [OF ok])
    show "stored (c_net K) b x = Some bs \<or> content K x = Some bs" if "stored ?N b x = Some bs" for b x bs
      using that unfolding e(3) by (auto split: if_splits)
    show "stored ?N (address (c_master K) sid) x \<noteq> None" if x: "x \<in> acked K" "wanted (c_master K) sid x" for x sid
      using safe [OF x(2)] wr(4) [OF x] e(3) by auto
    show "stored ?N b x \<noteq> None" if x: "((x, rs), g) \<in> set (in_flight K)" "wanted (c_master K) sid x" "b \<in> reached rs g" for x rs g sid b
    proof -
      have "(x, rs) \<in> writes K" using x(1) by (force simp: writes_def)
      from writes_wanted [OF ok this x(2)] obtain s t where st: "primary rs = address (c_master K) s"
        "secondary rs = Some (address (c_master K) t)" "wanted (c_master K) s x" "wanted (c_master K) t x" by metis
      have "b = address (c_master K) s \<or> b = address (c_master K) t" using x(3) st(1,2) by (cases g) auto
      then have "\<not> (b = a \<and> x \<in> set d)" using safe [OF st(3)] safe [OF st(4)] by auto
      then show ?thesis using wr(5) [OF x] e(3) by auto
    qed
    show "set (remove1 (a, d) (drops K)) \<subseteq> set (drops K)" by (rule set_remove1_subset)
    show "set (pending K) \<union> fst ` set (in_flight K) \<subseteq> writes K" by (simp add: writes_def)
  qed (use e(1,2) wr(3) in auto)
  then show ?thesis by simp
qed

end
