(* ===== verification/Gfs_Files.thy ===== *)
theory Gfs_Files
  imports Gfs_Cluster
begin

text \<open>
  The invariant of the whole file system is kept by every step, and what it gives to clients: a file read is
  the file written, acknowledged chunks stay on both replicas, and a readable replica of each chunk is enough.
\<close>

section \<open>Servers joining\<close>

definition new_server :: "server_id \<Rightarrow> socket_addr \<Rightarrow> chunk_server" where
  "new_server sid a =
     \<lparr> server_id = sid, data_addr = a, chunk_store = mem_open empty_path, listening = True, beating = True \<rparr>"

lemma join_facts:
  assumes fresh: "nodes (c_net K) a = None"
    and unused: "map_of (servers (c_master K)) (next_server_id (c_master K)) = None"
    and reg: "chunk_register now a (c_master K, c_net K) = (m, N)"
  shows "m = snd (register now a (c_master K))"
    "nodes (spawn_server a N) = (nodes (c_net K))(a \<mapsto> new_server (next_server_id (c_master K)) a)"
    "map_of (servers m) = (map_of (servers (c_master K)))
      (next_server_id (c_master K) \<mapsto> \<lparr> addr = a, last_seen = now, online = True \<rparr>)"
    "chunks m = chunks (c_master K)" "files m = files (c_master K)"
    "wanted m sid cid = wanted (c_master K) sid cid"
    "sid \<in> dom (map_of (servers (c_master K))) \<Longrightarrow> address m sid = address (c_master K) sid"
    "stored (spawn_server a N) b = stored (c_net K) b"
proof -
  show m: "m = snd (register now a (c_master K))" using reg by (auto simp: chunk_register_def split: prod.splits)
  show N: "nodes (spawn_server a N) = (nodes (c_net K))(a \<mapsto> new_server (next_server_id (c_master K)) a)"
    using reg by (auto simp: chunk_register_def register_def Let_def spawn_server_def on_node_def new_server_def)
  show sv: "map_of (servers m) = (map_of (servers (c_master K)))
      (next_server_id (c_master K) \<mapsto> \<lparr> addr = a, last_seen = now, online = True \<rparr>)"
    and same: "chunks m = chunks (c_master K)" "files m = files (c_master K)"
    unfolding m by (simp_all add: register_def Let_def update_conv')
  show "wanted m sid cid = wanted (c_master K) sid cid" by (simp add: wanted_def same)
  show "sid \<in> dom (map_of (servers (c_master K))) \<Longrightarrow> address m sid = address (c_master K) sid"
    using unused by (auto simp: address_def sv)
  show "stored (spawn_server a N) b = stored (c_net K) b"
    using fresh by (auto simp: fun_eq_iff stored_def N new_server_def mem_open_def mem_get_def)
qed

lemma join_nodes:
  assumes no: "nodes_ok m (c_net K)" and fresh: "nodes (c_net K) a = None" and unused: "map_of (servers m) sid = None"
    and N: "nodes N = (nodes (c_net K))(a \<mapsto> new_server sid a)"
    and sv: "map_of (servers m') = (map_of (servers m))(sid \<mapsto> \<lparr> addr = a, last_seen = now, online = True \<rparr>)"
  shows "nodes_ok m' N"
  unfolding nodes_ok_def
proof (intro conjI allI impI)
  show "stores_ok N" using no by (auto simp: nodes_ok_def stores_ok_def N new_server_def mem_open_def mem_ok_def)
  fix b s assume "nodes N b = Some s"
  then consider (new) "b = a" "s = new_server sid a" | (old) "b \<noteq> a" "nodes (c_net K) b = Some s"
    using N by (auto split: if_splits)
  then show "\<exists>i. map_of (servers m') (server_id s) = Some i \<and> addr i = b"
  proof cases
    case new
    then show ?thesis by (simp add: sv new_server_def)
  next
    case old
    with no obtain i where i: "map_of (servers m) (server_id s) = Some i" "addr i = b" unfolding nodes_ok_def by blast
    then have "server_id s \<noteq> sid" using unused by auto
    then show ?thesis using i by (simp add: sv)
  qed
next
  fix t i assume i: "map_of (servers m') t = Some i"
  show "\<exists>s. nodes N (addr i) = Some s \<and> server_id s = t"
  proof (cases "t = sid")
    case True
    then have "addr i = a" using i sv by auto
    then show ?thesis using True N by (simp add: new_server_def)
  next
    case False
    then have "map_of (servers m) t = Some i" using i by (simp add: sv)
    with no obtain s where "nodes (c_net K) (addr i) = Some s" "server_id s = t" unfolding nodes_ok_def by blast
    then show ?thesis using N fresh by auto
  qed
qed

lemma join_ok:
  assumes ok: "cluster_ok K" and fresh: "nodes (c_net K) a = None"
    and unused: "map_of (servers (c_master K)) (next_server_id (c_master K)) = None"
    and reg: "chunk_register now a (c_master K, c_net K) = (m, N)"
  shows "cluster_ok (K\<lparr>c_master := m, c_net := spawn_server a N\<rparr>)" (is "cluster_ok ?K")
proof (rule cluster_okI)
  note d = data_okD [OF cluster_okD(3) [OF ok]] and w = writes_okD [OF cluster_okD(4) [OF ok]]
    and f = flight_okD [OF cluster_okD(5) [OF ok]] and J = join_facts [OF fresh unused reg]
  note known = wanted_registered(1) [OF cluster_okD(1) [OF ok]]
  show "master_ok (c_ids ?K, c_master ?K)" using register_ok [OF cluster_okD(1) [OF ok]] J(1) by simp
  show "nodes_ok (c_master ?K) (c_net ?K)" using join_nodes [OF cluster_okD(2) [OF ok] fresh unused J(2,3)] by simp
  show "data_ok ?K" using d J(4,5,8) by (simp add: data_ok_def)
  show "writes_ok ?K"
    unfolding writes_ok_def
  proof (intro conjI allI impI)
    fix cid rs info assume "(cid, rs) \<in> writes ?K"
    then have p: "(cid, rs) \<in> writes K" by (simp add: writes_def)
    then show "cid \<in> set (c_ids ?K)" using w(1) by simp
    assume "map_of (chunks (c_master ?K)) cid = Some info" and i: "\<not> deleted info"
    then have i': "map_of (chunks (c_master K)) cid = Some info" using J(4) by simp
    from w(2) [OF p i' i] obtain s t where st: "replicas info = [s, t]" "primary rs = address (c_master K) s"
      "secondary rs = Some (address (c_master K) t)" by (elim exE conjE) (rule that)
    have "wanted (c_master K) s cid" "wanted (c_master K) t cid" using i' i st(1) by (simp_all add: wanted_def)
    then show "\<exists>s t. replicas info = [s, t] \<and> primary rs = address (c_master ?K) s \<and> secondary rs = Some (address (c_master ?K) t)"
      using st J(7) [OF known] by simp
  next
    show "acked ?K \<subseteq> set (c_ids ?K)" using w(3) by simp
    show "stored (c_net ?K) (address (c_master ?K) sid) cid \<noteq> None"
      if "cid \<in> acked ?K" "wanted (c_master ?K) sid cid" for cid sid
      using that w(4) J(6,8) J(7) [OF known] by simp
    show "stored (c_net ?K) b cid \<noteq> None"
      if "((cid, rs), g) \<in> set (in_flight ?K)" "wanted (c_master ?K) sid cid" "b \<in> reached rs g" for cid rs g sid b
      using w(5) [of cid rs g sid b] that J(6,8) by simp
  qed
  show "flight_ok ?K"
    unfolding flight_ok_def
  proof (intro conjI allI impI)
    fix b sid held assume r: "(b, sid, held) \<in> set (reports ?K)"
    then show "set held \<subseteq> set (c_ids ?K)" using f(1) by simp
    from r f(2) have "map_option server_id (nodes (c_net K) b) = Some sid" by simp
    then show "map_option server_id (nodes (c_net ?K) b) = Some sid" using J(2) fresh by auto
  next
    fix b d cid assume r: "(b, d) \<in> set (drops ?K)" "cid \<in> set d"
    then show "cid \<in> set (c_ids ?K)" using f(3) by simp
    fix s assume "nodes (c_net ?K) b = Some s"
    then have "server_id s = next_server_id (c_master K) \<or> nodes (c_net K) b = Some s"
      using J(2) by (auto simp: new_server_def split: if_splits)
    moreover have "\<not> wanted (c_master K) (next_server_id (c_master K)) cid" using known [of _ cid] unused by blast
    ultimately show "\<not> wanted (c_master ?K) (server_id s) cid" using f(4) r J(6) by auto
  qed
qed

section \<open>New files\<close>

lemma put_facts:
  assumes ok: "master_ok (ids, m)" and al: "allocate p len cs m = (Some (Inr r), m')"
    and small: "length (ids @ map fst r) \<le> 2 ^ 64"
  shows "master_ok (ids @ map fst r, m')" "servers m' = servers m" "map_of (files m') = (map_of (files m))(p \<mapsto> map fst r)"
    "distinct (ids @ map fst r)" "cs \<noteq> 0" "length r = chunk_count len cs"
    "cid \<notin> set (map fst r) \<Longrightarrow> map_of (chunks m') cid = map_of (chunks m) cid"
    "(cid, rs) \<in> set r \<Longrightarrow> map_of (chunks m') cid = Some info \<Longrightarrow>
       \<exists>s t. replicas info = [s, t] \<and> primary rs = address m s \<and> secondary rs = Some (address m t)"
proof -
  show ok': "master_ok (ids @ map fst r, m')" using allocate_ok [OF ok al] small by simp
  have "ids_ok (ids @ map fst r) m'" using master_okD(2) [OF ok'] .
  then have e: "ids @ map fst r = map of_nat [0..<length (ids @ map fst r)]" by (simp add: ids_ok_def)
  have "distinct (map of_nat [0..<length (ids @ map fst r)] :: u64 list)"
    using small by (auto simp: distinct_map inj_on_def intro: of_nat_inj_64)
  then show "distinct (ids @ map fst r)" using e by simp
  from al show "servers m' = servers m" "map_of (files m') = (map_of (files m))(p \<mapsto> map fst r)" "cs \<noteq> 0"
    "length r = chunk_count len cs"
    by (cases rule: allocate_cases [of p len cs m]; auto simp: allocated_def update_conv')+
  show "map_of (chunks m') cid = map_of (chunks m) cid" if "cid \<notin> set (map fst r)"
    using al
  proof (cases rule: allocate_cases [of p len cs m])
    case (granted r')
    then have r: "r' = r" and m': "chunks m' = new_chunks (online_server_ids m) (length r) m"
      using al by (auto simp: allocated_def)
    have n: "length r \<le> 2 ^ 64" using small by simp
    have "map fst r = map (\<lambda>i. next_chunk_id m + of_nat i) [0..<length r]"
      using granted(6) unfolding r by (intro fresh_ids) (metis fst_conv)
    then have "\<not> (\<exists>i < length r. cid = next_chunk_id m + of_nat i)" using that by force
    then show ?thesis unfolding m' map_of_new_chunks [OF n] by (simp only: if_False)
  qed simp_all
  assume rs: "(cid, rs) \<in> set r" and info: "map_of (chunks m') cid = Some info"
  show "\<exists>s t. replicas info = [s, t] \<and> primary rs = address m s \<and> secondary rs = Some (address m t)"
    using al
  proof (cases rule: allocate_cases [of p len cs m])
    case (granted r')
    let ?on = "online_server_ids m"
    have r: "r' = r" using al granted(1) by simp
    have m': "m' = (allocated ?on (length r) m)\<lparr>files := AList.update p (map fst r) (files m)\<rparr>"
      using al unfolding granted(1) r by (simp only: prod.inject granted(2) [unfolded r, symmetric])
    have "length r < 2 ^ 60" using granted(2,7) r by simp
    note pl = granted_lookup(1) [OF master_okD(1) [OF ok] this granted(5) granted(6) [unfolded r] m']
    from rs obtain i where i: "i < length r" "r ! i = (cid, rs)" by (auto simp: in_set_conv_nth)
    from granted(6) [unfolded r, rule_format, OF i(1)] i(2) obtain a b where ab: "rs = \<lparr> primary = a, secondary = Some b \<rparr>"
      "addrs_of m (placed ?on (rr_cursor m) i) = Some [a, b]" by auto
    have "placement m' cid = placed ?on (rr_cursor m) i" using pl [OF i(1)] i(2) by simp
    then have "replicas info = placed ?on (rr_cursor m) i" using info by (simp add: placement_def)
    moreover obtain s t where "placed ?on (rr_cursor m) i = [s, t]" by (simp add: placed_def)
    ultimately show ?thesis using ab addrs_of_SomeD [of m s t a b] by auto
  qed simp_all
qed

lemma map_of_payloads:
  assumes "distinct (map fst r)"
  shows "dom (map_of (payloads bytes cs r)) = set (map fst r)"
    "map (the \<circ> map_of (payloads bytes cs r)) (map fst r) = map (slice bytes cs) [0..<length r]"
proof -
  show "dom (map_of (payloads bytes cs r)) = set (map fst r)" by (simp add: payloads_def)
  show "map (the \<circ> map_of (payloads bytes cs r)) (map fst r) = map (slice bytes cs) [0..<length r]"
  proof (rule nth_equalityI)
    fix i assume "i < length (map (the \<circ> map_of (payloads bytes cs r)) (map fst r))"
    then have i: "i < length r" by simp
    have "map_of (zip (map fst r) (map (slice bytes cs) [0..<length r])) (map fst r ! i) = Some (map (slice bytes cs) [0..<length r] ! i)"
      using i assms by (intro map_of_zip_nth) simp_all
    then show "map (the \<circ> map_of (payloads bytes cs r)) (map fst r) ! i = map (slice bytes cs) [0..<length r] ! i"
      using i by (simp add: payloads_def)
  qed simp
qed

text \<open>A new file's identifiers are new, so nothing changes for the chunks there were.\<close>

lemma put_old:
  assumes ok: "cluster_ok K" and al: "allocate p (of_nat (length bytes)) cs (c_master K) = (Some (Inr r), m)"
    and small: "length (c_ids K @ map fst r) \<le> 2 ^ 64" and old: "cid \<in> set (c_ids K)"
  shows "cid \<notin> set (map fst r)" "(content K ++ map_of (payloads bytes cs r)) cid = content K cid"
    "wanted m sid cid = wanted (c_master K) sid cid"
proof -
  note P = put_facts [OF cluster_okD(1) [OF ok] al small]
  show new: "cid \<notin> set (map fst r)" using P(4) old by auto
  then have "cid \<notin> dom (map_of (payloads bytes cs r))" using map_of_payloads(1) [of r bytes cs] P(4) by auto
  then show "(content K ++ map_of (payloads bytes cs r)) cid = content K cid" by (simp add: map_add_dom_app_simps(3))
  show "wanted m sid cid = wanted (c_master K) sid cid" using P(7) new unfolding wanted_def by simp
qed

lemma put_data:
  assumes ok: "cluster_ok K" and al: "allocate p (of_nat (length bytes)) cs (c_master K) = (Some (Inr r), m)"
    and len: "length bytes < 2 ^ 63" and small: "length (c_ids K @ map fst r) \<le> 2 ^ 64"
  shows "data_ok (K\<lparr>c_master := m, c_ids := c_ids K @ map fst r, pending := pending K @ r,
      content := content K ++ map_of (payloads bytes cs r), file_data := (file_data K)(p \<mapsto> bytes)\<rparr>)"
    (is "data_ok ?K")
proof -
  let ?m = "c_master K" and ?ids = "c_ids K" and ?new = "map fst r"
  let ?C = "content K ++ map_of (payloads bytes cs r)"
  note P = put_facts [OF cluster_okD(1) [OF ok] al small] and d = data_okD [OF cluster_okD(3) [OF ok]]
  have dis: "distinct ?new" using P(4) by auto
  note Y = map_of_payloads [OF dis, of bytes cs] and old = put_old(2) [OF ok al small]
  show ?thesis
    unfolding data_ok_def
  proof (intro conjI allI impI)
    show "dom (content ?K) = set (c_ids ?K)" using d(1) Y(1) by auto
    show "content ?K cid = Some bs" if "stored (c_net ?K) a cid = Some bs" for a cid bs
    proof -
      have c: "content K cid = Some bs" using d(2) that by simp
      then have "cid \<in> set ?ids" using d(1) by auto
      then show ?thesis using old c by simp
    qed
    fix q cids assume q: "map_of (files (c_master ?K)) q = Some cids"
    show "file_data ?K q = Some (concat (map (the \<circ> content ?K) cids))"
    proof (cases "q = p")
      case True
      then have cids: "cids = ?new" using q P(3) by simp
      have "map (the \<circ> ?C) ?new = map (the \<circ> map_of (payloads bytes cs r)) ?new"
      proof (rule map_cong [OF refl])
        fix x assume "x \<in> set ?new"
        then have "x \<in> dom (map_of (payloads bytes cs r))" using Y(1) by simp
        then show "(the \<circ> ?C) x = (the \<circ> map_of (payloads bytes cs r)) x"
          by (auto simp: map_add_dom_app_simps(1))
      qed
      then have "concat (map (the \<circ> ?C) ?new) = bytes"
        by (simp only: Y(2) P(6) concat_slices [OF P(5) len])
      then show ?thesis using True cids by simp
    next
      case False
      then have q': "map_of (files ?m) q = Some cids" using q P(3) by simp
      then have "\<forall>cid \<in> set cids. file_chunk_ok ?m cid"
        using master_okD(3) [OF cluster_okD(1) [OF ok]] unfolding files_ok_def by blast
      then have "set cids \<subseteq> set ?ids"
        using master_okD(2) [OF cluster_okD(1) [OF ok]] by (auto simp: file_chunk_ok_def ids_ok_def)
      then have same: "map (the \<circ> ?C) cids = map (the \<circ> content K) cids" using old by (intro map_cong) auto
      have "file_data ?K q = file_data K q" using False by simp
      also have "\<dots> = Some (concat (map (the \<circ> ?C) cids))" unfolding same by (rule d(3) [OF q'])
      finally show ?thesis by simp
    qed
  qed
qed

lemma put_writes:
  assumes ok: "cluster_ok K" and al: "allocate p (of_nat (length bytes)) cs (c_master K) = (Some (Inr r), m)"
    and len: "length bytes < 2 ^ 63" and small: "length (c_ids K @ map fst r) \<le> 2 ^ 64"
  shows "writes_ok (K\<lparr>c_master := m, c_ids := c_ids K @ map fst r, pending := pending K @ r,
      content := content K ++ map_of (payloads bytes cs r), file_data := (file_data K)(p \<mapsto> bytes)\<rparr>)"
    (is "writes_ok ?K")
proof -
  let ?m = "c_master K" and ?ids = "c_ids K" and ?new = "map fst r"
  note P = put_facts [OF cluster_okD(1) [OF ok] al small] and w = writes_okD [OF cluster_okD(4) [OF ok]]
  have adr: "address m = address ?m" by (simp add: fun_eq_iff address_def P(2))
  have dis: "set ?ids \<inter> set ?new = {}" using P(4) by auto
  note want = put_old(3) [OF ok al small]
  show ?thesis
    unfolding writes_ok_def
  proof (intro conjI allI impI)
    fix cid rs info assume p: "(cid, rs) \<in> writes ?K"
    then have cases: "(cid, rs) \<in> writes K \<or> (cid, rs) \<in> set r" by (auto simp: writes_def)
    then show "cid \<in> set (c_ids ?K)" using w(1) by force
    assume i: "map_of (chunks (c_master ?K)) cid = Some info" "\<not> deleted info"
    from cases show "\<exists>s t. replicas info = [s, t] \<and> primary rs = address (c_master ?K) s \<and> secondary rs = Some (address (c_master ?K) t)"
    proof
      assume o: "(cid, rs) \<in> writes K"
      then have "cid \<notin> set ?new" using w(1) dis by auto
      then have "map_of (chunks ?m) cid = Some info" using P(7) i(1) by simp
      then show ?thesis using w(2) [OF o _ i(2)] adr by simp
    next
      assume "(cid, rs) \<in> set r"
      then show ?thesis using P(8) i(1) adr by simp
    qed
  next
    show "acked ?K \<subseteq> set (c_ids ?K)" using w(3) by auto
    fix cid sid assume c: "cid \<in> acked ?K" "wanted (c_master ?K) sid cid"
    then have "cid \<in> set ?ids" using w(3) by auto
    then show "stored (c_net ?K) (address (c_master ?K) sid) cid \<noteq> None" using w(4) c want adr by simp
  next
    fix cid rs g sid a assume f: "((cid, rs), g) \<in> set (in_flight ?K)" "wanted (c_master ?K) sid cid" "a \<in> reached rs g"
    then have "(cid, rs) \<in> writes K" by (force simp: writes_def)
    then have "cid \<in> set ?ids" by (rule w(1))
    then show "stored (c_net ?K) a cid \<noteq> None" using w(5) [of cid rs g sid a] f want by simp
  qed
qed

lemma put_ok:
  assumes ok: "cluster_ok K" and al: "allocate p (of_nat (length bytes)) cs (c_master K) = (Some (Inr r), m)"
    and len: "length bytes < 2 ^ 63" and small: "length (c_ids K @ map fst r) \<le> 2 ^ 64"
  shows "cluster_ok (K\<lparr>c_master := m, c_ids := c_ids K @ map fst r, pending := pending K @ r,
      content := content K ++ map_of (payloads bytes cs r), file_data := (file_data K)(p \<mapsto> bytes)\<rparr>)"
    (is "cluster_ok ?K")
proof (rule cluster_okI)
  note P = put_facts [OF cluster_okD(1) [OF ok] al small]
  note f = flight_okD [OF cluster_okD(5) [OF ok]]
  note want = put_old(3) [OF ok al small]
  show "master_ok (c_ids ?K, c_master ?K)" using P(1) by simp
  show "nodes_ok (c_master ?K) (c_net ?K)" using cluster_okD(2) [OF ok] by (simp add: nodes_ok_def P(2))
  show "data_ok ?K" by (rule put_data [OF ok al len small])
  show "writes_ok ?K" by (rule put_writes [OF ok al len small])
  show "flight_ok ?K"
    unfolding flight_ok_def
  proof (intro conjI allI impI)
    fix a sid held assume "(a, sid, held) \<in> set (reports ?K)"
    then have r: "(a, sid, held) \<in> set (reports K)" by simp
    show "set held \<subseteq> set (c_ids ?K)" using f(1) [OF r] by auto
    show "map_option server_id (nodes (c_net ?K) a) = Some sid" using f(2) [OF r] by simp
  next
    fix a d cid assume "(a, d) \<in> set (drops ?K)" and c: "cid \<in> set d"
    then have r: "(a, d) \<in> set (drops K)" by simp
    show "cid \<in> set (c_ids ?K)" using f(3) [OF r c] by simp
    show "\<not> wanted (c_master ?K) (server_id s) cid" if "nodes (c_net ?K) a = Some s" for s
      using f(4) [OF r c] that want [OF f(3) [OF r c]] by simp
  qed
qed

section \<open>Heartbeats\<close>

lemma chunks_held_stored:
  assumes "stores_ok N" and "nodes N a = Some s"
  shows "set (chunks_held s) = dom (stored N a)"
proof -
  have ok: "mem_ok (chunk_store s)" using assms by (auto simp: stores_ok_def)
  have "mem_scan Unbounded Unbounded (chunk_store s) \<noteq> None" using mem.scan_panics [OF ok] by simp
  then obtain es where es: "mem_scan Unbounded Unbounded (chunk_store s) = Some es" by blast
  have e: "(k, v) \<in> set es \<longleftrightarrow> mem_get k (chunk_store s) = Some v" for k v
    by (simp add: mem.scan_entries [OF ok es])
  have "k \<in> fst ` set es \<longleftrightarrow> (\<exists>v. (k, v) \<in> set es)" for k by (auto intro: image_eqI [rotated])
  then have "fst ` set es = {k. mem_get k (chunk_store s) \<noteq> None}" unfolding e by blast
  then show ?thesis using assms(2) es by (simp add: chunks_held_def stored_def dom_def)
qed

lemma report_ok:
  assumes ok: "cluster_ok K" and s: "nodes (c_net K) a = Some s"
  shows "cluster_ok (K\<lparr>reports := reports K @ [(a, server_id s, chunks_held s)]\<rparr>)" (is "cluster_ok ?K")
proof (rule cluster_okI)
  note d = data_okD [OF cluster_okD(3) [OF ok]] and f = flight_okD [OF cluster_okD(5) [OF ok]]
  show "master_ok (c_ids ?K, c_master ?K)" "nodes_ok (c_master ?K) (c_net ?K)" "data_ok ?K" "writes_ok ?K"
    using cluster_okD [OF ok] by (simp_all add: data_ok_def writes_ok_def writes_def)
  have "stores_ok (c_net K)" using cluster_okD(2) [OF ok] by (simp add: nodes_ok_def)
  then have "set (chunks_held s) = dom (stored (c_net K) a)" using s by (rule chunks_held_stored)
  also have "\<dots> \<subseteq> set (c_ids K)" using d(2) unfolding d(1) [symmetric] by blast
  finally have held: "set (chunks_held s) \<subseteq> set (c_ids K)" .
  show "flight_ok ?K"
    unfolding flight_ok_def
  proof (intro conjI allI impI)
    fix b sid held' assume r: "(b, sid, held') \<in> set (reports ?K)"
    then have "(b, sid, held') \<in> set (reports K) \<or> b = a \<and> sid = server_id s \<and> held' = chunks_held s" by auto
    then show "set held' \<subseteq> set (c_ids ?K)" "map_option server_id (nodes (c_net ?K) b) = Some sid"
      using f(1,2) held s by auto
  qed (use f(3,4) in simp_all)
qed

lemma heartbeat_drops: "fst (heartbeat now sid held m) = filter (\<lambda>cid. \<not> wanted m sid cid) held"
proof -
  have "wanted (touch_server now sid m) sid cid = wanted m sid cid" for cid
    by (simp add: wanted_def touch_server_def split: option.split)
  then show ?thesis by (simp add: heartbeat_def Let_def)
qed

lemma heartbeat_step_ok:
  assumes ok: "cluster_ok K" and r: "(a, sid, held) \<in> set (reports K)"
    and h: "heartbeat now sid held (c_master K) = (d, m)"
  shows "cluster_ok (K\<lparr>c_master := m, drops := drops K @ [(a, d)], reports := remove1 (a, sid, held) (reports K)\<rparr>)"
    (is "cluster_ok ?K")
proof -
  let ?m = "c_master K"
  have m: "m = snd (heartbeat now sid held ?m)" and d: "d = filter (\<lambda>cid. \<not> wanted ?m sid cid) held"
    using h heartbeat_drops [of now sid held ?m] by simp_all
  have maps: "maps_ok ?m" using master_okD(1) [OF cluster_okD(1) [OF ok]] .
  have q: "quiet ?m m" unfolding m by (rule heartbeat_quiet [OF maps])
  let ?L = "K\<lparr>c_master := m, file_data := file_data K\<rparr>"
  have okL: "cluster_ok ?L"
    by (rule quiet_step [OF ok q]) (simp_all add: m heartbeat_ok [OF cluster_okD(1) [OF ok]])
  note f = flight_okD [OF cluster_okD(5) [OF okL]]
  show ?thesis
  proof (rule cluster_okI)
    show "master_ok (c_ids ?K, c_master ?K)" "nodes_ok (c_master ?K) (c_net ?K)" "data_ok ?K" "writes_ok ?K"
      using cluster_okD [OF okL] by (simp_all add: data_ok_def writes_ok_def writes_def)
    show "flight_ok ?K"
      unfolding flight_ok_def
    proof (intro conjI allI impI)
      fix b sid' held' assume "(b, sid', held') \<in> set (reports ?K)"
      then have r': "(b, sid', held') \<in> set (reports ?L)" using set_remove1_subset by fastforce
      show "set held' \<subseteq> set (c_ids ?K)" "map_option server_id (nodes (c_net ?K) b) = Some sid'"
        using f(1,2) [OF r'] by simp_all
    next
      fix b d' cid assume "(b, d') \<in> set (drops ?K)" and c: "cid \<in> set d'"
      then consider (old) "(b, d') \<in> set (drops ?L)" | (new) "b = a" "d' = d" by auto
      note cases = this
      from cases show "cid \<in> set (c_ids ?K)"
      proof cases
        case old
        from f(3) [OF this c] show ?thesis by simp
      next
        case new
        then have "cid \<in> set held" using c d by simp
        then show ?thesis using f(1) [of a sid held] r by auto
      qed
      fix s assume s: "nodes (c_net ?K) b = Some s"
      from cases show "\<not> wanted (c_master ?K) (server_id s) cid"
      proof cases
        case old
        from f(4) [OF this c] s show ?thesis by simp
      next
        case new
        then have "server_id s = sid" using f(2) [of a sid held] r s by simp
        moreover have "\<not> wanted ?m sid cid" using new c d by simp
        ultimately show ?thesis using quiet_wanted [OF q] by auto
      qed
    qed
  qed
qed

section \<open>Losses, crashes and the network\<close>

lemma lose_ok:
  assumes "cluster_ok K" and "set rs \<subseteq> set (reports K)" "set ds \<subseteq> set (drops K)" "set ps \<subseteq> set (pending K)"
    "set fl \<subseteq> set (in_flight K)"
  shows "cluster_ok (K\<lparr>reports := rs, drops := ds, pending := ps, in_flight := fl\<rparr>)"
proof -
  have "stores_ok (c_net K)" using cluster_okD(2) [OF assms(1)] by (simp add: nodes_ok_def)
  then have "cluster_ok (K\<lparr>c_net := c_net K, reports := rs, drops := ds, pending := ps, in_flight := fl, acked := acked K\<rparr>)"
    using writes_okD(3-5) [OF cluster_okD(4) [OF assms(1)]] assms(2-5)
    by (intro net_step [OF assms(1)]) (auto simp: writes_def)
  then show ?thesis by simp
qed

lemma weather_ok:
  assumes ok: "cluster_ok K" and ids: "\<And>a. map_option server_id (nodes N a) = map_option server_id (nodes (c_net K) a)"
    and st: "stored N = stored (c_net K)" "stores_ok (c_net K) \<Longrightarrow> stores_ok N"
  shows "cluster_ok (K\<lparr>c_net := N\<rparr>)"
proof -
  have "stores_ok (c_net K)" using cluster_okD(2) [OF ok] by (simp add: nodes_ok_def)
  then have "cluster_ok (K\<lparr>c_net := N, reports := reports K, drops := drops K, pending := pending K, in_flight := in_flight K,
    acked := acked K\<rparr>)"
    using writes_okD(3-5) [OF cluster_okD(4) [OF ok]] st by (intro net_step [OF ok]) (auto simp: ids writes_def)
  then show ?thesis by simp
qed

lemma abort_effect:
  "map_option server_id (nodes (abort_server a N) b) = map_option server_id (nodes N b)"
  "stored (abort_server a N) = stored N" "stores_ok N \<Longrightarrow> stores_ok (abort_server a N)"
  by (auto simp: abort_server_def on_node_def stored_def stores_ok_def fun_eq_iff split: option.splits if_splits)

lemma cluster_step_ok:
  assumes ok: "cluster_ok K" and st: "cluster_step K L"
  shows "cluster_ok L"
  using st
proof (cases rule: cluster_step.cases)
  case (join a now m N)
  show ?thesis unfolding join(1) by (rule join_ok [OF ok join(2-4)])
next
  case (put p bytes cs r m)
  show ?thesis unfolding put(1) by (rule put_ok [OF ok put(2-4)])
next
  case (arrive cid rs payload)
  show ?thesis unfolding arrive(1) by (rule arrive_ok [OF ok arrive(2-4)])
next
  case (relay cid rs payload b)
  show ?thesis unfolding relay(1) by (rule relay_ok [OF ok relay(2-5)])
next
  case (confirm cid rs g)
  show ?thesis unfolding confirm(1) by (rule confirm_ok [OF ok confirm(2,3)])
next
  case (delete p u m)
  note q = delete_quiet [OF delete(2), of u]
  have m: "master_ok (c_ids K, m)" using delete_ok [OF cluster_okD(1) [OF ok], of p] delete(2) by simp
  show ?thesis
    unfolding delete(1) using q by (intro quiet_step [OF ok _ m]) auto
next
  case (timeout now)
  have "cluster_ok (K\<lparr>c_master := detect_timeouts now (c_master K), file_data := file_data K\<rparr>)"
    by (rule quiet_step [OF ok detect_quiet detect_ok [OF cluster_okD(1) [OF ok]]]) simp
  then show ?thesis unfolding timeout(1) by simp
next
  case (report a s)
  show ?thesis unfolding report(1) by (rule report_ok [OF ok report(2)])
next
  case (reconcile a sid held now d m)
  show ?thesis unfolding reconcile(1) by (rule heartbeat_step_ok [OF ok reconcile(2,3)])
next
  case (drop a d)
  show ?thesis unfolding drop(1) by (rule drop_ok [OF ok drop(2)])
next
  case (lose rs ds ps fl)
  show ?thesis unfolding lose(1) by (rule lose_ok [OF ok lose(2-5)])
next
  case (abort a)
  show ?thesis unfolding abort by (rule weather_ok [OF ok abort_effect])
next
  case (weather fs)
  show ?thesis
    unfolding weather by (rule weather_ok [OF ok]) (simp_all add: stored_def fun_eq_iff stores_ok_def)
qed

lemma cluster_start_ok: "cluster_start K \<Longrightarrow> cluster_ok K"
  using master_ok_new
  by (simp add: cluster_start_def cluster_ok_def nodes_ok_def stores_ok_def data_ok_def writes_ok_def writes_def flight_ok_def
      stored_def master_new_def)

interpretation cluster: invariant_system cluster_start cluster_step cluster_ok
  by unfold_locales (auto intro: cluster_start_ok cluster_step_ok)

lemmas cluster_reach_ok = cluster.reach_inv

end
