(* ===== verification/Gfs_Clients.thy ===== *)
theory Gfs_Clients
  imports Gfs_Files
begin

text \<open>
  What the clients of the file system can rely on, whatever the servers, the network and the other clients do:
  a file read is the file written, a successful \<^verbatim>\<open>put\<close> leaves every chunk on both its servers, a readable
  replica of each chunk is enough for \<^verbatim>\<open>get\<close>, and the space of a deleted file is reclaimed by heartbeats.
\<close>

section \<open>Reading\<close>

lemma lookup_chunks_ids: "lookup_chunks m cids = Inr r \<Longrightarrow> map fst r = cids"
  by (induction cids arbitrary: r) (auto split: option.splits list.splits sum.splits)

lemma read_chunk_from_facts:
  assumes "env_ok env" and "read_chunk_from env a cid N = (r, N')"
  shows "nodes N' = nodes N" "r = Inr bs \<Longrightarrow> stored N a cid = Some bs" "faults N = [] \<Longrightarrow> N' = N"
proof -
  obtain x N1 where "exchange (Suc (Suc 0)) env a (Read cid) N = (x, N1)" by fastforce
  note e = this exchange_read [OF assms(1) this]
  have "N' = N1 \<and> (r = Inr bs \<longrightarrow> x = Inr (Data bs))"
    using assms(2) e(1) by (auto simp: read_chunk_from_def numeral_2_eq_2 split: sum.splits data_response.splits)
  then show "nodes N' = nodes N" "r = Inr bs \<Longrightarrow> stored N a cid = Some bs" "faults N = [] \<Longrightarrow> N' = N"
    using e(2-4) by auto
qed

lemma stored_nodes: "nodes N' = nodes N \<Longrightarrow> stored N' = stored N"
  by (simp add: stored_def fun_eq_iff)

lemma read_chunk_full_facts:
  assumes "env_ok env" and "read_chunk_full env cid rs N = (r, N')"
  shows "nodes N' = nodes N" "r = Inr bs \<Longrightarrow> \<exists>a. stored N a cid = Some bs" "faults N = [] \<Longrightarrow> N' = N"
proof -
  obtain x N1 where x: "read_chunk_from env (primary rs) cid N = (x, N1)" by fastforce
  note p = read_chunk_from_facts [OF assms(1) x]
  have "nodes N' = nodes N \<and> (r = Inr bs \<longrightarrow> (\<exists>a. stored N a cid = Some bs)) \<and> (faults N = [] \<longrightarrow> N' = N)"
  proof (cases x)
    case (Inr b)
    then show ?thesis using assms(2) x p by (auto simp: read_chunk_full_def)
  next
    case (Inl e)
    show ?thesis
    proof (cases "secondary rs")
      case None
      then show ?thesis using assms(2) x p Inl by (auto simp: read_chunk_full_def)
    next
      case (Some sec)
      obtain y N2 where y: "read_chunk_from env sec cid N1 = (y, N2)" by fastforce
      note q = read_chunk_from_facts [OF assms(1) y]
      have "N' = N2" "r = Inr bs \<Longrightarrow> y = Inr bs"
        using assms(2) x y Inl Some by (auto simp: read_chunk_full_def split: sum.splits)
      then show ?thesis using p q stored_nodes [OF p(1)] by auto
    qed
  qed
  then show "nodes N' = nodes N" "r = Inr bs \<Longrightarrow> \<exists>a. stored N a cid = Some bs" "faults N = [] \<Longrightarrow> N' = N"
    by simp_all
qed

text \<open>What every server stores is what was written, so that is what a read returns.\<close>

lemma get_chunks_data:
  assumes "env_ok env" and "\<And>a cid bs. stored N a cid = Some bs \<Longrightarrow> C cid = Some bs"
    and "get_chunks env r N = (res, N')"
  shows "nodes N' = nodes N \<and> (\<forall>out. res = Inr out \<longrightarrow> out = concat (map (the \<circ> C) (map fst r)))"
  using assms(2,3)
proof (induction r arbitrary: N res N')
  case (Cons e r)
  obtain cid rs where e: "e = (cid, rs)" by fastforce
  obtain x N1 where x: "read_chunk_full env cid rs N = (x, N1)" by fastforce
  note f = read_chunk_full_facts [OF assms(1) x]
  obtain y N2 where y: "get_chunks env r N1 = (y, N2)" by fastforce
  have "stored N1 = stored N" using f(1) by (rule stored_nodes)
  then have IH: "nodes N2 = nodes N1 \<and> (\<forall>out. y = Inr out \<longrightarrow> out = concat (map (the \<circ> C) (map fst r)))"
    using Cons.prems(1) y by (intro Cons.IH) auto
  have c: "C cid = Some bs" if "x = Inr bs" for bs using f(2) [OF that] Cons.prems(1) by blast
  show ?case
    using Cons.prems(2) e x y IH f(1) c by (cases x; cases y) (auto simp: comp_def)
qed auto

lemma file_chunk_ids: "ids_ok ids m \<Longrightarrow> file_chunk_ok m cid \<Longrightarrow> cid \<in> set ids"
  unfolding file_chunk_ok_def ids_ok_def using domI by fast

lemma lookup_file:
  assumes "cluster_ok K" and "lookup p (c_master K) = Inr r"
  shows "file_data K p = Some (concat (map (the \<circ> content K) (map fst r)))"
proof -
  from assms(2) obtain cids where c: "map_of (files (c_master K)) p = Some cids" "lookup_chunks (c_master K) cids = Inr r"
    by (auto simp: lookup_def split: option.splits)
  then show ?thesis using data_okD(3) [OF cluster_okD(3) [OF assms(1)] c(1)] lookup_chunks_ids [OF c(2)] by simp
qed

text \<open>A successful \<^verbatim>\<open>get\<close> writes exactly the bytes of the last \<^verbatim>\<open>put\<close> of the path that was granted and
  not deleted since, in every state the file system reaches: no failure, crash or loss of a message makes it
  return anything else, and it changes nothing.\<close>

theorem get_integrity:
  assumes "env_ok env" and "reach cluster_start cluster_step K"
    and "w_master w = c_master K" and "nodes (w_net w) = nodes (c_net K)"
    and "cmd_get env rpc saved p w = (Inr (Out_Read out q n), w')"
  shows "file_data K p = Some out \<and> q = p \<and> w_master w' = c_master K \<and> nodes (w_net w') = nodes (c_net K)"
proof -
  note ok = cluster_reach_ok [OF assms(2)]
  from assms(3,5) obtain r N where r: "lookup p (c_master K) = Inr r" "q = p" and
    g: "get_chunks env r (w_net w) = (Inr out, N)" "w' = w\<lparr>w_net := N\<rparr>"
    by (auto simp: cmd_get_def call_master_def split: if_splits sum.splits prod.splits)
  have "stored (w_net w) = stored (c_net K)" using assms(4) by (rule stored_nodes)
  then have "content K cid = Some bs" if "stored (w_net w) a cid = Some bs" for a cid bs
    using that data_okD(2) [OF cluster_okD(3) [OF ok]] by simp
  from get_chunks_data [OF assms(1) this g(1)] lookup_file [OF ok r(1)] assms(3,4) r(2) g(2)
  show ?thesis by simp
qed

text \<open>Reads that overlap other work: before each chunk is read, the file system takes any steps.\<close>

inductive overlapped_get :: "env \<Rightarrow> cluster \<Rightarrow> allocation \<Rightarrow> u8 list \<Rightarrow> bool" for env where
  read_done: "overlapped_get env K [] []"
| read_next: "cluster_step\<^sup>*\<^sup>* K L \<Longrightarrow> read_chunk_full env cid rs (c_net L) = (Inr bytes, N) \<Longrightarrow>
    overlapped_get env (L\<lparr>c_net := N\<rparr>) rest out \<Longrightarrow> overlapped_get env K ((cid, rs) # rest) (bytes @ out)"

lemma step_content:
  assumes "cluster_ok K" and "cluster_step K L"
  shows "content K \<subseteq>\<^sub>m content L"
  using assms(2)
proof (cases rule: cluster_step.cases)
  case (put p bytes cs r m)
  note P = put_facts [OF cluster_okD(1) [OF assms(1)] put(2,4)]
  have "dom (content K) \<inter> dom (map_of (payloads bytes cs r)) = {}"
    using P(4) data_okD(1) [OF cluster_okD(3) [OF assms(1)]] map_of_payloads(1) [of r bytes cs] by auto
  then have "content K ++ map_of (payloads bytes cs r) = map_of (payloads bytes cs r) ++ content K"
    by (rule map_add_comm)
  then show ?thesis unfolding put(1) by simp
qed simp_all

lemma steps_content:
  assumes "cluster_step\<^sup>*\<^sup>* K L" and "cluster_ok K"
  shows "cluster_ok L \<and> content K \<subseteq>\<^sub>m content L"
  using assms(1)
proof (induction rule: rtranclp_induct)
  case base
  then show ?case using assms(2) by simp
next
  case (step L M)
  then show ?case using cluster_step_ok step_content map_le_trans by blast
qed

lemma overlapped_data:
  assumes "env_ok env" and "overlapped_get env K r out" and "cluster_ok K" and "set (map fst r) \<subseteq> dom (content K)"
  shows "out = concat (map (the \<circ> content K) (map fst r))"
  using assms(2-4)
proof (induction rule: overlapped_get.induct)
  case (read_next K L cid rs bytes N rest out)
  let ?L = "L\<lparr>c_net := N\<rparr>"
  note f = read_chunk_full_facts [OF assms(1) read_next.hyps(2)]
  have L: "cluster_ok L" "content K \<subseteq>\<^sub>m content L"
    using steps_content [OF read_next.hyps(1) read_next.prems(1)] by simp_all
  have st: "stored N = stored (c_net L)" using f(1) by (rule stored_nodes)
  have okL: "cluster_ok ?L"
    using f(1) by (intro weather_ok [OF L(1)] st) (simp_all add: stores_ok_def)
  have same: "content L x = content K x" if "x \<in> dom (content K)" for x
    using L(2) that by (simp add: map_le_def)
  have "content L cid = Some bytes" using f(2) data_okD(2) [OF cluster_okD(3) [OF L(1)]] by blast
  then have c: "the (content K cid) = bytes" using same [of cid] read_next.prems(2) by (simp, metis option.sel)
  have sub: "set (map fst rest) \<subseteq> dom (content K)" using read_next.prems(2) by simp
  then have d: "set (map fst rest) \<subseteq> dom (content ?L)" using map_le_implies_dom_le [OF L(2)] by simp
  have same': "map (the \<circ> content ?L) (map fst rest) = map (the \<circ> content K) (map fst rest)"
  proof (rule map_cong [OF refl])
    fix x assume "x \<in> set (map fst rest)"
    then have "x \<in> dom (content K)" using sub by blast
    then show "(the \<circ> content ?L) x = (the \<circ> content K) x" using same by simp
  qed
  have "out = concat (map (the \<circ> content K) (map fst rest))" by (rule read_next.IH [OF okL d, unfolded same'])
  then show ?case using c by (simp add: comp_def)
qed simp

text \<open>C8. A \<^verbatim>\<open>get\<close> that completes while other clients put and delete files, servers join, time out, crash and
  delete chunks, and messages are lost returns the bytes the file had when it was looked up: chunks are never
  overwritten and their identifiers never reused.\<close>

theorem get_atomic:
  assumes "env_ok env" and "reach cluster_start cluster_step K"
    and "lookup p (c_master K) = Inr r" and "overlapped_get env K r out"
  shows "file_data K p = Some out"
proof -
  note ok = cluster_reach_ok [OF assms(2)]
  from assms(3) obtain cids where c: "map_of (files (c_master K)) p = Some cids" "lookup_chunks (c_master K) cids = Inr r"
    by (auto simp: lookup_def split: option.splits)
  note m = master_okD [OF cluster_okD(1) [OF ok]]
  have "\<forall>cid \<in> set cids. file_chunk_ok (c_master K) cid" using m(3) c(1) unfolding files_ok_def by blast
  then have "set (map fst r) \<subseteq> dom (content K)"
    unfolding lookup_chunks_ids [OF c(2)] data_okD(1) [OF cluster_okD(3) [OF ok]] using file_chunk_ids [OF m(2)] by blast
  from overlapped_data [OF assms(1,4) ok this] lookup_file [OF ok assms(3)] show ?thesis by simp
qed

section \<open>Writing\<close>

lemma weather_step:
  assumes "nodes N = nodes (c_net K)" and "K\<lparr>c_net := N\<rparr> = L"
  shows "cluster_step K L"
proof -
  have "(c_net K)\<lparr>faults := faults N\<rparr> = N" using assms(1) by (cases N; cases "c_net K") simp
  then show ?thesis using weather [of K "faults N"] assms(2) by simp
qed

lemma two_steps: "r x y \<Longrightarrow> r y z \<Longrightarrow> r\<^sup>*\<^sup>* x z"
  by (rule converse_rtranclp_into_rtranclp [OF _ r_into_rtranclp])

text \<open>The end of a write that came as far as \<open>g\<close>: it is acknowledged, or the client learns of a failure.\<close>

lemma write_ends:
  assumes "nodes N = nodes N0" and "\<not> isl res \<Longrightarrow> g = At_Both \<or> secondary rs = None"
  shows "cluster_step\<^sup>*\<^sup>* (K\<lparr>c_net := N0, pending := ps, in_flight := ((cid, rs), g) # in_flight K\<rparr>)
    (K\<lparr>c_net := N, pending := ps, acked := (if isl res then acked K else insert cid (acked K))\<rparr>)" (is "cluster_step\<^sup>*\<^sup>* _ ?R")
proof -
  let ?A = "if isl res then acked K else insert cid (acked K)"
  let ?M = "K\<lparr>c_net := N0, pending := ps, in_flight := ((cid, rs), g) # in_flight K\<rparr>"
  let ?L = "K\<lparr>c_net := N0, pending := ps, acked := ?A\<rparr>"
  have "cluster_step ?M ?L"
  proof (cases "isl res")
    case True
    have "cluster_step ?M (?M\<lparr>reports := reports ?M, drops := drops ?M, pending := pending ?M, in_flight := in_flight K\<rparr>)"
      by (rule lose) auto
    then show ?thesis using True by simp
  next
    case False
    have "cluster_step ?M (?M\<lparr>in_flight := remove1 ((cid, rs), g) (in_flight ?M), acked := insert cid (acked ?M)\<rparr>)"
      by (rule confirm) (use assms(2) [OF False] in auto)
    then show ?thesis using False by simp
  qed
  moreover have "cluster_step ?L ?R" by (rule weather_step [OF _ cluster.equality]) (simp_all add: assms(1))
  ultimately show ?thesis by (rule two_steps)
qed

text \<open>A whole write, as the client sees it, is a run of the steps it is made of.\<close>

lemma write_chunk_run:
  assumes "env_ok env" and "write_chunk env cid rs payload (c_net K) = (res, N)"
    and p: "(cid, rs) \<in> set (pending K)" "content K cid = Some payload"
  shows "cluster_step\<^sup>*\<^sup>* K (K\<lparr>c_net := N, pending := remove1 (cid, rs) (pending K),
      acked := (if isl res then acked K else insert cid (acked K))\<rparr>)" (is "cluster_step\<^sup>*\<^sup>* K ?L")
proof -
  let ?ps = "remove1 (cid, rs) (pending K)" and ?store = "\<lambda>a. on_store a (mem_set cid payload)"
  obtain r where r: "exchange (Suc (Suc 0)) env (primary rs) (Write cid (secondary rs) payload) (c_net K) = (r, N)"
    and res: "\<not> isl res \<Longrightarrow> r = Inr Written"
    using assms(2) by (auto simp: write_chunk_def numeral_2_eq_2 split: prod.splits sum.splits data_response.splits)
  have up: "nodes M a \<noteq> None" if "map_option listening (nodes M a) = Some True" for M a using that by auto
  let ?M = "\<lambda>N0 g. K\<lparr>c_net := N0, pending := ?ps, in_flight := ((cid, rs), g) # in_flight K\<rparr>"
  have first: "cluster_step K (?M (?store (primary rs) (c_net K)) At_Primary)"
    if "map_option listening (nodes (c_net K) (primary rs)) = Some True"
    using arrive [OF p up [OF that]] by simp
  from assms(1) r show ?thesis
  proof (cases rule: exchange_write)
    case unsent
    let ?K = "K\<lparr>reports := reports K, drops := drops K, pending := ?ps, in_flight := in_flight K\<rparr>"
    have e: "isl res" using unsent(2) res by (cases res) auto
    have "cluster_step K ?K" by (rule lose) (auto dest: set_remove1_subset [THEN subsetD])
    moreover have "cluster_step ?K ?L"
      by (rule weather_step [OF _ cluster.equality]) (simp_all add: e unsent(1))
    ultimately show ?thesis by (rule two_steps)
  next
    case f: first
    have "cluster_step\<^sup>*\<^sup>* (?M (?store (primary rs) (c_net K)) At_Primary) ?L"
      using f(2,3) res by (intro write_ends) auto
    with first [OF f(1)] show ?thesis by (rule converse_rtranclp_into_rtranclp)
  next
    case (both b)
    let ?N = "?store (primary rs) (c_net K)"
    let ?K = "?M ?N At_Primary"
    have "nodes ?N b \<noteq> None" using on_store_listening [of "primary rs" "mem_set cid payload" "c_net K" b] both(3) by auto
    then have "cluster_step ?K (?K\<lparr>c_net := ?store b (c_net ?K), in_flight := ((cid, rs), At_Both) # remove1 ((cid, rs), At_Primary) (in_flight ?K)\<rparr>)"
      (is "cluster_step _ ?J")
      using p(2) both(1) by (intro relay) simp_all
    moreover have "?J = ?M (?store b ?N) At_Both" by (rule cluster.equality) simp_all
    ultimately have second: "cluster_step ?K (?M (?store b ?N) At_Both)" by (simp only:)
    have "cluster_step\<^sup>*\<^sup>* (?M (?store b ?N) At_Both) ?L"
      using both(4) by (intro write_ends) auto
    with second have "cluster_step\<^sup>*\<^sup>* ?K ?L" by (rule converse_rtranclp_into_rtranclp)
    with first [OF both(2)] show ?thesis by (rule converse_rtranclp_into_rtranclp)
  qed
qed

lemma put_chunks_steps:
  assumes "env_ok env" and "put_chunks env bytes cs i r N = (res, N')" and "c_net K = N"
    and "set r \<subseteq> set (pending K)" and "distinct (map fst r)"
    and "\<And>j. j < length r \<Longrightarrow> content K (fst (r ! j)) = Some (slice bytes cs (i + j))"
  shows "\<exists>L. cluster_step\<^sup>*\<^sup>* K L \<and> c_net L = N' \<and> c_master L = c_master K \<and> file_data L = file_data K \<and>
    content L = content K \<and> (\<not> isl res \<longrightarrow> set (map fst r) \<subseteq> acked L) \<and> acked K \<subseteq> acked L"
  using assms(2-)
proof (induction r arbitrary: i N K)
  case (Cons e r)
  obtain cid rs where e: "e = (cid, rs)" by fastforce
  obtain x N1 where x: "write_chunk env cid rs (slice bytes cs i) N = (x, N1)" by fastforce
  let ?K = "K\<lparr>c_net := N1, pending := remove1 (cid, rs) (pending K),
      acked := (if isl x then acked K else insert cid (acked K))\<rparr>"
  have "content K cid = Some (slice bytes cs i)" using Cons.prems(5) [of 0] e by simp
  then have st: "cluster_step\<^sup>*\<^sup>* K ?K" using Cons.prems(2,3) e x by (intro write_chunk_run [OF assms(1)]) auto
  show ?case
  proof (cases x)
    case (Inl a)
    then have "res = Inl a" "N' = N1" using Cons.prems(1) e x by simp_all
    then show ?thesis using st Inl by (intro exI [of _ ?K]) auto
  next
    case (Inr u)
    then have p: "put_chunks env bytes cs (i + 1) r N1 = (res, N')" using Cons.prems(1) e x by simp
    have "(cid, rs) \<notin> set r" using Cons.prems(4) e by force
    then have "y \<in> set (remove1 (cid, rs) (pending K))" if "y \<in> set r" for y
      using that Cons.prems(3) by (cases "y = (cid, rs)") auto
    then have sub: "set r \<subseteq> set (pending ?K)" by auto
    have "content ?K (fst (r ! j)) = Some (slice bytes cs (i + 1 + j))" if "j < length r" for j
      using Cons.prems(5) [of "Suc j"] that by simp
    then obtain L where "cluster_step\<^sup>*\<^sup>* ?K L" and L: "c_net L = N'" "c_master L = c_master K" "file_data L = file_data K"
        "content L = content K" "\<not> isl res \<longrightarrow> set (map fst r) \<subseteq> acked L" "acked ?K \<subseteq> acked L"
      using Cons.IH [of "i + 1" N1 ?K] p sub Cons.prems(4) by auto
    moreover from this have "cluster_step\<^sup>*\<^sup>* K L" using st by (metis rtranclp_trans)
    ultimately show ?thesis using Inr e by (intro exI [of _ L]) auto
  qed
qed auto

text \<open>The whole command is a run of the file system; on success every chunk of the file is acknowledged.\<close>

text \<open>The cluster just after the master has answered \<open>put\<close>, and the chunk writes that follow.\<close>

abbreviation granted_put where
  "granted_put K m r p bytes cs \<equiv> K\<lparr>c_master := m, c_ids := c_ids K @ map fst r, pending := pending K @ r,
     content := content K ++ map_of (payloads bytes cs r), file_data := (file_data K)(p \<mapsto> bytes)\<rparr>"

lemma granted_put_steps:
  assumes env: "env_ok env" and dist: "distinct (map fst r)" and x: "put_chunks env bytes cs 0 r (c_net K) = (x, N)"
  shows "\<exists>L. cluster_step\<^sup>*\<^sup>* (granted_put K m r p bytes cs) L \<and> c_net L = N \<and> c_master L = m \<and>
    file_data L p = Some bytes \<and> (\<forall>i < length r. content L (map fst r ! i) = Some (slice bytes cs i)) \<and>
    (\<not> isl x \<longrightarrow> set (map fst r) \<subseteq> acked L)"
proof -
  let ?K = "granted_put K m r p bytes cs"
  have cont: "content ?K (fst (r ! j)) = Some (slice bytes cs j)" if "j < length r" for j
  proof -
    have "map_of (payloads bytes cs r) (map fst r ! j) = Some (map (slice bytes cs) [0..<length r] ! j)"
      using that dist unfolding payloads_def by (intro map_of_zip_nth) simp_all
    then show ?thesis using that by simp
  qed
  obtain L where "cluster_step\<^sup>*\<^sup>* ?K L" "c_net L = N" "c_master L = m" "file_data L = file_data ?K"
      "content L = content ?K" "\<not> isl x \<longrightarrow> set (map fst r) \<subseteq> acked L"
    using put_chunks_steps [OF env x _ _ dist, of ?K] cont by auto
  with cont show ?thesis by (intro exI [of _ L]) simp
qed

lemma cmd_put_run:
  assumes env: "env_ok env" and ok: "cluster_ok K" and w: "w_master w = c_master K" "w_net w = c_net K"
    and len: "length bytes < 2 ^ 63" and ids: "length (c_ids K) + chunk_count (of_nat (length bytes)) cs \<le> 2 ^ 64"
    and p: "cmd_put env rpc (Some bytes) p cs w = (res, w')"
  shows "res \<noteq> None \<and> (\<exists>L. cluster_step\<^sup>*\<^sup>* K L \<and> c_master L = w_master w' \<and> c_net L = w_net w' \<and>
    (\<forall>out. res = Some (Inr out) \<longrightarrow> cs \<noteq> 0 \<and> file_data L p = Some bytes \<and>
      (\<exists>cids. out = Out_Wrote p (length bytes) (length cids) \<and> length cids = chunk_count (of_nat (length bytes)) cs \<and>
         map_of (files (c_master L)) p = Some cids \<and> set cids \<subseteq> acked L \<and>
         (\<forall>i < length cids. content L (cids ! i) = Some (slice bytes cs i)))))"
proof -
  let ?n = "chunk_count (of_nat (length bytes)) cs" and ?m = "c_master K"
  have still: ?thesis if "res = Some (Inl e)" "w_master w' = ?m" "w_net w' = c_net K" for e
    using that by (intro conjI exI [of _ K]) auto
  show ?thesis
  proof (cases rule: allocate_cases [of p "of_nat (length bytes)" cs ?m])
    case (rejected e)
    then show ?thesis using p w still by (auto simp: cmd_put_def call_master_def Let_def split: if_splits)
  next
    case overflow
    then show ?thesis using p w still by (auto simp: cmd_put_def call_master_def Let_def split: if_splits)
  next
    case (granted r)
    define m where "m = (allocated (online_server_ids ?m) ?n ?m)\<lparr>files := AList.update p (map fst r) (files ?m)\<rparr>"
    have al: "allocate p (of_nat (length bytes)) cs ?m = (Some (Inr r), m)" using granted(1) by (simp add: m_def)
    have small: "length (c_ids K @ map fst r) \<le> 2 ^ 64" using ids granted(2) by simp
    note P = put_facts [OF cluster_okD(1) [OF ok] al small]
    have st: "cluster_step K (granted_put K m r p bytes cs)" by (rule put [OF al len small])
    show ?thesis
    proof (cases "rpc = Rpc_Done")
      case False
      then have f: "res = Some (Inl Rpc_Failed)" "w_net w' = c_net K" "w_master w' = ?m \<or> w_master w' = m"
        using p w al by (cases rpc; auto simp: cmd_put_def call_master_def Let_def)+
      from f(3) show ?thesis
      proof
        assume "w_master w' = m"
        then show ?thesis using f(1,2) st by (intro conjI exI [of _ "granted_put K m r p bytes cs"]) auto
      qed (use f still in blast)
    next
      case True
      have "?n = (if of_nat (length bytes) = (0 :: u64) then 0 else unat (div_ceil (of_nat (length bytes)) cs))"
        by (simp add: chunk_count_def)
      then obtain x N where x: "put_chunks env bytes cs 0 r (c_net K) = (x, N)" and
        res: "res = Some (case x of Inl e \<Rightarrow> Inl e | Inr _ \<Rightarrow> Inr (Out_Wrote p (length bytes) (length r)))"
          "w_master w' = m" "w_net w' = N"
        using p w al True P(6) by (auto simp: cmd_put_def call_master_def Let_def split: prod.splits sum.splits)
      have "distinct (map fst r)" using P(4) by simp
      from granted_put_steps [OF env this x] obtain L where
        run: "cluster_step\<^sup>*\<^sup>* (granted_put K m r p bytes cs) L" and
        L: "c_net L = N" "c_master L = m" "file_data L p = Some bytes"
          "\<forall>i < length r. content L (map fst r ! i) = Some (slice bytes cs i)" "\<not> isl x \<longrightarrow> set (map fst r) \<subseteq> acked L"
        by blast
      have run': "cluster_step\<^sup>*\<^sup>* K L" using st run by (rule converse_rtranclp_into_rtranclp)
      show ?thesis
      proof (cases x)
        case (Inl e)
        then show ?thesis using res L(1,2) run' by (intro conjI exI [of _ L]) simp_all
      next
        case (Inr u)
        then show ?thesis using res L run' P(3,5,6)
          by (intro conjI exI [of _ L] allI impI exI [of _ "map fst r"]) simp_all
      qed
    qed
  qed
qed

lemma reach_steps: "step\<^sup>*\<^sup>* K L \<Longrightarrow> reach init step K \<Longrightarrow> reach init step L"
  by (induction rule: rtranclp_induct) (auto intro: reach_step)

lemma acked_stored:
  assumes ok: "cluster_ok L" and cid: "cid \<in> acked L" "content L cid = Some bs"
    and f: "map_of (files (c_master L)) p = Some cids" "cid \<in> set cids" and sid: "sid \<in> set (placement (c_master L) cid)"
  shows "stored (c_net L) (address (c_master L) sid) cid = Some bs"
proof -
  have "file_chunk_ok (c_master L) cid"
    using master_okD(3) [OF cluster_okD(1) [OF ok]] f unfolding files_ok_def by blast
  then have "wanted (c_master L) sid cid" using sid by (auto simp: file_chunk_ok_def wanted_def placement_def)
  then have "stored (c_net L) (address (c_master L) sid) cid \<noteq> None"
    by (rule writes_okD(4) [OF cluster_okD(4) [OF ok] cid(1)])
  then show ?thesis using data_okD(2) [OF cluster_okD(3) [OF ok]] cid(2) by fastforce
qed

text \<open>C9. \<^verbatim>\<open>put\<close> in any reachable state, under any failures: its assertion on the number of chunks never
  fires, its effect is a run of the file system's steps, each store of a server being one, and if it reports
  success then the file is there, and every one of its chunks is stored, with its slice of the bytes, on both
  servers the master placed it on.\<close>

theorem put_replicates:
  assumes "env_ok env" and "reach cluster_start cluster_step K" and "w_master w = c_master K" "w_net w = c_net K"
    and "length bytes < 2 ^ 63" and "length (c_ids K) + chunk_count (of_nat (length bytes)) cs \<le> 2 ^ 64"
    and "cmd_put env rpc (Some bytes) p cs w = (res, w')"
  shows "res \<noteq> None \<and>
    (\<exists>L. cluster_step\<^sup>*\<^sup>* K L \<and> c_master L = w_master w' \<and> c_net L = w_net w' \<and>
       (\<forall>out. res = Some (Inr out) \<longrightarrow> file_data L p = Some bytes)) \<and>
    (\<forall>out. res = Some (Inr out) \<longrightarrow>
       (\<exists>cids. out = Out_Wrote p (length bytes) (length cids) \<and> map_of (files (w_master w')) p = Some cids \<and>
          (\<forall>i < length cids. \<forall>sid \<in> set (placement (w_master w') (cids ! i)).
             stored (w_net w') (address (w_master w') sid) (cids ! i) =
               Some (take (unat cs) (drop (i * unat cs) bytes)))))"
proof -
  note ok = cluster_reach_ok [OF assms(2)]
  from cmd_put_run [OF assms(1) ok assms(3-7)] obtain L where res: "res \<noteq> None" and
    run: "cluster_step\<^sup>*\<^sup>* K L" and L: "c_master L = w_master w'" "c_net L = w_net w'" and
    good: "\<forall>out. res = Some (Inr out) \<longrightarrow> cs \<noteq> 0 \<and> file_data L p = Some bytes \<and>
      (\<exists>cids. out = Out_Wrote p (length bytes) (length cids) \<and> length cids = chunk_count (of_nat (length bytes)) cs \<and>
         map_of (files (c_master L)) p = Some cids \<and> set cids \<subseteq> acked L \<and>
         (\<forall>i < length cids. content L (cids ! i) = Some (slice bytes cs i)))" by (elim exE conjE) (rule that)
  have okL: "cluster_ok L" by (rule cluster_reach_ok [OF reach_steps [OF run assms(2)]])
  have "\<exists>cids. out = Out_Wrote p (length bytes) (length cids) \<and> map_of (files (w_master w')) p = Some cids \<and>
      (\<forall>i < length cids. \<forall>sid \<in> set (placement (w_master w') (cids ! i)).
         stored (w_net w') (address (w_master w') sid) (cids ! i) = Some (take (unat cs) (drop (i * unat cs) bytes)))"
    if "res = Some (Inr out)" for out
  proof -
    from good that obtain cids where c: "cs \<noteq> 0" "out = Out_Wrote p (length bytes) (length cids)"
      "length cids = chunk_count (of_nat (length bytes)) cs" "map_of (files (c_master L)) p = Some cids" "set cids \<subseteq> acked L"
      "\<forall>i < length cids. content L (cids ! i) = Some (slice bytes cs i)" by blast
    have "stored (w_net w') (address (w_master w') sid) (cids ! i) = Some (take (unat cs) (drop (i * unat cs) bytes))"
      if i: "i < length cids" "sid \<in> set (placement (w_master w') (cids ! i))" for i sid
    proof -
      have m: "cids ! i \<in> set cids" using i(1) by simp
      then have a: "cids ! i \<in> acked L" using c(5) by blast
      have s: "sid \<in> set (placement (c_master L) (cids ! i))" using i(2) unfolding L .
      have "stored (w_net w') (address (w_master w') sid) (cids ! i) = Some (slice bytes cs i)"
        using acked_stored [OF okL a c(6) [rule_format, OF i(1)] c(4) m s] unfolding L .
      then show ?thesis using slice_eq [OF c(1) assms(5)] i(1) c(3) by simp
    qed
    then show ?thesis using c(2,4) unfolding L(1) by blast
  qed
  then show ?thesis using res run L good by blast
qed


section \<open>Availability\<close>

lemma read_chunk_from_works:
  assumes "env_ok env" and "faults N = []" and "map_option listening (nodes N a) = Some True" and "stored N a cid = Some bs"
    and "frameable (request_wire env) (Read cid)" and "frameable (response_wire env) (Data bs)"
  shows "read_chunk_from env a cid N = (Inr bs, N)"
  using exchange_read_works [OF assms, of 1] by (simp add: read_chunk_from_def numeral_2_eq_2)

lemma read_chunk_full_works:
  assumes env: "env_ok env" and calm: "faults N = []"
    and a: "a = primary rs \<or> secondary rs = Some a" "map_option listening (nodes N a) = Some True" "stored N a cid = Some bs"
    and frames: "frameable (request_wire env) (Read cid)" "frameable (response_wire env) (Data bs)"
    and unique: "\<And>b ys. stored N b cid = Some ys \<Longrightarrow> ys = bs"
  shows "read_chunk_full env cid rs N = (Inr bs, N)"
proof -
  note works = read_chunk_from_works [OF env calm a(2,3) frames]
  obtain x N1 where x: "read_chunk_from env (primary rs) cid N = (x, N1)" by fastforce
  note f = read_chunk_from_facts [OF env x]
  show ?thesis
  proof (cases x)
    case (Inr ys)
    then show ?thesis using x f(3) [OF calm] unique [OF f(2) [OF Inr]] by (simp add: read_chunk_full_def)
  next
    case (Inl e)
    then have "a \<noteq> primary rs" using works x by auto
    then have "secondary rs = Some a" using a(1) by simp
    then show ?thesis using works x Inl f(3) [OF calm] by (simp add: read_chunk_full_def)
  qed
qed

lemma get_works:
  assumes "env_ok env" and ok: "cluster_ok K" and "w_master w = c_master K" "w_net w = c_net K"
    and "faults (c_net K) = []" and "lookup p (c_master K) = Inr r"
    and replica: "\<And>cid rs. (cid, rs) \<in> set r \<Longrightarrow> \<exists>a. (a = primary rs \<or> secondary rs = Some a) \<and>
      map_option listening (nodes (c_net K) a) = Some True \<and> stored (c_net K) a cid \<noteq> None"
    and frames: "\<And>cid rs bs. (cid, rs) \<in> set r \<Longrightarrow> content K cid = Some bs \<Longrightarrow>
      frameable (request_wire env) (Read cid) \<and> frameable (response_wire env) (Data bs)"
  shows "\<exists>out. file_data K p = Some out \<and> cmd_get env Rpc_Done True p w = (Inr (Out_Read out p (length r)), w)"
proof -
  let ?N = "c_net K"
  have one: "\<exists>bs. content K cid = Some bs \<and> read_chunk_full env cid rs ?N = (Inr bs, ?N)" if cr: "(cid, rs) \<in> set r" for cid rs
  proof -
    note c = data_okD(2) [OF cluster_okD(3) [OF ok]]
    from replica [OF cr] obtain a bs where a: "a = primary rs \<or> secondary rs = Some a"
      "map_option listening (nodes ?N a) = Some True" "stored ?N a cid = Some bs" by auto
    note b = c [OF a(3)]
    have "ys = bs" if "stored ?N x cid = Some ys" for x ys using c [OF that] b by simp
    then have "read_chunk_full env cid rs ?N = (Inr bs, ?N)"
      using frames [OF cr b] by (intro read_chunk_full_works [OF assms(1,5) a]) auto
    then show ?thesis using b by blast
  qed
  have "get_chunks env q ?N = (Inr (concat (map (the \<circ> content K) (map fst q))), ?N)" if "set q \<subseteq> set r" for q
    using that
  proof (induction q)
    case (Cons e q)
    obtain cid rs where e: "e = (cid, rs)" by fastforce
    with Cons.prems one [of cid rs] obtain bs where "content K cid = Some bs" "read_chunk_full env cid rs ?N = (Inr bs, ?N)" by auto
    then show ?case using Cons e by simp
  qed simp
  from this [of r] have "get_chunks env r ?N = (Inr (concat (map (the \<circ> content K) (map fst r))), ?N)" by simp
  then show ?thesis
    using assms(3,4,6) lookup_file [OF ok assms(6)] by (simp add: cmd_get_def call_master_def)
qed

section \<open>Surviving failures\<close>

text \<open>The address of a server that is online is in the replica set the lookup answers.\<close>

lemma surviving_online:
  assumes "sid \<in> {s, t}" and "is_online m sid"
  shows "address m sid = primary (surviving m s t) \<or> secondary (surviving m s t) = Some (address m sid)"
  using assms by (auto simp: surviving_def)

lemma acked_readable:
  assumes env: "env_ok env" and ok: "cluster_ok K" and w: "w_master w = c_master K" "w_net w = c_net K" and calm: "faults (c_net K) = []"
    and f: "map_of (files (c_master K)) p = Some cids" and acked: "set cids \<subseteq> acked K"
    and up: "\<And>cid. cid \<in> set cids \<Longrightarrow> \<exists>sid \<in> set (placement (c_master K) cid). is_online (c_master K) sid \<and>
      map_option listening (nodes (c_net K) (address (c_master K) sid)) = Some True"
    and frames: "\<And>cid bs. cid \<in> set cids \<Longrightarrow> content K cid = Some bs \<Longrightarrow>
      frameable (request_wire env) (Read cid) \<and> frameable (response_wire env) (Data bs)"
  shows "\<exists>out. file_data K p = Some out \<and> cmd_get env Rpc_Done True p w = (Inr (Out_Read out p (length cids)), w)"
proof -
  let ?m = "c_master K"
  let ?r = "map (\<lambda>cid. (cid, surviving ?m (placement ?m cid ! 0) (placement ?m cid ! 1))) cids"
  have fc: "file_chunk_ok ?m cid" if "cid \<in> set cids" for cid
    using master_okD(3) [OF cluster_okD(1) [OF ok]] f that unfolding files_ok_def by blast
  have l: "lookup p ?m = Inr ?r" using lookup_eq [OF cluster_okD(1) [OF ok] f] up by auto
  have rep: "\<exists>a. (a = primary rs \<or> secondary rs = Some a) \<and> map_option listening (nodes (c_net K) a) = Some True \<and>
      stored (c_net K) a cid \<noteq> None" if "(cid, rs) \<in> set ?r" for cid rs
  proof -
    from that have c: "cid \<in> set cids" and rs: "rs = surviving ?m (placement ?m cid ! 0) (placement ?m cid ! 1)" by auto
    from up [OF c] obtain sid where sid: "sid \<in> set (placement ?m cid)" "is_online ?m sid"
      "map_option listening (nodes (c_net K) (address ?m sid)) = Some True" by blast
    from pair_of_placement [OF fc [OF c]] sid(1) have "sid \<in> {placement ?m cid ! 0, placement ?m cid ! 1}" by auto
    from surviving_online [OF this sid(2)] have a: "address ?m sid = primary rs \<or> secondary rs = Some (address ?m sid)"
      unfolding rs .
    have "cid \<in> acked K" using acked c by blast
    moreover from this have "cid \<in> dom (content K)"
      using writes_okD(3) [OF cluster_okD(4) [OF ok]] data_okD(1) [OF cluster_okD(3) [OF ok]] by auto
    ultimately have "stored (c_net K) (address ?m sid) cid \<noteq> None" using acked_stored [OF ok _ _ f c sid(1)] by auto
    then show ?thesis using a sid(3) by blast
  qed
  have fr: "frameable (request_wire env) (Read cid) \<and> frameable (response_wire env) (Data bs)"
    if "(cid, rs) \<in> set ?r" "content K cid = Some bs" for cid rs bs
    using that frames by auto
  from get_works [OF env ok w calm l rep fr] show ?thesis by simp
qed

lemma steps_acked: "cluster_step\<^sup>*\<^sup>* K L \<Longrightarrow> acked K \<subseteq> acked L"
proof (induction rule: rtranclp_induct)
  case (step L M)
  from step(2) have "acked L \<subseteq> acked M" by (cases rule: cluster_step.cases) auto
  then show ?case using step(3) by blast
qed simp

text \<open>C18. Files survive failures: once \<^verbatim>\<open>put\<close> has reported success, and whatever happens then, as long as the
  path still names the chunks of that \<^verbatim>\<open>put\<close> and one of the two servers of each chunk is up and known to be
  online, \<^verbatim>\<open>get\<close> gives the bytes back, all of them and nothing else.  The network is calm during the \<^verbatim>\<open>get\<close>, and
  messages longer than a frame may be are excluded.\<close>

theorem put_survives:
  assumes "env_ok env" and "reach cluster_start cluster_step K" and "w_master w = c_master K" "w_net w = c_net K"
    and "length bytes < 2 ^ 63" and "length (c_ids K) + chunk_count (of_nat (length bytes)) cs \<le> 2 ^ 64"
    and "cmd_put env rpc (Some bytes) p cs w = (Some (Inr out), w')"
    and "\<And>cid. frameable (request_wire env) (Read cid)"
    and "\<And>bs. length bs \<le> unat cs \<Longrightarrow> frameable (response_wire env) (Data bs)"
  shows "\<exists>L cids. cluster_step\<^sup>*\<^sup>* K L \<and> c_master L = w_master w' \<and> c_net L = w_net w' \<and>
    map_of (files (c_master L)) p = Some cids \<and>
    (\<forall>M v. cluster_step\<^sup>*\<^sup>* L M \<and> w_master v = c_master M \<and> w_net v = c_net M \<and> faults (c_net M) = [] \<and>
       map_of (files (c_master M)) p = Some cids \<and>
       (\<forall>cid \<in> set cids. \<exists>sid \<in> set (placement (c_master M) cid). is_online (c_master M) sid \<and>
          map_option listening (nodes (c_net M) (address (c_master M) sid)) = Some True) \<longrightarrow>
       cmd_get env Rpc_Done True p v = (Inr (Out_Read bytes p (length cids)), v))"
proof -
  note ok = cluster_reach_ok [OF assms(2)]
  from cmd_put_run [OF assms(1) ok assms(3-7)] obtain L cids where L: "cluster_step\<^sup>*\<^sup>* K L" "c_master L = w_master w'"
    "c_net L = w_net w'" and cs: "cs \<noteq> 0" and n: "length cids = chunk_count (of_nat (length bytes)) cs"
    and f: "map_of (files (c_master L)) p = Some cids" and a: "set cids \<subseteq> acked L"
    and c: "\<forall>i < length cids. content L (cids ! i) = Some (slice bytes cs i)" by blast
  have "cmd_get env Rpc_Done True p v = (Inr (Out_Read bytes p (length cids)), v)"
    if M: "cluster_step\<^sup>*\<^sup>* L M" "w_master v = c_master M" "w_net v = c_net M" "faults (c_net M) = []"
      "map_of (files (c_master M)) p = Some cids"
      and up: "\<forall>cid \<in> set cids. \<exists>sid \<in> set (placement (c_master M) cid). is_online (c_master M) sid \<and>
        map_option listening (nodes (c_net M) (address (c_master M) sid)) = Some True" for M v
  proof -
    have "cluster_ok L" by (rule cluster_reach_ok [OF reach_steps [OF L(1) assms(2)]])
    from steps_content [OF M(1) this] have okM: "cluster_ok M" and sub: "content L \<subseteq>\<^sub>m content M" by simp_all
    have cM: "content M (cids ! i) = Some (slice bytes cs i)" if "i < length cids" for i
      using c that sub by (auto simp: map_le_def dom_def)
    then have "map (the \<circ> content M) cids = map (slice bytes cs) [0..<length cids]"
      by (intro nth_equalityI) simp_all
    then have d: "file_data M p = Some bytes"
      using data_okD(3) [OF cluster_okD(3) [OF okM] M(5)] concat_slices [OF cs assms(5)] n by simp
    have fr: "frameable (request_wire env) (Read cid) \<and> frameable (response_wire env) (Data bs)"
      if "cid \<in> set cids" "content M cid = Some bs" for cid bs
    proof -
      from that(1) obtain i where i: "i < length cids" "cids ! i = cid" by (auto simp: in_set_conv_nth)
      then have "bs = slice bytes cs i" using cM [OF i(1)] that(2) by simp
      then have "length bs \<le> unat cs" using slice_eq [OF cs assms(5)] i(1) n by simp
      then show ?thesis using assms(8,9) by blast
    qed
    have "set cids \<subseteq> acked M" using a steps_acked [OF M(1)] by blast
    from acked_readable [OF assms(1) okM M(2-5) this] up fr
    have "\<exists>out. file_data M p = Some out \<and> cmd_get env Rpc_Done True p v = (Inr (Out_Read out p (length cids)), v)"
      by blast
    then show ?thesis unfolding d by blast
  qed
  then show ?thesis using L f by blast
qed

section \<open>Garbage collection\<close>

text \<open>The chunk is forgotten or waits only for the servers in \<open>S\<close>.\<close>

definition awaits :: "master \<Rightarrow> server_id set \<Rightarrow> chunk_id \<Rightarrow> bool" where
  "awaits m S cid \<longleftrightarrow> (\<forall>info. map_of (chunks m) cid = Some info \<longrightarrow> deleted info \<and> set (replicas info) \<subseteq> S)"

lemma reconciled_replicas:
  "reconciled sid held cid info = Some i \<Longrightarrow> deleted i = deleted info \<and> set (replicas i) \<subseteq> set (replicas info) \<and>
     (deleted info \<longrightarrow> cid \<notin> set held \<longrightarrow> sid \<notin> set (replicas i))"
  by (auto simp: reconciled_def dropped_def without_replica_def split: if_splits)

lemma heartbeat_awaits:
  assumes "maps_ok m" and "awaits m S cid"
  shows "awaits (snd (heartbeat now sid held m)) S cid"
    "cid \<notin> set held \<Longrightarrow> awaits (snd (heartbeat now sid held m)) (S - {sid}) cid"
proof -
  have d: "distinct (map fst (chunks m))" and c: "chunks (touch_server now sid m) = chunks m"
    using assms(1) by (auto simp: touch_server_def maps_ok_def split: option.split)
  have "map_of (chunks (snd (heartbeat now sid held m))) cid = Option.bind (map_of (chunks m) cid) (reconciled sid held cid)"
    by (simp add: heartbeat_def Let_def c map_of_reconcile [OF d])
  then show "awaits (snd (heartbeat now sid held m)) S cid"
    "cid \<notin> set held \<Longrightarrow> awaits (snd (heartbeat now sid held m)) (S - {sid}) cid"
    using assms(2) reconciled_replicas [of sid held cid] by (fastforce simp: awaits_def bind_eq_Some_conv)+
qed

lemma turn_awaits:
  assumes "heartbeat_turn now Rpc_Done a (m, N) = (m', N')" and "nodes N a = Some s" "beating s"
    and "maps_ok m" "stores_ok N" "awaits m S cid"
  shows "map_option node_id (nodes N' b) = map_option node_id (nodes N b)" "stores_ok N'" "awaits m' S cid"
    "stored N a cid = None \<Longrightarrow> awaits m' (S - {server_id s}) cid" "stored N' a cid = None"
    "stored N b cid = None \<Longrightarrow> stored N' b cid = None" "m' = snd (heartbeat now (server_id s) (chunks_held s) m)"
proof -
  let ?sid = "server_id s" and ?held = "chunks_held s"
  let ?d = "filter (\<lambda>c. \<not> wanted m ?sid c) ?held"
  have e: "m' = snd (heartbeat now ?sid ?held m)" "N' = apply_drops a ?d N"
    using assms(1-3) heartbeat_drops [of now ?sid ?held m] by (auto simp: heartbeat_turn_def split: prod.splits)
  note held = chunks_held_stored [OF assms(5,2)]
  note ef = apply_drops_effect [OF assms(5), of a ?d]
  have nw: "\<not> wanted m ?sid cid" using assms(6) by (auto simp: awaits_def wanted_def split: option.splits)
  show "map_option node_id (nodes N' b) = map_option node_id (nodes N b)"
    unfolding e(2) by (simp add: apply_drops_def on_store_def on_node_def node_id_def split: option.split)
  show "stores_ok N'" unfolding e(2) by (rule ef(1))
  show "awaits m' S cid" unfolding e(1) by (rule heartbeat_awaits(1) [OF assms(4,6)])
  show "awaits m' (S - {server_id s}) cid" if "stored N a cid = None"
    unfolding e(1) using that held by (intro heartbeat_awaits(2) [OF assms(4,6)]) auto
  show "stored N' a cid = None" unfolding e(2) ef(3) using nw held by auto
  show "stored N b cid = None \<Longrightarrow> stored N' b cid = None" unfolding e(2) ef(3) by simp
  show "m' = snd (heartbeat now ?sid ?held m)" by (rule e(1))
qed

lemma turns_awaits:
  assumes "master_ok (ids, m)" "stores_ok N" "awaits m S cid" and "\<And>a. a \<in> snd ` set ts \<Longrightarrow> \<exists>s. nodes N a = Some s \<and> beating s"
    and "fold (\<lambda>(now, a). heartbeat_turn now Rpc_Done a) ts (m, N) = (m', N')"
  shows "master_ok (ids, m') \<and> stores_ok N' \<and> (\<forall>b. map_option node_id (nodes N' b) = map_option node_id (nodes N b)) \<and>
    (\<forall>b. stored N b cid = None \<or> b \<in> snd ` set ts \<longrightarrow> stored N' b cid = None) \<and> awaits m' S cid \<and>
    ((\<forall>a \<in> snd ` set ts. stored N a cid = None) \<longrightarrow>
       awaits m' (S - {sid. \<exists>a \<in> snd ` set ts. map_option server_id (nodes N a) = Some sid}) cid)"
  using assms
proof (induction ts arbitrary: m N S)
  case (Cons t ts)
  obtain now a where t: "t = (now, a)" by fastforce
  obtain m1 N1 where h: "heartbeat_turn now Rpc_Done a (m, N) = (m1, N1)" by fastforce
  from Cons.prems(4) [of a] t obtain s where s: "nodes N a = Some s" "beating s" by auto
  note T = turn_awaits [OF h s master_okD(1) [OF Cons.prems(1)] Cons.prems(2,3)]
  have rest: "fold (\<lambda>(now, a). heartbeat_turn now Rpc_Done a) ts (m1, N1) = (m', N')" using Cons.prems(5) t h by simp
  have m1: "master_ok (ids, m1)" unfolding T(7) by (rule heartbeat_ok [OF Cons.prems(1)])
  have same: "(\<exists>s. nodes N1 b = Some s \<and> beating s) \<longleftrightarrow> (\<exists>s. nodes N b = Some s \<and> beating s)"
    "map_option server_id (nodes N1 b) = map_option server_id (nodes N b)" for b
    using T(1) [of b] by (cases "nodes N1 b"; cases "nodes N b"; auto simp: node_id_def)+
  have up: "\<exists>s. nodes N1 b = Some s \<and> beating s" if "b \<in> snd ` set ts" for b
    using Cons.prems(4) [of b] that same(1) by simp
  note IH = Cons.IH [OF m1 T(2) _ up rest]
  have "awaits m' (S - {sid. \<exists>b \<in> snd ` set (t # ts). map_option server_id (nodes N b) = Some sid}) cid"
    if none: "\<forall>b \<in> snd ` set (t # ts). stored N b cid = None"
  proof -
    have "awaits m1 (S - {server_id s}) cid" using none t by (intro T(4)) simp
    moreover have "\<forall>b \<in> snd ` set ts. stored N1 b cid = None" using none T(6) by simp
    ultimately have "awaits m' (S - {server_id s} - {sid. \<exists>b \<in> snd ` set ts. map_option server_id (nodes N1 b) = Some sid}) cid"
      using IH by blast
    moreover have "S - {server_id s} - {sid. \<exists>b \<in> snd ` set ts. map_option server_id (nodes N1 b) = Some sid} =
        S - {sid. \<exists>b \<in> snd ` set (t # ts). map_option server_id (nodes N b) = Some sid}"
      using s(1) t by (auto simp: same(2))
    ultimately show ?thesis by simp
  qed
  then show ?case using IH [OF T(3)] T(1,5,6) t by auto
qed auto

lemmas turns_ok = turns_awaits [THEN conjunct1]
lemmas turns_stores = turns_awaits [THEN conjunct2, THEN conjunct1]
lemmas turns_nodes = turns_awaits [THEN conjunct2, THEN conjunct2, THEN conjunct1, rule_format]
lemmas turns_empty = turns_awaits [THEN conjunct2, THEN conjunct2, THEN conjunct2, THEN conjunct1, rule_format]
lemmas turns_waits = turns_awaits [THEN conjunct2, THEN conjunct2, THEN conjunct2, THEN conjunct2, THEN conjunct1]
lemmas turns_gone = turns_awaits [THEN conjunct2, THEN conjunct2, THEN conjunct2, THEN conjunct2, THEN conjunct2, THEN mp]

text \<open>C19. Space is reclaimed lazily but certainly: after a file is deleted, once every server that was to hold
  a chunk of it has completed two heartbeats, the first to be told to drop it and the second to report it
  gone, no such server stores the chunk and the master has forgotten it.\<close>

theorem gc_converges:
  assumes "reach cluster_start cluster_step K"
    and "map_of (files (c_master K)) p = Some cids" and "cid \<in> set cids"
    and "\<And>a. a \<in> snd ` set xs \<Longrightarrow> \<exists>s. nodes (c_net K) a = Some s \<and> beating s" and "snd ` set ys = snd ` set xs"
    and "\<And>sid. sid \<in> set (placement (c_master K) cid) \<Longrightarrow> address (c_master K) sid \<in> snd ` set xs"
    and "fold (\<lambda>(now, a). heartbeat_turn now Rpc_Done a) (xs @ ys) (snd (delete_path p (c_master K)), c_net K) = (m', N')"
  shows "map_of (chunks m') cid = None \<and> (\<forall>sid \<in> set (placement (c_master K) cid). stored N' (address (c_master K) sid) cid = None)"
proof -
  note ok = cluster_reach_ok [OF assms(1)]
  let ?m = "c_master K" and ?d = "snd (delete_path p (c_master K))" and ?N = "c_net K"
  have d: "chunks ?d = fold mark_deleted cids (chunks ?m)" using assms(2) by (simp add: delete_path_def)
  obtain m1 N1 where one: "fold (\<lambda>(now, a). heartbeat_turn now Rpc_Done a) xs (?d, ?N) = (m1, N1)" by fastforce
  then have two: "fold (\<lambda>(now, a). heartbeat_turn now Rpc_Done a) ys (m1, N1) = (m', N')" using assms(7) by simp
  have aw: "awaits ?d (set (placement ?m cid)) cid"
    using assms(3) by (auto simp: awaits_def d map_of_marks_deleted placement_def)
  have st: "stores_ok ?N" using cluster_okD(2) [OF ok] by (simp add: nodes_ok_def)
  note A = delete_ok [OF cluster_okD(1) [OF ok]] st aw assms(4) one
  have same: "map_option node_id (nodes N1 b) = map_option node_id (nodes ?N b)" for b by (rule turns_nodes [OF A])
  have up: "\<exists>s. nodes N1 a = Some s \<and> beating s" if "a \<in> snd ` set ys" for a
  proof -
    from that obtain s where "nodes ?N a = Some s" "beating s" using assms(4) [of a] unfolding assms(5) by blast
    then show ?thesis using same [of a] by (cases "nodes N1 a") (auto simp: node_id_def)
  qed
  have clean: "\<forall>a \<in> snd ` set ys. stored N1 a cid = None"
    unfolding assms(5) by (intro ballI turns_empty [OF A] disjI2)
  note B = turns_ok [OF A] turns_stores [OF A] turns_waits [OF A] up two
  have "set (placement ?m cid) \<subseteq> {sid. \<exists>a \<in> snd ` set ys. map_option server_id (nodes N1 a) = Some sid}"
  proof
    fix sid assume sid: "sid \<in> set (placement ?m cid)"
    have "file_chunk_ok ?m cid" using master_okD(3) [OF cluster_okD(1) [OF ok]] assms(2,3) unfolding files_ok_def by blast
    then have "wanted ?m sid cid" using sid by (auto simp: file_chunk_ok_def wanted_def placement_def)
    from wanted_node [OF ok this] same [of "address ?m sid"]
    have "map_option server_id (nodes N1 (address ?m sid)) = Some sid"
      by (cases "nodes N1 (address ?m sid)") (auto simp: node_id_def)
    moreover have "address ?m sid \<in> snd ` set ys" using assms(6) [OF sid] assms(5) by simp
    ultimately show "sid \<in> {sid. \<exists>a \<in> snd ` set ys. map_option server_id (nodes N1 a) = Some sid}" by blast
  qed
  then have "set (placement ?m cid) - {sid. \<exists>a \<in> snd ` set ys. map_option server_id (nodes N1 a) = Some sid} = {}" by blast
  then have aw': "awaits m' {} cid" using turns_gone [OF B clean] by (simp only:)
  have "master_ok (c_ids K, m')" by (rule turns_ok [OF B])
  then have "chunks_ok m'" by (rule master_okD(4))
  with aw' have "map_of (chunks m') cid = None"
    by (cases "map_of (chunks m') cid") (auto simp: awaits_def chunks_ok_def)
  moreover have "stored N' (address ?m sid) cid = None" if "sid \<in> set (placement ?m cid)" for sid
  proof -
    have "address ?m sid \<in> snd ` set ys" using assms(6) [OF that] assms(5) by simp
    then show ?thesis by (intro turns_empty [OF B] disjI2)
  qed
  ultimately show ?thesis by blast
qed

end
