(* ===== verification/Gfs_Main.thy ===== *)
theory Gfs_Main
  imports Gfs_Parse Gfs_Clients
begin

text \<open>
  The loop of the client, \<^verbatim>\<open>main\<close> in \<^verbatim>\<open>gfs/src/main.rs\<close>: lines are read and run until the input ends or is
  interrupted or a command quits, and then everything is shut down.
\<close>

section \<open>The loop\<close>

datatype input = Line string | Interrupt | End_Input | Input_Error

datatype shown = Show_Help | Show_Bad_Line parse_error | Show_Failure cli_error | Show_Result cli_output

text \<open>\<open>None\<close> is a panic.  With the inputs used up, standard input is at its end.\<close>

fun gfs_main :: "env \<Rightarrow> (input \<times> outside) list \<Rightarrow> world \<Rightarrow> (shown list \<times> world) option" where
  "gfs_main env [] w = Some ([], shutdown w)"
| "gfs_main env ((i, x) # ins) w =
     (case i of
        Line line \<Rightarrow>
          (case parse_line line of
             Inl e \<Rightarrow> map_option (map_prod ((#) (Show_Bad_Line e)) id) (gfs_main env ins w)
           | Inr Cmd_Empty \<Rightarrow> gfs_main env ins w
           | Inr Cmd_Quit \<Rightarrow> Some ([], shutdown w)
           | Inr Cmd_Help \<Rightarrow> map_option (map_prod ((#) Show_Help) id) (gfs_main env ins w)
           | Inr c \<Rightarrow>
               (case dispatch env x c w of
                  (None, w') \<Rightarrow> None
                | (Some (Inl e), w') \<Rightarrow> map_option (map_prod ((#) (Show_Failure e)) id) (gfs_main env ins w')
                | (Some (Inr out), w') \<Rightarrow> map_option (map_prod ((#) (Show_Result out)) id) (gfs_main env ins w')))
      | _ \<Rightarrow> Some ([], shutdown w))"

section \<open>What the commands leave running\<close>

text \<open>Every server that still accepts connections or sends heartbeats is one the prompt knows as alive.\<close>

definition tracked :: "world \<Rightarrow> bool" where
  "tracked w \<longleftrightarrow>
     (\<forall>a s. nodes (w_net w) a = Some s \<longrightarrow> listening s \<or> beating s \<longrightarrow>
        (\<exists>c \<in> set (chunk_ctxs (prompt w)). alive c \<and> ctx_addr c = a))"

lemma tracked_same:
  assumes "tracked w" and "prompt w' = (prompt w)\<lparr>master_of := r\<rparr>"
    and "\<And>a. map_option node_id (nodes (w_net w') a) = map_option node_id (nodes (w_net w) a)"
  shows "tracked w'"
  unfolding tracked_def
proof (intro allI impI)
  fix a s assume s: "nodes (w_net w') a = Some s" "listening s \<or> beating s"
  with assms(3) [of a] obtain t where "nodes (w_net w) a = Some t" "listening t \<or> beating t"
    by (cases "nodes (w_net w) a") (auto simp: node_id_def)
  with assms(1,2) show "\<exists>c \<in> set (chunk_ctxs (prompt w')). alive c \<and> ctx_addr c = a" by (auto simp: tracked_def)
qed

lemma prompt_same: "(prompt w)\<lparr>master_of := master_of (prompt w)\<rparr> = prompt w"
  by simp

lemma put_chunks_nodes:
  assumes "env_ok env" and "put_chunks env bytes cs i r N = (res, N')"
  shows "map_option node_id (nodes N' a) = map_option node_id (nodes N a)"
  using assms(2)
proof (induction r arbitrary: i N)
  case (Cons e r)
  obtain cid rs where e: "e = (cid, rs)" by fastforce
  obtain x N1 where x: "write_chunk env cid rs (slice bytes cs i) N = (x, N1)" by fastforce
  have "map_option node_id (nodes N1 a) = map_option node_id (nodes N a)"
    using write_chunk_grows [OF assms(1) x] by (simp add: grows_def)
  then show ?case using Cons e x by (auto split: sum.splits)
qed simp

lemma get_chunks_nodes: "env_ok env \<Longrightarrow> get_chunks env r N = (res, N') \<Longrightarrow> nodes N' = nodes N"
proof (induction r arbitrary: N res N')
  case (Cons e r)
  obtain cid rs where e: "e = (cid, rs)" by fastforce
  obtain x N1 where x: "read_chunk_full env cid rs N = (x, N1)" by fastforce
  obtain y N2 where y: "get_chunks env r N1 = (y, N2)" by fastforce
  have "nodes N1 = nodes N" by (rule read_chunk_full_facts(1) [OF Cons.prems(1) x])
  moreover have "nodes N2 = nodes N1" by (rule Cons.IH [OF Cons.prems(1) y])
  ultimately show ?case using Cons.prems(2) e x y by (auto split: sum.splits)
qed simp

text \<open>The assertion of \<^verbatim>\<open>put\<close> holds whatever the state of the master is.\<close>

lemma cmd_put_tracked:
  assumes "env_ok env" and "tracked w" and "cmd_put env rpc local p cs w = (res, w')"
  shows "res \<noteq> None \<and> tracked w'"
proof (cases local)
  case None
  then show ?thesis using assms by (auto simp: cmd_put_def)
next
  case (Some bytes)
  let ?len = "of_nat (length bytes) :: u64"
  obtain x m where m: "call_master rpc (allocate p ?len cs) (w_master w) = (x, m)" by fastforce
  have n: "length r = chunk_count ?len cs" if "x = Inr (Inr r)" for r
    using m that by (cases rule: allocate_cases [of p ?len cs "w_master w"])
      (auto simp: call_master_def split: if_splits)
  have "(w_net w' = w_net w \<or> (\<exists>r x N. put_chunks env bytes cs 0 r (w_net w) = (x, N) \<and> w_net w' = N)) \<and> prompt w' = prompt w \<and>
      res \<noteq> None"
    using assms(3) m n Some by (auto simp: cmd_put_def chunk_count_def Let_def split: sum.splits prod.splits if_splits)
  then have "\<And>a. map_option node_id (nodes (w_net w') a) = map_option node_id (nodes (w_net w) a)" "prompt w' = prompt w" "res \<noteq> None"
    using put_chunks_nodes [OF assms(1)] by auto
  then show ?thesis using tracked_same [OF assms(2), of w' "master_of (prompt w)"] by simp
qed

lemma cmd_get_tracked:
  assumes "env_ok env" and "tracked w" and "cmd_get env rpc saved p w = (res, w')"
  shows "tracked w'"
proof -
  have "(w_net w' = w_net w \<or> (\<exists>r x N. get_chunks env r (w_net w) = (x, N) \<and> w_net w' = N)) \<and> prompt w' = prompt w"
    using assms(3) by (auto simp: cmd_get_def split: sum.splits prod.splits if_splits)
  then have "nodes (w_net w') = nodes (w_net w)" "prompt w' = prompt w" using get_chunks_nodes [OF assms(1)] by auto
  then show ?thesis using assms(2) by (simp add: tracked_def)
qed

lemma cmd_kill_tracked:
  assumes "tracked w" and "cmd_kill i w = (res, w')"
  shows "tracked w'"
proof (cases "unat i < length (chunk_ctxs (prompt w)) \<and> alive (chunk_ctxs (prompt w) ! unat i)")
  case True
  let ?cs = "chunk_ctxs (prompt w)" and ?k = "unat i"
  have w': "chunk_ctxs (prompt w') = ?cs[?k := (?cs ! ?k)\<lparr>alive := False\<rparr>]" "w_net w' = abort_server (ctx_addr (?cs ! ?k)) (w_net w)"
    using True assms(2) by (auto simp: cmd_kill_def Let_def)
  show ?thesis
    unfolding tracked_def
  proof (intro allI impI)
    fix a s assume s: "nodes (w_net w') a = Some s" "listening s \<or> beating s"
    then have "a \<noteq> ctx_addr (?cs ! ?k)" "nodes (w_net w) a = Some s"
      unfolding w' by (auto simp: abort_server_def on_node_def split: option.splits if_splits)
    with s(2) assms(1) obtain c where c: "c \<in> set ?cs" "alive c" "ctx_addr c = a" "c \<noteq> ?cs ! ?k"
      unfolding tracked_def by blast
    then obtain j where "j < length ?cs" "?cs ! j = c" "j \<noteq> ?k" by (metis in_set_conv_nth)
    then have "c \<in> set (chunk_ctxs (prompt w'))" unfolding w'(1)
      by (metis in_set_conv_nth length_list_update nth_list_update_neq)
    then show "\<exists>c \<in> set (chunk_ctxs (prompt w')). alive c \<and> ctx_addr c = a" using c by blast
  qed
next
  case False
  then have "w' = w" using assms(2) by (auto simp: cmd_kill_def Let_def split: if_splits)
  then show ?thesis using assms(1) by simp
qed

lemma cmd_chunk_tracked:
  assumes "tracked w" and "cmd_chunk now rpc bound w = (res, w')"
  shows "tracked w'"
  using assms
  by (auto simp: tracked_def cmd_chunk_def chunk_register_def spawn_server_def on_node_def
      split: option.splits prod.splits if_splits)

lemma dispatch_tracked:
  assumes "env_ok env" and "tracked w" and "dispatch env x c w = (res, w')" and "c \<notin> {Cmd_Empty, Cmd_Quit, Cmd_Help}"
  shows "res \<noteq> None \<and> tracked w'"
proof (cases c)
  case (Cmd_Put local remote n)
  then show ?thesis using assms cmd_put_tracked [OF assms(1,2)] by (auto split: sum.splits)
next
  case (Cmd_Get remote local)
  then show ?thesis
    using assms(2,3) cmd_get_tracked [OF assms(1,2) prod.collapse [symmetric]] by (auto split: sum.splits simp: map_prod_def split_beta)
next
  case (Cmd_Kill i)
  then show ?thesis using assms(3) cmd_kill_tracked [OF assms(2) prod.collapse [symmetric]] by (auto simp: map_prod_def split_beta)
next
  case (Cmd_Chunk p)
  then show ?thesis using assms(3) cmd_chunk_tracked [OF assms(2) prod.collapse [symmetric]] by (auto simp: map_prod_def split_beta)
next
  case (Cmd_Master p q)
  then show ?thesis using assms(2,3) by (auto simp: cmd_master_def tracked_def split: option.splits)
next
  case (Cmd_Delete remote)
  then show ?thesis using assms(2,3)
    by (auto simp: cmd_delete_def tracked_def map_prod_def split: option.splits sum.splits prod.splits)
qed (use assms in auto)

section \<open>Shutting down\<close>

lemma fold_abort:
  "nodes (fold (\<lambda>c N. if alive c then abort_server (ctx_addr c) N else N) cs N) a =
     (if \<exists>c \<in> set cs. alive c \<and> ctx_addr c = a
      then map_option (\<lambda>s. s\<lparr>listening := False, beating := False\<rparr>) (nodes N a) else nodes N a)"
  by (induction cs arbitrary: N) (auto simp: abort_server_def on_node_def option.map_comp o_def split: option.splits)

lemma shutdown_tracked:
  assumes "tracked w" and "nodes (w_net (shutdown w)) a = Some s"
  shows "\<not> listening s \<and> \<not> beating s"
  using assms by (auto simp: fold_abort tracked_def split: if_splits)


end
