(* ===== verification/Gfs_Roundtrip.thy ===== *)
theory Gfs_Roundtrip
  imports Gfs_Main
begin

text \<open>
  \<^verbatim>\<open>put\<close> followed by \<^verbatim>\<open>get\<close> with the network calm, and the concrete file system on which the properties of
  the clients are exercised: a serialiser for both message types, two chunk servers and one file.
\<close>

section \<open>Putting a file\<close>

lemma write_chunk_works:
  assumes "env_ok env" and "faults N = []" and "map_option listening (nodes N (primary rs)) = Some True"
    and "secondary rs = Some b" "map_option listening (nodes N b) = Some True"
    and "\<And>ft. frameable (request_wire env) (Write cid ft payload)" and "frameable (response_wire env) Written"
  shows "\<exists>N'. write_chunk env cid rs payload N = (Inr (), N') \<and> faults N' = [] \<and>
    (\<forall>a. map_option node_id (nodes N' a) = map_option node_id (nodes N a))"
  using exchange_write_works [OF assms(1-3,5) assms(6,6,7), of 0] assms(2,4)
  by (simp add: write_chunk_def numeral_2_eq_2 on_store_node)

lemma node_listening:
  "map_option node_id x = map_option node_id y \<Longrightarrow> map_option listening x = map_option listening y"
  by (cases x; cases y) (auto simp: node_id_def)

lemma put_chunks_works:
  assumes "env_ok env" and "faults N = []"
    and "\<And>cid rs. (cid, rs) \<in> set r \<Longrightarrow> map_option listening (nodes N (primary rs)) = Some True \<and>
      (\<exists>b. secondary rs = Some b \<and> map_option listening (nodes N b) = Some True)"
    and "\<And>cid ft j. j < i + length r \<Longrightarrow> frameable (request_wire env) (Write cid ft (slice bytes cs j))"
    and "frameable (response_wire env) Written"
  shows "\<exists>N'. put_chunks env bytes cs i r N = (Inr (), N') \<and> faults N' = [] \<and>
    (\<forall>a. map_option node_id (nodes N' a) = map_option node_id (nodes N a))"
  using assms(2-4)
proof (induction r arbitrary: i N)
  case (Cons e r)
  obtain cid rs where e: "e = (cid, rs)" by fastforce
  then obtain b where b: "map_option listening (nodes N (primary rs)) = Some True" "secondary rs = Some b"
    "map_option listening (nodes N b) = Some True" using Cons.prems(2) [of cid rs] by auto
  have "frameable (request_wire env) (Write cid ft (slice bytes cs i))" for ft using Cons.prems(3) [of i] by simp
  from write_chunk_works [OF assms(1) Cons.prems(1) b this assms(5)] obtain N1 where
    N1: "write_chunk env cid rs (slice bytes cs i) N = (Inr (), N1)" "faults N1 = []"
    "\<And>a. map_option node_id (nodes N1 a) = map_option node_id (nodes N a)" by blast
  note same = node_listening [OF N1(3)]
  have "\<exists>N'. put_chunks env bytes cs (i + 1) r N1 = (Inr (), N') \<and> faults N' = [] \<and>
      (\<forall>a. map_option node_id (nodes N' a) = map_option node_id (nodes N1 a))"
  proof (rule Cons.IH [OF N1(2)])
    show "map_option listening (nodes N1 (primary rs')) = Some True \<and>
        (\<exists>b. secondary rs' = Some b \<and> map_option listening (nodes N1 b) = Some True)" if "(c, rs') \<in> set r" for c rs'
      unfolding same using Cons.prems(2) [of c rs'] that by simp
    show "frameable (request_wire env) (Write c ft (slice bytes cs j))" if "j < i + 1 + length r" for c ft j
      using Cons.prems(3) [of j] that by simp
  qed
  then show ?case using e N1 by simp
qed simp

text \<open>A granted allocation: its chunks are on online servers, and looking the path up gives it back.\<close>

lemma allocate_grants:
  assumes ok: "master_ok (ids, m)" and new: "map_of (files m) p = None" and cs: "cs \<noteq> 0" and two: "2 \<le> length (online_server_ids m)"
    and few: "chunk_count len cs * 72 < 2 ^ 63"
  shows "\<exists>r m'. allocate p len cs m = (Some (Inr r), m') \<and> lookup p m' = Inr r \<and>
    (\<forall>cid rs. (cid, rs) \<in> set r \<longrightarrow> (\<exists>s t. is_online m s \<and> is_online m t \<and>
       rs = \<lparr> primary = address m s, secondary = Some (address m t) \<rparr>))"
proof (cases rule: allocate_cases [of p len cs m])
  case (rejected e)
  then show ?thesis
    using new cs two by (auto simp: allocate_def Let_def REPLICATION_FACTOR_def split: if_splits option.splits prod.splits)
next
  case overflow
  then show ?thesis using few by (simp add: capacity_overflow_def)
next
  case (granted r)
  let ?on = "online_server_ids m"
  define m' where "m' = (allocated ?on (length r) m)\<lparr>files := AList.update p (map fst r) (files m)\<rparr>"
  have al: "allocate p len cs m = (Some (Inr r), m')" using granted(1,2) by (simp add: m'_def)
  have "length r < 2 ^ 60" using granted(2,7) by simp
  note gl = granted_lookup(2) [OF master_okD(1) [OF ok] this granted(5,6) m'_def]
  have "\<exists>s t. is_online m s \<and> is_online m t \<and> rs = \<lparr> primary = address m s, secondary = Some (address m t) \<rparr>"
    if "(cid, rs) \<in> set r" for cid rs
  proof -
    from that obtain i where i: "i < length r" "r ! i = (cid, rs)" by (auto simp: in_set_conv_nth)
    from granted(6) [rule_format, OF i(1)] i(2) obtain a b where
      ab: "rs = \<lparr> primary = a, secondary = Some b \<rparr>" "addrs_of m (placed ?on (rr_cursor m) i) = Some [a, b]" by auto
    obtain s t where st: "placed ?on (rr_cursor m) i = [s, t]" by (simp add: placed_def)
    have "?on \<noteq> []" using granted(5) by auto
    then have "set (placed ?on (rr_cursor m) i) \<subseteq> set ?on" by (auto simp: placed_def)
    then have "is_online m s \<and> is_online m t" using st master_okD(1) [OF ok]
      by (auto simp: online_server_ids_def is_online_def maps_ok_def)
    then show ?thesis using ab st addrs_of_SomeD [of m s t a b] by auto
  qed
  then show ?thesis using al gl by blast
qed

text \<open>\<open>L\<close> and \<open>w'\<close> are the file system after a successful \<^verbatim>\<open>put\<close> in \<open>K\<close> and \<open>w\<close>, and \<open>r\<close> is its allocation.\<close>

definition after_put ::
    "env \<Rightarrow> u8 list \<Rightarrow> string \<Rightarrow> u64 \<Rightarrow> world \<Rightarrow> cluster \<Rightarrow> cluster \<Rightarrow> allocation \<Rightarrow> world \<Rightarrow> bool" where
  "after_put env bytes p cs w K L r w' \<longleftrightarrow>
    cmd_put env Rpc_Done (Some bytes) p cs w = (Some (Inr (Out_Wrote p (length bytes) (length r))), w') \<and>
    cmd_get env Rpc_Done True p w' = (Inr (Out_Read bytes p (length r)), w') \<and> reach cluster_start cluster_step L \<and>
    w_master w' = c_master L \<and> w_net w' = c_net L \<and> faults (c_net L) = [] \<and> lookup p (c_master L) = Inr r \<and>
    length r = chunk_count (of_nat (length bytes)) cs \<and> map_of (files (c_master L)) p = Some (map fst r) \<and>
    set (map fst r) \<subseteq> acked L \<and>
    (\<forall>i < length r. content L (fst (r ! i)) = Some (slice bytes cs i)) \<and>
    (\<forall>a. map_option node_id (nodes (c_net L) a) = map_option node_id (nodes (c_net K) a)) \<and>
    (\<forall>cid rs. (cid, rs) \<in> set r \<longrightarrow> map_option listening (nodes (c_net L) (primary rs)) = Some True \<and>
       stored (c_net L) (primary rs) cid \<noteq> None)"

lemma after_putD:
  assumes "after_put env bytes p cs w K L r w'"
  shows "cmd_put env Rpc_Done (Some bytes) p cs w = (Some (Inr (Out_Wrote p (length bytes) (length r))), w')"
    "cmd_get env Rpc_Done True p w' = (Inr (Out_Read bytes p (length r)), w')" "reach cluster_start cluster_step L"
    "w_master w' = c_master L" "w_net w' = c_net L" "faults (c_net L) = []" "lookup p (c_master L) = Inr r"
    "length r = chunk_count (of_nat (length bytes)) cs" "map_of (files (c_master L)) p = Some (map fst r)"
    "set (map fst r) \<subseteq> acked L" "i < length r \<Longrightarrow> content L (fst (r ! i)) = Some (slice bytes cs i)"
    "map_option node_id (nodes (c_net L) a) = map_option node_id (nodes (c_net K) a)"
    "(cid, rs) \<in> set r \<Longrightarrow> map_option listening (nodes (c_net L) (primary rs)) = Some True \<and>
       stored (c_net L) (primary rs) cid \<noteq> None"
  using assms unfolding after_put_def by blast+

text \<open>After an acknowledged write the first replica the grant named has the chunk's bytes.\<close>

lemma granted_stored:
  assumes ok: "master_ok (ids, m)" and al: "allocate p len cs m = (Some (Inr r), m')"
    and small: "length (ids @ map fst r) \<le> 2 ^ 64" and cr: "(cid, rs) \<in> set r"
    and L: "cluster_ok L" "c_master L = m'" "map_of (files m') q = Some cids" "cid \<in> set cids" "set cids \<subseteq> acked L"
      "content L cid = Some bs"
  shows "stored (c_net L) (primary rs) cid = Some bs"
proof -
  note P = put_facts [OF ok al small]
  have "file_chunk_ok (c_master L) cid"
    using master_okD(3) [OF cluster_okD(1) [OF L(1)]] L(3,4) unfolding files_ok_def L(2) by blast
  then obtain info s t where info: "map_of (chunks m') cid = Some info" "replicas info = [s, t]" "placement m' cid = [s, t]"
    using pair_of_placement [of "c_master L" cid] unfolding L(2) by blast
  have "primary rs = address m s" using P(8) [OF cr info(1)] info(2) by auto
  then have a: "primary rs = address (c_master L) s" by (simp add: address_def P(2) L(2))
  show ?thesis unfolding a
    using L(4,5) info(3) by (intro acked_stored [OF L(1) _ L(6) L(3) [folded L(2)] L(4)]) (auto simp: L(2))
qed

lemma put_run:
  assumes "env_ok env" and "reach cluster_start cluster_step K" and "w_master w = c_master K" "w_net w = c_net K"
    and "faults (c_net K) = []" and "map_of (files (c_master K)) p = None" and "cs \<noteq> 0"
    and "2 \<le> length (online_server_ids (c_master K))"
    and "\<And>sid. is_online (c_master K) sid \<Longrightarrow>
      map_option listening (nodes (c_net K) (address (c_master K) sid)) = Some True"
    and "length bytes < 2 ^ 63" and "chunk_count (of_nat (length bytes)) cs * 72 < 2 ^ 63"
    and "length (c_ids K) + chunk_count (of_nat (length bytes)) cs \<le> 2 ^ 64"
    and "\<And>cid ft bs. length bs \<le> unat cs \<Longrightarrow>
      frameable (request_wire env) (Write cid ft bs) \<and> frameable (response_wire env) (Data bs)"
    and "\<And>cid. frameable (request_wire env) (Read cid)" and "frameable (response_wire env) Written"
  shows "\<exists>L r w'. after_put env bytes p cs w K L r w'"
proof -
  note ok = cluster_reach_ok [OF assms(2)]
  let ?m = "c_master K" and ?n = "chunk_count (of_nat (length bytes)) cs"
  from allocate_grants [OF cluster_okD(1) [OF ok] assms(6-8,11)] obtain r m where
    al: "allocate p (of_nat (length bytes)) cs ?m = (Some (Inr r), m)" "lookup p m = Inr r" and
    pair: "\<And>cid rs. (cid, rs) \<in> set r \<Longrightarrow> \<exists>s t. is_online ?m s \<and> is_online ?m t \<and>
       rs = \<lparr> primary = address ?m s, secondary = Some (address ?m t) \<rparr>" by blast
  have n: "length r = ?n" using al(1) by (cases rule: allocate_cases [of p "of_nat (length bytes)" cs ?m]) auto
  have up: "map_option listening (nodes (c_net K) (primary rs)) = Some True \<and>
      (\<exists>b. secondary rs = Some b \<and> map_option listening (nodes (c_net K) b) = Some True)" if "(cid, rs) \<in> set r" for cid rs
    using pair [OF that] assms(9) by auto
  have short: "length (slice bytes cs j) \<le> unat cs" if "j < length r" for j
    using slice_eq [OF assms(7,10)] that n by simp
  have "\<exists>N. put_chunks env bytes cs 0 r (c_net K) = (Inr (), N) \<and> faults N = [] \<and>
      (\<forall>a. map_option node_id (nodes N a) = map_option node_id (nodes (c_net K) a))"
    using up short assms(13,15) by (intro put_chunks_works [OF assms(1,5)]) auto
  then obtain N where N: "put_chunks env bytes cs 0 r (c_net K) = (Inr (), N)" "faults N = []"
    "\<And>a. map_option node_id (nodes N a) = map_option node_id (nodes (c_net K) a)" by blast
  let ?w = "w\<lparr>w_master := m, w_net := N\<rparr>"
  have put: "cmd_put env Rpc_Done (Some bytes) p cs w = (Some (Inr (Out_Wrote p (length bytes) (length r))), ?w)"
    using assms(3,4) al(1) n N(1) by (simp add: cmd_put_def call_master_def Let_def chunk_count_def split: if_splits)
  from cmd_put_run [OF assms(1) ok assms(3,4,10,12) put] obtain L cids where
    L: "cluster_step\<^sup>*\<^sup>* K L" "c_master L = m" "c_net L = N" "file_data L p = Some bytes" and
    c: "map_of (files m) p = Some cids" "set cids \<subseteq> acked L" "\<And>i. i < length cids \<Longrightarrow> content L (cids ! i) = Some (slice bytes cs i)"
      "length cids = ?n"
    by auto
  have okL: "cluster_ok L" by (rule cluster_reach_ok [OF reach_steps [OF L(1) assms(2)]])
  have ids: "map fst r = cids" using al(2) c(1) lookup_chunks_ids [of m cids r] by (simp add: lookup_def)
  have held: "map_option listening (nodes N (primary rs)) = Some True \<and> stored N (primary rs) cid \<noteq> None \<and>
      (\<forall>bs. content L cid = Some bs \<longrightarrow> frameable (response_wire env) (Data bs))" if cr: "(cid, rs) \<in> set r" for cid rs
  proof -
    have m: "cid \<in> set cids" using cr unfolding ids [symmetric] by force
    then obtain i where i: "i < length cids" "cid = cids ! i" by (auto simp: in_set_conv_nth)
    have con: "content L cid = Some (slice bytes cs i)" using c(3) [OF i(1)] i(2) by simp
    have small: "length (c_ids K @ map fst r) \<le> 2 ^ 64" using assms(12) n by simp
    have "stored (c_net L) (primary rs) cid = Some (slice bytes cs i)"
      using cluster_okD(1) [OF ok] al(1) small cr okL L(2) c(1) m c(2) con by (rule granted_stored)
    moreover have "map_option listening (nodes N (primary rs)) = Some True"
      using up [OF cr] node_listening [OF N(3)] by simp
    ultimately show ?thesis using L(3) con short [of i] assms(13) i(1) c(4) n by simp
  qed
  have "\<exists>out. file_data L p = Some out \<and> cmd_get env Rpc_Done True p ?w = (Inr (Out_Read out p (length r)), ?w)"
    using L N(2) al(2) held assms(14) by (intro get_works [OF assms(1) okL]) auto
  then have get: "cmd_get env Rpc_Done True p ?w = (Inr (Out_Read bytes p (length r)), ?w)" using L(4) by auto
  have con: "content L (fst (r ! i)) = Some (slice bytes cs i)" if "i < length r" for i
    using c(3) [of i] that unfolding ids [symmetric] by simp
  show ?thesis
    unfolding after_put_def
    using put get reach_steps [OF L(1) assms(2)] L(2,3) N(2,3) al(2) n c(1,2) ids held con
    by (intro exI [of _ L] exI [of _ r] exI [of _ ?w] conjI) auto
qed

text \<open>C5. \<^verbatim>\<open>put\<close> and then \<^verbatim>\<open>get\<close>, from any state the file system reaches: if the path is new, the chunk size
  positive, two servers online, the online servers accept connections, the network is calm and no frame is
  over 64 MiB, then both succeed and \<^verbatim>\<open>get\<close> writes the bytes that were put, the empty file and sizes that are no
  multiple of the chunk size included.\<close>

theorem put_get:
  assumes "env_ok env" and "reach cluster_start cluster_step K" and "w_master w = c_master K" "w_net w = c_net K"
    and "faults (c_net K) = []" and "map_of (files (c_master K)) p = None" and "cs \<noteq> 0"
    and "2 \<le> length (online_server_ids (c_master K))"
    and "\<And>sid. is_online (c_master K) sid \<Longrightarrow>
      map_option listening (nodes (c_net K) (address (c_master K) sid)) = Some True"
    and "length bytes < 2 ^ 63" and "chunk_count (of_nat (length bytes)) cs * 72 < 2 ^ 63"
    and "length (c_ids K) + chunk_count (of_nat (length bytes)) cs \<le> 2 ^ 64"
    and "\<And>cid ft bs. length bs \<le> unat cs \<Longrightarrow>
      frameable (request_wire env) (Write cid ft bs) \<and> frameable (response_wire env) (Data bs)"
    and "\<And>cid. frameable (request_wire env) (Read cid)" and "frameable (response_wire env) Written"
  shows "\<exists>w' n. cmd_put env Rpc_Done (Some bytes) p cs w = (Some (Inr (Out_Wrote p (length bytes) n)), w') \<and>
    cmd_get env Rpc_Done True p w' = (Inr (Out_Read bytes p n), w')"
proof -
  have "\<exists>L r w'. after_put env bytes p cs w K L r w'" by (rule put_run) (fact assms)+
  then show ?thesis by (elim exE) (blast dest: after_putD(1,2))
qed

section \<open>A serialiser\<close>

definition bits :: "'a::len word \<Rightarrow> u8 list" where
  "bits w = map (\<lambda>i. if bit w i then 1 else 0) [0..<LENGTH('a)]"

definition unbits :: "u8 list \<Rightarrow> 'a::len word" where
  "unbits bs = horner_sum of_bool 2 (map (\<lambda>b. b = 1) bs)"

lemma length_bits [simp]: "length (bits (w :: 'a::len word)) = LENGTH('a)"
  by (simp add: bits_def)

lemma unbits_bits [simp]: "unbits (bits (w :: 'a::len word)) = w"
proof -
  have "map (\<lambda>b. b = 1) (bits w) = map (bit w) [0..<LENGTH('a)]" by (simp add: bits_def)
  then show ?thesis by (simp add: unbits_def horner_sum_bit_eq_take_bit)
qed

fun addr_bytes :: "socket_addr option \<Rightarrow> u8 list" where
  "addr_bytes None = 0 # replicate 144 0"
| "addr_bytes (Some (V4 a p)) = 1 # bits a @ bits p @ replicate 96 0"
| "addr_bytes (Some (V6 a p)) = 2 # bits a @ bits p"

definition bytes_addr :: "u8 list \<Rightarrow> socket_addr option" where
  "bytes_addr bs =
     (if hd bs = 0 then None
      else if hd bs = 1 then Some (V4 (unbits (take 32 (tl bs))) (unbits (take 16 (drop 32 (tl bs)))))
      else Some (V6 (unbits (take 128 (tl bs))) (unbits (take 16 (drop 128 (tl bs))))))"

lemma addr_roundtrip [simp]: "length (addr_bytes a) = 145" "bytes_addr (addr_bytes a) = a"
  by (cases a rule: addr_bytes.cases; simp add: bytes_addr_def)+

fun request_bytes :: "data_request \<Rightarrow> u8 list" where
  "request_bytes (Write cid ft bs) = 0 # bits cid @ addr_bytes ft @ bs"
| "request_bytes (Read cid) = 1 # bits cid"
| "request_bytes (Read_Range cid a n) = 2 # bits cid @ bits a @ bits n"

definition bytes_request :: "u8 list \<Rightarrow> data_request" where
  "bytes_request bs =
     (let cid = unbits (take 64 (tl bs)); rest = drop 64 (tl bs) in
      if hd bs = 0 then Write cid (bytes_addr (take 145 rest)) (drop 145 rest)
      else if hd bs = 1 then Read cid
      else Read_Range cid (unbits (take 64 rest)) (unbits (drop 64 rest)))"

fun response_bytes :: "data_response \<Rightarrow> u8 list" where
  "response_bytes Written = [0]"
| "response_bytes (Data bs) = 1 # bs"
| "response_bytes Data_Not_Found = [2]"
| "response_bytes (Data_Error msg) = 3 # map (\<lambda>c. of_nat (of_char c)) msg"

definition bytes_response :: "u8 list \<Rightarrow> data_response" where
  "bytes_response bs =
     (if hd bs = 0 then Written else if hd bs = 1 then Data (tl bs) else if hd bs = 2 then Data_Not_Found
      else Data_Error (map (\<lambda>b. char_of (unat b)) (tl bs)))"

definition demo_env :: env where
  "demo_env = \<lparr> request_wire = \<lparr> to_bytes = (\<lambda>m. Some (request_bytes m)), of_bytes = (\<lambda>bs. Some (bytes_request bs)) \<rparr>,
     response_wire = \<lparr> to_bytes = (\<lambda>m. Some (response_bytes m)), of_bytes = (\<lambda>bs. Some (bytes_response bs)) \<rparr>,
     error_text = (\<lambda>_ _. ''unreachable'') \<rparr>"

lemma bytes_char: "char_of (unat (of_nat (of_char c) :: u8)) = c"
proof -
  have "(of_char c :: nat) < 2 ^ 8" using nat_of_char_less_256 by simp
  then have "unat (of_nat (of_char c) :: u8) = of_char c" by (intro unat_of_nat_small) simp
  then show ?thesis by simp
qed

lemma demo_env_ok: "env_ok demo_env"
proof -
  have "bytes_request (request_bytes m) = m" for m by (cases m) (simp_all add: bytes_request_def)
  moreover have "bytes_response (response_bytes m) = m" for m
    by (cases m) (simp_all add: bytes_response_def bytes_char comp_def)
  ultimately show ?thesis by (simp add: env_ok_def wire_ok_def demo_env_def)
qed

lemma demo_frames:
  "length bs \<le> 1000 \<Longrightarrow> frameable (request_wire demo_env) (Write cid ft bs)"
  "length bs \<le> 1000 \<Longrightarrow> frameable (response_wire demo_env) (Data bs)"
  "frameable (request_wire demo_env) (Read cid)" "frameable (response_wire demo_env) Written"
  by (simp_all add: frameable_def demo_env_def MAX_FRAME_LEN_def)

section \<open>Two chunk servers\<close>

definition demo_node :: "server_id \<Rightarrow> socket_addr \<Rightarrow> chunk_server" where
  "demo_node sid a =
     \<lparr> server_id = sid, data_addr = a, chunk_store = mem_open empty_path, listening = True, beating = True \<rparr>"

definition demo_net :: net where
  "demo_net = \<lparr> nodes = [V4 1 10 \<mapsto> demo_node 0 (V4 1 10), V4 1 20 \<mapsto> demo_node 1 (V4 1 20)], faults = [] \<rparr>"

definition demo_cluster :: cluster where
  "demo_cluster = \<lparr> c_master = demo_master, c_ids = [], c_net = demo_net,
     reports = [], drops = [], pending = [], in_flight = [], content = Map.empty, acked = {}, file_data = Map.empty \<rparr>"

lemma demo_cluster_reach: "reach cluster_start cluster_step demo_cluster"
proof -
  define K0 where "K0 = \<lparr> c_master = master_new, c_ids = [], c_net = \<lparr> nodes = Map.empty, faults = [] \<rparr>,
     reports = [], drops = [], pending = [], in_flight = [], content = Map.empty, acked = {}, file_data = Map.empty \<rparr>"
  let ?m1 = "snd (register 5 (V4 1 10) master_new)"
  let ?K1 = "K0\<lparr>c_master := ?m1, c_net := \<lparr> nodes = [V4 1 10 \<mapsto> demo_node 0 (V4 1 10)], faults = [] \<rparr>\<rparr>"
  have "reach cluster_start cluster_step K0" by (rule reach_start) (simp add: K0_def cluster_start_def)
  moreover have "cluster_step K0 ?K1"
  proof -
    let ?N = "(c_net K0)\<lparr>nodes := (nodes (c_net K0))(V4 1 10 \<mapsto>
        (demo_node 0 (V4 1 10))\<lparr>listening := False, beating := False\<rparr>)\<rparr>"
    have "cluster_step K0 (K0\<lparr>c_master := ?m1, c_net := spawn_server (V4 1 10) ?N\<rparr>)"
      by (rule join [of _ _ 5]) (simp_all add: K0_def master_new_def chunk_register_def register_def demo_node_def)
    then show ?thesis by (simp add: spawn_server_def on_node_def K0_def demo_node_def)
  qed
  moreover have "cluster_step ?K1 demo_cluster"
  proof -
    let ?N = "(c_net ?K1)\<lparr>nodes := (nodes (c_net ?K1))(V4 1 20 \<mapsto>
        (demo_node 1 (V4 1 20))\<lparr>listening := False, beating := False\<rparr>)\<rparr>"
    have "cluster_step ?K1 (?K1\<lparr>c_master := demo_master, c_net := spawn_server (V4 1 20) ?N\<rparr>)"
      by (rule join [of _ _ 7])
        (simp_all add: K0_def master_new_def chunk_register_def register_def demo_node_def demo_master_def)
    then show ?thesis by (simp add: spawn_server_def on_node_def K0_def demo_node_def demo_cluster_def demo_net_def)
  qed
  ultimately show ?thesis by (metis reach_step)
qed

lemma demo_online:
  "is_online demo_master sid \<Longrightarrow> sid = 0 \<or> sid = 1"
  "address demo_master 0 = V4 1 10" "address demo_master 1 = V4 1 20"
  by (auto simp: demo_master_def register_def master_new_def is_online_def address_def split: if_splits)

definition demo_world :: world where
  "demo_world = \<lparr> prompt = repl_new, w_master = demo_master, w_net = demo_net \<rparr>"

section \<open>One file\<close>

lemma demo_facts:
  "w_master demo_world = c_master demo_cluster" "w_net demo_world = c_net demo_cluster" "faults (c_net demo_cluster) = []"
  "map_of (files (c_master demo_cluster)) ''f'' = None" "2 \<le> length (online_server_ids (c_master demo_cluster))"
  "c_ids demo_cluster = []" "(2 :: u64) \<noteq> 0" "length [7, 8, 9 :: u8] < 2 ^ 63"
  by (simp_all add: demo_world_def demo_cluster_def demo_net_def demo_servers)

lemma demo_listening:
  "is_online (c_master demo_cluster) sid \<Longrightarrow>
     map_option listening (nodes (c_net demo_cluster) (address (c_master demo_cluster) sid)) = Some True"
  using demo_online by (auto simp: demo_cluster_def demo_net_def demo_node_def)

lemma demo_count: "chunk_count (of_nat (length [7, 8, 9 :: u8])) 2 = 2"
  by (simp add: chunk_count_def div_ceil_def)

lemma demo_sizes:
  "chunk_count (of_nat (length [7, 8, 9 :: u8])) 2 * 72 < 2 ^ 63"
  "length (c_ids demo_cluster) + chunk_count (of_nat (length [7, 8, 9 :: u8])) 2 \<le> 2 ^ 64"
  unfolding demo_count demo_facts(6) by simp_all

lemma demo_short:
  "length bs \<le> unat (2 :: u64) \<Longrightarrow>
     frameable (request_wire demo_env) (Write cid ft bs) \<and> frameable (response_wire demo_env) (Data bs)"
  by (intro conjI demo_frames) simp_all

lemmas demo_hyps = demo_env_ok demo_cluster_reach demo_facts(1-5,7,8) demo_listening demo_sizes demo_short demo_frames(3,4)

lemma demo_length: "length [7, 8, 9 :: u8] = 3"
  by simp

theorem put_get_witness:
  "\<exists>w' n. cmd_put demo_env Rpc_Done (Some [7, 8, 9]) ''f'' 2 demo_world = (Some (Inr (Out_Wrote ''f'' 3 n)), w') \<and>
     cmd_get demo_env Rpc_Done True ''f'' w' = (Inr (Out_Read [7, 8, 9] ''f'' n), w')"
  unfolding demo_length [symmetric] by (rule put_get) (fact demo_hyps)+

text \<open>The state after the file was put.\<close>

definition demo_after :: "cluster \<Rightarrow> allocation \<Rightarrow> world \<Rightarrow> bool" where
  "demo_after L r w \<longleftrightarrow> after_put demo_env [7, 8, 9] ''f'' 2 demo_world demo_cluster L r w"

lemma demo_after: "\<exists>L r w. demo_after L r w"
  unfolding demo_after_def by (rule put_run) (fact demo_hyps)+

lemmas demo_afterD = after_putD [of demo_env "[7, 8, 9]" "''f''" 2 demo_world demo_cluster, folded demo_after_def]

lemma demo_slices: "slice [7, 8, 9] 2 0 = [7, 8]" "slice [7, 8, 9] 2 1 = [9]"
  by (simp_all add: slice_def)

theorem get_integrity_witness:
  "\<exists>L r w. demo_after L r w \<and> file_data L ''f'' = Some [7, 8, 9]"
proof -
  from demo_after obtain L r w where a: "demo_after L r w" by blast
  note d = demo_afterD [OF a]
  have "nodes (w_net w) = nodes (c_net L)" using d(5) by simp
  from get_integrity [OF demo_env_ok d(3,4) this d(2)] a show ?thesis by blast
qed

text \<open>Reading without a pause is the special case of a read that overlaps nothing.\<close>

lemma get_chunks_overlapped:
  "get_chunks env r (c_net K) = (Inr out, N) \<Longrightarrow> overlapped_get env K r out"
proof (induction r arbitrary: K out)
  case Nil
  then show ?case by (simp add: read_done)
next
  case (Cons e r)
  obtain cid rs where e: "e = (cid, rs)" by fastforce
  with Cons.prems obtain bs N1 out' where x: "read_chunk_full env cid rs (c_net K) = (Inr bs, N1)"
    "get_chunks env r N1 = (Inr out', N)" "out = bs @ out'" by (auto split: sum.splits prod.splits)
  have "overlapped_get env (K\<lparr>c_net := N1\<rparr>) r out'" using x(2) by (intro Cons.IH) simp
  then show ?case unfolding e x(3) by (rule read_next [OF rtranclp.rtrancl_refl x(1)])
qed

theorem get_atomic_witness:
  "\<exists>L r w. demo_after L r w \<and> overlapped_get demo_env L r [7, 8, 9] \<and> file_data L ''f'' = Some [7, 8, 9]"
proof -
  from demo_after obtain L r w where a: "demo_after L r w" by blast
  note d = demo_afterD [OF a]
  have "\<exists>N. get_chunks demo_env r (c_net L) = (Inr [7, 8, 9], N)"
    using d(2,4,5,7) by (auto simp: cmd_get_def call_master_def split: sum.splits prod.splits)
  then have "overlapped_get demo_env L r [7, 8, 9]" by (auto intro: get_chunks_overlapped)
  with get_atomic [OF demo_env_ok d(3,7)] a show ?thesis by blast
qed

lemma demo_nodes:
  assumes "demo_after L r w"
  shows "nodes (c_net L) a = None \<longleftrightarrow> a \<noteq> V4 1 10 \<and> a \<noteq> V4 1 20"
    "nodes (c_net L) a = Some s \<Longrightarrow> beating s"
proof -
  have "map_option node_id (nodes (c_net L) a) = map_option node_id (nodes demo_net a)"
    using demo_afterD(12) [OF assms, of a] by (simp add: demo_cluster_def)
  then show "nodes (c_net L) a = None \<longleftrightarrow> a \<noteq> V4 1 10 \<and> a \<noteq> V4 1 20" "nodes (c_net L) a = Some s \<Longrightarrow> beating s"
    by (auto simp: demo_net_def node_id_def demo_node_def split: if_splits)
qed

theorem put_replicates_witness:
  "\<exists>w cids. cmd_put demo_env Rpc_Done (Some [7, 8, 9]) ''f'' 2 demo_world = (Some (Inr (Out_Wrote ''f'' 3 2)), w) \<and>
     map_of (files (w_master w)) ''f'' = Some cids \<and>
     (\<forall>sid \<in> set (placement (w_master w) (cids ! 0)).
        stored (w_net w) (address (w_master w) sid) (cids ! 0) = Some [7, 8])"
proof -
  from demo_after obtain L r w where a: "demo_after L r w" by blast
  note d = demo_afterD [OF a]
  have n: "length r = 2" using d(8) demo_count by simp
  from put_replicates [OF demo_env_ok demo_cluster_reach demo_facts(1,2,8) demo_sizes(2) d(1)] obtain cids where
    c: "Out_Wrote ''f'' (length [7, 8, 9 :: u8]) (length r) = Out_Wrote ''f'' (length [7, 8, 9 :: u8]) (length cids)"
      "map_of (files (w_master w)) ''f'' = Some cids"
      "\<forall>i < length cids. \<forall>sid \<in> set (placement (w_master w) (cids ! i)).
         stored (w_net w) (address (w_master w) sid) (cids ! i) = Some (take (unat (2 :: u64)) (drop (i * unat (2 :: u64)) [7, 8, 9]))"
    by blast
  have "0 < length cids" using c(1) n by simp
  with c(3) have "\<forall>sid \<in> set (placement (w_master w) (cids ! 0)).
      stored (w_net w) (address (w_master w) sid) (cids ! 0) = Some [7, 8]" by fastforce
  then show ?thesis using c(2) d(1) n by auto
qed


lemma demo_placed:
  assumes "demo_after L r w"
  shows "cid \<in> set (map fst r) \<Longrightarrow> 1 \<in> set (placement (c_master L) cid)" "servers (c_master L) = servers demo_master"
proof -
  note d = demo_afterD [OF assms]
  have ok: "maps_ok demo_master" using master_okD(1) [OF cluster_okD(1) [OF cluster_reach_ok [OF demo_cluster_reach]]]
    by (simp add: demo_cluster_def)
  note put = d(1) [unfolded cmd_put_def call_master_def]
  show "cid \<in> set (map fst r) \<Longrightarrow> 1 \<in> set (placement (c_master L) cid)" "servers (c_master L) = servers demo_master"
  proof (atomize (full), cases rule: allocate_cases [of "''f''" "of_nat (length [7, 8, 9 :: u8])" 2 demo_master])
    case (granted q)
    let ?on = "online_server_ids demo_master"
    let ?m = "(allocated ?on (length q) demo_master)\<lparr>files := AList.update ''f'' (map fst q) (files demo_master)\<rparr>"
    have L: "c_master L = ?m"
      using put d(4) granted(1,2) by (auto simp: demo_world_def Let_def split: prod.splits sum.splits if_splits)
    have n: "length q = 2" using granted(2) demo_count by simp
    have same: "map fst r = map fst q" using d(9) unfolding L by (simp add: update_conv')
    have p: "1 \<in> set (placement ?m (fst (q ! i)))" if "i < 2" for i
    proof -
      have "placement ?m (fst (q ! i)) = placed ?on (rr_cursor demo_master) i"
        using that n by (intro granted_lookup(1) [OF ok _ granted(5,6) refl]) simp_all
      moreover have "i = 0 \<or> i = 1" using that by auto
      ultimately show ?thesis by (auto simp: placed_def demo_servers simp flip: numeral_2_eq_2)
    qed
    have "1 \<in> set (placement (c_master L) cid)" if "cid \<in> set (map fst r)"
    proof -
      from that obtain i where "i < 2" "cid = fst (q ! i)" unfolding same by (auto simp: in_set_conv_nth n)
      then show ?thesis using p L by simp
    qed
    moreover have "servers (c_master L) = servers demo_master" unfolding L by (simp add: allocated_def)
    ultimately show "(cid \<in> set (map fst r) \<longrightarrow> 1 \<in> set (placement (c_master L) cid)) \<and> servers (c_master L) = servers demo_master"
      by blast
  qed (use put in \<open>auto simp: demo_world_def Let_def split: if_splits\<close>)
qed

text \<open>The first of the two servers is aborted after the \<^verbatim>\<open>put\<close>.\<close>

theorem put_survives_witness:
  "\<exists>L w M v. cmd_put demo_env Rpc_Done (Some [7, 8, 9]) ''f'' 2 demo_world = (Some (Inr (Out_Wrote ''f'' 3 2)), w) \<and>
     cluster_step\<^sup>*\<^sup>* demo_cluster L \<and> c_net L = w_net w \<and> M = L\<lparr>c_net := abort_server (V4 1 10) (c_net L)\<rparr> \<and>
     v = w\<lparr>w_net := c_net M\<rparr> \<and> cmd_get demo_env Rpc_Done True ''f'' v = (Inr (Out_Read [7, 8, 9] ''f'' 2), v)"
proof -
  from demo_after obtain L0 r w where a: "demo_after L0 r w" by blast
  note d = demo_afterD [OF a]
  have n: "length r = 2" using d(8) demo_count by simp
  have fr: "frameable (response_wire demo_env) (Data bs)" if "length bs \<le> unat (2 :: u64)" for bs using that demo_short by blast
  from put_survives [OF demo_env_ok demo_cluster_reach demo_facts(1,2,8) demo_sizes(2) d(1) demo_frames(3) fr] obtain L cids
    where L: "cluster_step\<^sup>*\<^sup>* demo_cluster L" "c_master L = w_master w" "c_net L = w_net w"
      "map_of (files (c_master L)) ''f'' = Some cids"
    and got: "\<forall>M v. cluster_step\<^sup>*\<^sup>* L M \<and> w_master v = c_master M \<and> w_net v = c_net M \<and> faults (c_net M) = [] \<and>
       map_of (files (c_master M)) ''f'' = Some cids \<and>
       (\<forall>cid \<in> set cids. \<exists>sid \<in> set (placement (c_master M) cid). is_online (c_master M) sid \<and>
          map_option listening (nodes (c_net M) (address (c_master M) sid)) = Some True) \<longrightarrow>
       cmd_get demo_env Rpc_Done True ''f'' v = (Inr (Out_Read [7, 8, 9] ''f'' (length cids)), v)" by blast
  let ?M = "L\<lparr>c_net := abort_server (V4 1 10) (c_net L)\<rparr>" and ?v = "w\<lparr>w_net := abort_server (V4 1 10) (c_net L)\<rparr>"
  have m: "c_master L = c_master L0" and N: "c_net L = c_net L0" using L d(4,5) by simp_all
  have cids: "cids = map fst r" using L(4) d(9) unfolding m by simp
  have one: "is_online (c_master L) 1" "address (c_master L) 1 = V4 1 20"
    using demo_placed(2) [OF a] unfolding m
    by (simp_all add: is_online_def address_def demo_master_def register_def master_new_def)
  have "map_option node_id (nodes (c_net L) (V4 1 20)) = Some (1, V4 1 20, True, True)"
    using d(12) [of "V4 1 20"] unfolding N by (simp add: demo_cluster_def demo_net_def demo_node_def node_id_def)
  then have "map_option listening (nodes (c_net ?M) (V4 1 20)) = Some True"
    by (auto simp: node_id_def abort_server_def on_node_def split: option.split)
  then have up: "\<forall>cid \<in> set cids. \<exists>sid \<in> set (placement (c_master ?M) cid). is_online (c_master ?M) sid \<and>
      map_option listening (nodes (c_net ?M) (address (c_master ?M) sid)) = Some True"
    using demo_placed(1) [OF a] one [unfolded m] unfolding cids by (force simp: m)
  have "faults (c_net ?M) = []" using d(6) unfolding N [symmetric] by (simp add: abort_server_def on_node_def split: option.split)
  moreover have "cluster_step\<^sup>*\<^sup>* L ?M" by (rule r_into_rtranclp) (rule abort)
  ultimately have "cmd_get demo_env Rpc_Done True ''f'' ?v = (Inr (Out_Read [7, 8, 9] ''f'' (length cids)), ?v)"
    using up L(2,4) by (intro got [rule_format, of ?M ?v]) simp
  then show ?thesis using d(1) L(1,3) n unfolding cids by (intro exI [of _ L] exI [of _ w] exI [of _ ?M] exI [of _ ?v]) simp
qed

theorem gc_converges_witness:
  "\<exists>L r w m' N'. demo_after L r w \<and>
     fold (\<lambda>(now, a). heartbeat_turn now Rpc_Done a)
       ([(9, V4 1 10), (10, V4 1 20)] @ [(19, V4 1 20), (20, V4 1 10)])
       (snd (delete_path ''f'' (c_master L)), c_net L) = (m', N') \<and>
     map_of (chunks m') (fst (r ! 0)) = None"
proof -
  from demo_after obtain L r w where a: "demo_after L r w" by blast
  note d = demo_afterD [OF a] and ok = cluster_reach_ok [OF demo_afterD(3) [OF a]]
  let ?xs = "[(9, V4 1 10), (10 :: nat, V4 1 20)]" and ?ys = "[(19, V4 1 20), (20 :: nat, V4 1 10)]"
  obtain m' N' where f: "fold (\<lambda>(now, a). heartbeat_turn now Rpc_Done a) (?xs @ ?ys)
      (snd (delete_path ''f'' (c_master L)), c_net L) = (m', N')" by fastforce
  have m: "fst (r ! 0) \<in> set (map fst r)" using d(8) demo_count by simp
  have up: "\<exists>s. nodes (c_net L) b = Some s \<and> beating s" if "b \<in> snd ` set ?xs" for b
    using that demo_nodes [OF a, of b] by (cases "nodes (c_net L) b") auto
  have at: "address (c_master L) sid \<in> snd ` set ?xs" if "sid \<in> set (placement (c_master L) (fst (r ! 0)))" for sid
  proof -
    have "file_chunk_ok (c_master L) (fst (r ! 0))"
      using master_okD(3) [OF cluster_okD(1) [OF ok]] d(9) m unfolding files_ok_def by blast
    then have "wanted (c_master L) sid (fst (r ! 0))" using that by (auto simp: file_chunk_ok_def wanted_def placement_def)
    from wanted_node [OF ok this] demo_nodes(1) [OF a, of "address (c_master L) sid"] show ?thesis by auto
  qed
  from gc_converges [OF d(3,9) m up _ at f] have "map_of (chunks m') (fst (r ! 0)) = None" by auto
  then show ?thesis using a f by blast
qed

text \<open>A session at the prompt: a master, one chunk server, an unknown command, the end of the input.\<close>

definition demo_outside :: outside where
  "demo_outside = \<lparr> clock = 3, transport = Rpc_Done, master_bind = Some (V4 1 1, V4 1 2), chunk_bind = Some (V4 1 10),
     file_bytes_of = (\<lambda>_. None), file_saved = (\<lambda>_. True) \<rparr>"


end
