(* ===== verification/Spec2Isabelle.thy ===== *)
theory Spec2Isabelle
  imports Spsc Lock_Client Thread_Props Wal_Repl Gfs_Roundtrip
begin

text \<open>
  \<^bold>\<open>BS2-exercise: four Rust programs and what makes them correct.\<close>

  The repository holds four crates, modelled one after the other, in the order of dependency:
  \<^item> \<^verbatim>\<open>spsc/\<close>: a lock-free channel with one producer and one consumer over a ring buffer;
  \<^item> \<^verbatim>\<open>locks/\<close>: a lock service over TCP, a text protocol and a line framer in \<^verbatim>\<open>lib.rs\<close>, and two servers that
    speak it, an event loop and one thread per connection;
  \<^item> \<^verbatim>\<open>wal/\<close>: a key-value store in memory whose changes go through a write-ahead log, and its command line;
  \<^item> \<^verbatim>\<open>gfs/\<close>: a distributed file system, a master that owns names and placement, chunk servers that hold the
    bytes twice, and a command-line client that talks to both.

  The crates share no code but conventions; \<^verbatim>\<open>gfs\<close> has an in-memory store with the interface of \<^verbatim>\<open>wal\<close>, and the
  development proves the two interchangeable.

  \<^bold>\<open>Conventions.\<close>  The target is a 64-bit platform: \<^verbatim>\<open>usize\<close> and \<^verbatim>\<open>u64\<close> are 64-bit words and wrap, as they do in a
  release build.  A byte of text is a \<^typ>\<open>char\<close>, a \<^verbatim>\<open>str\<close> is the list of its UTF-8 bytes.  An \<^verbatim>\<open>Err\<close> is \<open>Inl\<close>, an
  \<^verbatim>\<open>Ok\<close> is \<open>Inr\<close>; a panic is \<open>None\<close> or an error of its own.  Hash maps are association lists and hash sets lists
  without repetition; their order, which Rust leaves open, is the order of insertion, and no theorem depends
  on it.  What the operating system answers is an argument: the bytes that arrive, how a \<^verbatim>\<open>write\<close> ends, which
  system calls fail, when the machine crashes, which connections break.  The serialiser \<^verbatim>\<open>postcard\<close> and the
  checksum \<^verbatim>\<open>crc32fast\<close> are third-party code and parameters: records \<open>codec\<close> and \<open>wire\<close>, with the hypothesis that
  decoding an encoded value gives it back; the witnesses instantiate them.

  \<^bold>\<open>Shared theories.\<close>  \<open>Prelude\<close>: widths, reachable states (\<open>reach\<close>), the locale \<open>invariant_system\<close>, collections of
  rewrite rules, generic lemmas.  \<open>Rust_Std\<close>: the string and integer functions of the standard library the
  programs call, with their inverses.  \<open>BTree\<close>: \<^verbatim>\<open>BTreeMap\<close> as a sorted association list.

  \<^bold>\<open>The channel.\<close>  \<open>Spsc\<close> models \<^verbatim>\<open>spsc/src/lib.rs\<close> at the granularity of its atomic accesses: \<open>producer_step\<close>
  and \<open>consumer_step\<close> have one rule for each load, store and slot access of \<^verbatim>\<open>send\<close> and \<^verbatim>\<open>recv\<close>, and a load may
  return any value that release/acquire ordering allows.  The inductive invariant \<open>chan_inv\<close> keeps the slots between
  the two counters full and the others empty; it gives the refinement of a bounded queue, the order of what is
  received, the exclusion of a race on a slot, the reports of a closed channel, and progress.  \<open>ring_drop\<close> is the
  destructor with its panic guard.

  \<^bold>\<open>The lock service.\<close>  \<open>Protocol\<close> and \<open>Framer\<close> model \<^verbatim>\<open>locks/src/lib.rs\<close>: parsers and printers with their round
  trips, and the line framer, whose reader is a function of the bytes alone, however they were cut, and whose
  double-buffered writer delivers exactly what was queued.  \<open>Lock_Spec\<close> is the service without sockets or threads:
  sessions, holders and queues, the steps \<open>lock_step\<close>, and the locale \<open>lock_server\<close>, which says what a server that
  refines it gives.  It is interpreted on both servers:
  \<^item> \<open>Event_Server\<close> models \<^verbatim>\<open>locks/src/bin/event_server.rs\<close>, one turn of the loop as a function (\<open>loop_body\<close>) of the
    collected events and the answers of the sockets; \<open>Event_Locks\<close> proves the refinement, \<open>Event_Requests\<close> the
    outcome of each request and of a disconnection, \<open>Event_Replies\<close> that clients are sent whole, readable lines;
    \<open>Lock_Client\<close> is \<^verbatim>\<open>locks/src/bin/client.rs\<close>, with what its user sees of this server and that it ends;
  \<^item> \<open>Thread_Server\<close> models \<^verbatim>\<open>locks/src/bin/thread_server.rs\<close>: a step of a thread is a critical section, and condition
    variables may wake a thread without a reason; \<open>Thread_Locks\<close> proves the refinement, \<open>Thread_Props\<close> mutual exclusion,
    that no wake-up is lost, and what a release and a disconnection do.

  Both count the connections they ever accept and are followed for fewer than \<open>2 ^ 64 - 1\<close> of them, so that client
  identifiers do not wrap around.

  \<^bold>\<open>The write-ahead log.\<close>  \<open>Posix_Fs\<close> is the file system: directories and contents, each with the copy on stable
  storage that only \<^verbatim>\<open>fsync\<close> brings up to date, calls that fail when the environment says so, and crashes that keep
  what was synced and an arbitrary rest.  \<open>Wal\<close> models \<^verbatim>\<open>wal/src/lib.rs\<close> and \<^verbatim>\<open>fs_ext.rs\<close> over it, \<open>Wal_Log\<close> relates the
  bytes of a log to the operations it records, \<open>Wal_Store\<close> follows an operation through its system calls, \<open>Wal_Props\<close>
  has the promises: what was acknowledged survives, compaction is safe at every step, a cut log gives a
  prefix; and the cases in which the code does not keep them.  \<open>Wal_Repl\<close> is \<^verbatim>\<open>wal/src/main.rs\<close>.

  \<^bold>\<open>The file system.\<close>  \<open>Gfs_Store\<close>, \<open>Gfs_Data\<close>, \<open>Gfs_Master\<close>, \<open>Gfs_Chunk\<close>, \<open>Gfs_Cli\<close>, \<open>Gfs_Parse\<close> and \<open>Gfs_Main\<close> model the
  files \<^verbatim>\<open>store.rs\<close>, \<^verbatim>\<open>data.rs\<close>, \<^verbatim>\<open>master.rs\<close> (with the types of \<^verbatim>\<open>lib.rs\<close>), \<^verbatim>\<open>chunk.rs\<close> and \<^verbatim>\<open>main.rs\<close> under \<^verbatim>\<open>gfs/src\<close>.
  \<open>Gfs_Store\<close> states the interface of a store as a locale and interprets it on the in-memory store and on the
  write-ahead log; a second locale proves that two such stores cannot be told apart.  \<open>Gfs_Namespace\<close> and
  \<open>Gfs_Master_Props\<close> prove the master's invariant, the outcome of its requests and the balance of its placement.
  \<open>Gfs_Net\<close> says what one exchange on the data plane does.  An exchange recurses when the primary forwards a write;
  \<open>exchange\<close> is bounded by two levels, and \<open>exchange_bound\<close> proves that any larger bound gives the same result, since
  a forwarded write is not forwarded again.  \<open>Gfs_Cluster\<close> is the whole system as a step relation: requests, the two
  stores and the reply of a write and the three parts of a heartbeat as separate steps, lost messages, time-outs,
  aborted servers.  \<open>Gfs_Files\<close> proves its invariant,
  \<open>Gfs_Clients\<close> what clients can rely on, \<open>Gfs_Roundtrip\<close> that \<^verbatim>\<open>get\<close> gives back what \<^verbatim>\<open>put\<close> stored; \<open>Gfs_Main\<close> that
  the client's loop never panics and leaves no server running.

  \<^bold>\<open>Not modelled.\<close>
  \<^item> \<^verbatim>\<open>locks/src/bin/async_server.rs\<close> ends in \<^verbatim>\<open>todo!()\<close> before its accept loop.
  \<^item> The entry points \<^verbatim>\<open>gfs/src/bin/*.rs\<close> and \<^verbatim>\<open>spsc/src/main.rs\<close>, benchmarks and tests.
  \<^item> Glue to third-party libraries: binding and polling sockets (\<^verbatim>\<open>mio\<close>, taken to succeed), \<^verbatim>\<open>spawn_listeners\<close> and the
    \<^verbatim>\<open>tarpc\<close> stubs, \<^verbatim>\<open>tokio\<close> tasks, logging.
  \<^item> The \<^verbatim>\<open>Display\<close> texts of errors and of the help screen; printed output is a constructor with its values.
  \<^item> The Windows branch of \<^verbatim>\<open>wal/src/fs_ext.rs\<close>.
  \<^item> Time: a time-out is a step that may happen to a server that was silent long enough, and durations are
    compared, not measured.  Memory: allocations succeed, except that \<^verbatim>\<open>Vec::with_capacity\<close> in \<^verbatim>\<open>allocate\<close> panics
    where its capacity overflows.
\<close>

end
